(* ===== verification/Prelude.thy ===== *)
theory Prelude
  imports Main "HOL-Library.Word"
begin

text \<open>
  Shared vocabulary of the xv6-riscv-rcu development: the machine integer types, the
  result type of kernel operations, and the facts on results and lists that the component
  theories use.

  A kernel function is a HOL function from its arguments and a state to a result. The
  result says how the call ends:
  \<^item> \<open>Ret x\<close>: it returns \<open>x\<close> (the return value and the new state);
  \<^item> \<open>Panic msg\<close>: it calls \<open>panic(msg)\<close> (kernel/printf.c), which never returns;
  \<^item> \<open>Block c\<close>: it waits on channel \<open>c\<close>, in \<open>sleep\<close> or in a spin loop,
    and some other process or CPU has to act before it can go on;
  \<^item> \<open>Fault\<close>: it dereferences a pointer that points to no object;
  \<^item> \<open>NoReturn\<close>: a loop of it never ends.
\<close>

type_synonym byte = "8 word"
type_synonym u16 = "16 word"
type_synonym u32 = "32 word"
type_synonym u64 = "64 word"

text \<open>Addresses of kernel objects of the C heap; 0 is the null pointer.\<close>

type_synonym addr = nat

text \<open>The spin locks of the kernel, by the global or the object that holds them.\<close>

datatype lockid =
    L_kmem | L_bcache | L_log | L_itable | L_ftable | L_cons | L_uart | L_vdisk | L_pr
  | L_pid | L_wait | L_rcu | L_ticks
  | L_proc addr | L_pipe addr | L_sleep_buf nat | L_sleep_inode nat

text \<open>The channels of \<open>sleep\<close> and \<open>wakeup\<close>, and spinning for a lock.\<close>

datatype chan =
    ChLog | ChTicks | ChVdiskFree | ChUartTx | ChCons
  | ChPipeRead addr | ChPipeWrite addr
  | ChBuf nat | ChSleep lockid | ChUid int
  | ChSpin lockid

datatype 'a res = Ret 'a | Panic string | Block chan | Fault | NoReturn

definition bind_res :: "'a res \<Rightarrow> ('a \<Rightarrow> 'b res) \<Rightarrow> 'b res" where
  "bind_res r f = (case r of Ret x \<Rightarrow> f x | Panic m \<Rightarrow> Panic m | Block c \<Rightarrow> Block c | Fault \<Rightarrow> Fault
     | NoReturn \<Rightarrow> NoReturn)"

lemma bind_res_simps [simp]:
  "bind_res (Ret x) f = f x"
  "bind_res (Panic m) f = Panic m"
  "bind_res (Block c) f = Block c"
  "bind_res Fault f = Fault"
  "bind_res NoReturn f = NoReturn"
  by (simp_all add: bind_res_def)

lemma bind_res_Ret [simp]: "bind_res r f = Ret y \<longleftrightarrow> (\<exists>x. r = Ret x \<and> f x = Ret y)"
  by (cases r) auto

lemma bind_res_assoc: "bind_res (bind_res r f) g = bind_res r (\<lambda>x. bind_res (f x) g)"
  by (cases r) auto

lemma bind_res_cong [fundef_cong]:
  assumes "r = r'" and "\<And>x. r' = Ret x \<Longrightarrow> f x = f' x"
  shows "bind_res r f = bind_res r' f'"
  using assms by (cases r') (auto simp: bind_res_def)

text \<open>A loop that may not end is a partial function into option; \<open>None\<close> is its divergence.\<close>

definition from_loop :: "'a res option \<Rightarrow> 'a res" where
  "from_loop r = (case r of None \<Rightarrow> NoReturn | Some x \<Rightarrow> x)"

lemma from_loop_simps [simp]: "from_loop None = NoReturn" "from_loop (Some x) = x"
  by (simp_all add: from_loop_def)

text \<open>A total run: the call returns, and its result satisfies the postcondition.\<close>

definition returns :: "'a res \<Rightarrow> ('a \<Rightarrow> bool) \<Rightarrow> bool" where
  "returns r Q \<longleftrightarrow> (\<exists>x. r = Ret x \<and> Q x)"

lemma returns_Ret [simp]: "returns (Ret x) Q \<longleftrightarrow> Q x"
  by (simp add: returns_def)

lemma returns_not_Ret [simp]:
  "\<not> returns (Panic m) Q" "\<not> returns (Block c) Q" "\<not> returns Fault Q"
  "\<not> returns NoReturn Q"
  by (simp_all add: returns_def)

lemma returns_bind [intro]:
  "returns r Q \<Longrightarrow> (\<And>x. Q x \<Longrightarrow> returns (f x) P) \<Longrightarrow> returns (bind_res r f) P"
  by (auto simp: returns_def)

lemma returns_mono: "returns r Q \<Longrightarrow> (\<And>x. Q x \<Longrightarrow> P x) \<Longrightarrow> returns r P"
  by (auto simp: returns_def)

text \<open>
  A loop \<open>for (i = 0; i < n; i++)\<close> that looks for the first index with a property and
  leaves the loop there: \<open>first_index P n\<close> is that index, if there is one.
\<close>

fun first_index_from :: "(nat \<Rightarrow> bool) \<Rightarrow> nat \<Rightarrow> nat \<Rightarrow> nat option" where
  "first_index_from P i 0 = None"
| "first_index_from P i (Suc k) = (if P i then Some i else first_index_from P (Suc i) k)"

definition first_index :: "(nat \<Rightarrow> bool) \<Rightarrow> nat \<Rightarrow> nat option" where
  "first_index P n = first_index_from P 0 n"

lemma first_index_from_Some:
  "first_index_from P i k = Some j \<Longrightarrow> i \<le> j \<and> j < i + k \<and> P j \<and> (\<forall>m. i \<le> m \<and> m < j \<longrightarrow> \<not> P m)"
proof (induction k arbitrary: i)
  case 0
  then show ?case by simp
next
  case (Suc k)
  show ?case
  proof (cases "P i")
    case True
    with Suc.prems show ?thesis by auto
  next
    case False
    with Suc.prems have "first_index_from P (Suc i) k = Some j" by simp
    from Suc.IH [OF this] False show ?thesis
      by (metis Suc_leD Suc_leI add_Suc_shift le_neq_implies_less)
  qed
qed

lemma first_index_from_None:
  "first_index_from P i k = None \<longleftrightarrow> (\<forall>m. i \<le> m \<and> m < i + k \<longrightarrow> \<not> P m)"
proof (induction k arbitrary: i)
  case 0
  then show ?case by auto
next
  case (Suc k)
  have range: "(i \<le> m \<and> m < i + Suc k) = (m = i \<or> (Suc i \<le> m \<and> m < Suc i + k))" for m
    by auto
  show ?case
    by (auto simp: Suc.IH range simp del: add_Suc add_Suc_right)
qed

lemma first_index_SomeD:
  "first_index P n = Some j \<Longrightarrow> j < n \<and> P j \<and> (\<forall>m<j. \<not> P m)"
  by (auto simp: first_index_def dest: first_index_from_Some)

lemma first_index_None: "first_index P n = None \<longleftrightarrow> (\<forall>m<n. \<not> P m)"
  by (simp add: first_index_def first_index_from_None)

lemma first_index_ex: "(\<exists>j<n. P j) \<longleftrightarrow> (\<exists>j. first_index P n = Some j)"
  using first_index_None [of P n] by auto

text \<open>The operations' definitions, and the invariants they keep.\<close>

named_theorems op_defs
named_theorems inv_rules

lemma filter_neq_id [simp]: "c \<notin> set xs \<Longrightarrow> filter (\<lambda>y. y \<noteq> c) xs = xs"
  by (induction xs) auto

lemma uint_eq_0_iff [simp]: "uint a = 0 \<longleftrightarrow> a = 0"
  by (simp add: word_uint_eq_iff)

lemma uint_pos_iff [simp]: "0 < uint a \<longleftrightarrow> a \<noteq> 0"
  using uint_eq_0_iff [of a] uint_nonnegative [of a] by linarith

lemma uint_eq_iff [simp]: "uint a = uint b \<longleftrightarrow> a = b"
  by (simp add: word_uint_eq_iff)

lemma sint_of_nat_small: "n < 2 ^ 31 \<Longrightarrow> sint (of_nat n :: u32) = int n"
  by (simp add: signed_of_nat signed_take_bit_int_eq_self)

lemma unat_inject: "unat a = unat b \<longleftrightarrow> a = b"
  by (simp add: word_unat_eq_iff)

end
