(* ===== verification/Machine.thy ===== *)
theory Machine
  imports Prelude
begin

unbundle bit_operations_syntax \<comment> \<open>for AND, OR, XOR and NOT on words\<close>

text \<open>
  The configuration constants (kernel/param.h), the page and address-space macros
  (kernel/riscv.h, kernel/memlayout.h) and the structures of kernel/proc.h and
  kernel/spinlock.h, with the facts on the address arithmetic that the paging code and the
  process table rely on.

  Structure fields carry a prefix for their structure (\<open>lk_\<close> for spinlock, \<open>cpu_\<close>,
  \<open>cx_\<close> for context, \<open>tf_\<close> for trapframe, \<open>pr_\<close> for proc) and keep the
  source's name after it.
\<close>

section \<open>Configuration\<close>

definition NPROC :: nat where "NPROC = 64"
definition NCPU :: nat where "NCPU = 2"
definition NOFILE :: nat where "NOFILE = 16"
definition NFILE :: nat where "NFILE = 100"
definition NINODE :: nat where "NINODE = 50"
definition NDEV :: nat where "NDEV = 10"
definition ROOTDEV :: nat where "ROOTDEV = 1"
definition MAXARG :: nat where "MAXARG = 32"
definition MAXOPBLOCKS :: nat where "MAXOPBLOCKS = 10"
definition LOGSIZE :: nat where "LOGSIZE = MAXOPBLOCKS * 3"
definition NBUF :: nat where "NBUF = MAXOPBLOCKS * 3"
definition MAXPATH :: nat where "MAXPATH = 128"

lemmas param_defs = NPROC_def NCPU_def NOFILE_def NFILE_def NINODE_def NDEV_def ROOTDEV_def
  MAXARG_def MAXOPBLOCKS_def LOGSIZE_def NBUF_def MAXPATH_def

section \<open>Pages and address spaces\<close>

definition PGSIZE :: u64 where "PGSIZE = 4096"
definition PGSHIFT :: nat where "PGSHIFT = 12"

definition PGROUNDUP :: "u64 \<Rightarrow> u64" where
  "PGROUNDUP sz = (sz + PGSIZE - 1) AND NOT (PGSIZE - 1)"

definition PGROUNDDOWN :: "u64 \<Rightarrow> u64" where
  "PGROUNDDOWN a = a AND NOT (PGSIZE - 1)"

definition PTE_V :: u64 where "PTE_V = push_bit 0 1"
definition PTE_R :: u64 where "PTE_R = push_bit 1 1"
definition PTE_W :: u64 where "PTE_W = push_bit 2 1"
definition PTE_X :: u64 where "PTE_X = push_bit 3 1"
definition PTE_U :: u64 where "PTE_U = push_bit 4 1"

lemmas pte_bit_defs = PTE_V_def PTE_R_def PTE_W_def PTE_X_def PTE_U_def

definition PA2PTE :: "u64 \<Rightarrow> u64" where
  "PA2PTE pa = push_bit 10 (drop_bit 12 pa)"

definition PTE2PA :: "u64 \<Rightarrow> u64" where
  "PTE2PA pte = push_bit 12 (drop_bit 10 pte)"

definition PTE_FLAGS :: "u64 \<Rightarrow> u64" where
  "PTE_FLAGS pte = pte AND 0x3FF"

definition PXMASK :: u64 where "PXMASK = 0x1FF"

definition PXSHIFT :: "nat \<Rightarrow> nat" where
  "PXSHIFT level = PGSHIFT + 9 * level"

definition PX :: "nat \<Rightarrow> u64 \<Rightarrow> u64" where
  "PX level va = drop_bit (PXSHIFT level) va AND PXMASK"

definition MAXVA :: u64 where "MAXVA = push_bit (9 + 9 + 9 + 12 - 1) 1"

definition KERNBASE :: u64 where "KERNBASE = 0x80000000"
definition PHYSTOP :: u64 where "PHYSTOP = KERNBASE + 128 * 1024 * 1024"
definition TRAMPOLINE :: u64 where "TRAMPOLINE = MAXVA - PGSIZE"
definition TRAPFRAME :: u64 where "TRAPFRAME = TRAMPOLINE - PGSIZE"

definition KSTACK :: "nat \<Rightarrow> u64" where
  "KSTACK p = TRAMPOLINE - (of_nat p + 1) * 2 * PGSIZE"

definition MAKE_SATP :: "u64 \<Rightarrow> u64" where
  "MAKE_SATP pagetable = push_bit 60 8 OR drop_bit 12 pagetable"

lemmas page_defs = PGSIZE_def PGSHIFT_def PGROUNDUP_def PGROUNDDOWN_def

definition page_aligned :: "u64 \<Rightarrow> bool" where
  "page_aligned a \<longleftrightarrow> a mod PGSIZE = 0"

section \<open>Processes and processors\<close>

record spinlock =
  lk_locked :: bool
  lk_name :: string
  lk_cpu :: "nat option"

record kcontext =
  cx_ra :: u64
  cx_sp :: u64
  cx_s0 :: u64
  cx_s1 :: u64
  cx_s2 :: u64
  cx_s3 :: u64
  cx_s4 :: u64
  cx_s5 :: u64
  cx_s6 :: u64
  cx_s7 :: u64
  cx_s8 :: u64
  cx_s9 :: u64
  cx_s10 :: u64
  cx_s11 :: u64

text \<open>
  The nesting depth \<open>noff\<close>, process ids and unique ids are C integers; they are unbounded here, so what
  is said of them is meant below 2^31 nested sections or processes created.
\<close>

record cpu =
  cpu_proc :: addr
  cpu_context :: kcontext
  cpu_noff :: int
  cpu_intena :: bool
  cpu_idle :: bool

datatype procstate = UNUSED | USED | SLEEPING | RUNNABLE | RUNNING | ZOMBIE

record proc =
  pr_lock :: spinlock
  pr_state :: procstate
  pr_chan :: chan
  pr_killed :: bool
  pr_xstate :: int
  pr_nKStack :: nat
  pr_pid :: int
  pr_uid :: int
  pr_p_uid :: int
  pr_parent :: addr
  pr_kstack :: u64
  pr_sz :: u64
  pr_pagetable :: u64
  pr_trapframe :: u64
  pr_context :: kcontext
  pr_ofile :: "nat option list"
  pr_cwd :: "nat option"
  pr_name :: string

text \<open>What \<open>memset(p, 0, sizeof(struct \<dots>))\<close> leaves; the null channel is \<open>ChUid 0\<close>.\<close>

definition null_chan :: chan where "null_chan = ChUid 0"

definition zero_spinlock :: spinlock where
  "zero_spinlock = \<lparr>lk_locked = False, lk_name = '''', lk_cpu = None\<rparr>"

definition zero_context :: kcontext where
  "zero_context = \<lparr>cx_ra = 0, cx_sp = 0, cx_s0 = 0, cx_s1 = 0, cx_s2 = 0, cx_s3 = 0, cx_s4 = 0,
     cx_s5 = 0, cx_s6 = 0, cx_s7 = 0, cx_s8 = 0, cx_s9 = 0, cx_s10 = 0, cx_s11 = 0\<rparr>"

definition zero_proc :: proc where
  "zero_proc = \<lparr>pr_lock = zero_spinlock, pr_state = UNUSED, pr_chan = null_chan,
     pr_killed = False, pr_xstate = 0, pr_nKStack = 0, pr_pid = 0, pr_uid = 0, pr_p_uid = 0,
     pr_parent = 0, pr_kstack = 0, pr_sz = 0, pr_pagetable = 0, pr_trapframe = 0,
     pr_context = zero_context, pr_ofile = replicate NOFILE None, pr_cwd = None, pr_name = ''''\<rparr>"

section \<open>Facts on the address arithmetic\<close>

lemma PGSIZE_mask: "PGSIZE - 1 = mask 12"
  by (simp add: PGSIZE_def mask_eq_exp_minus_1)

lemma PGROUNDDOWN_bits: "PGROUNDDOWN a = push_bit 12 (drop_bit 12 a)"
  unfolding PGROUNDDOWN_def PGSIZE_mask
  by (rule bit_word_eqI) (auto simp: bit_simps simp del: mask_numeral)

lemma page_aligned_iff: "page_aligned a \<longleftrightarrow> PGROUNDDOWN a = a"
proof -
  have "a mod 4096 = take_bit 12 a"
    by (simp add: take_bit_eq_mod)
  moreover have "push_bit 12 (drop_bit 12 a) + take_bit 12 a = a"
    using bits_ident [of 12 a] by (simp add: push_bit_eq_mult drop_bit_eq_div)
  ultimately show ?thesis
    by (metis PGROUNDDOWN_bits PGSIZE_def add_cancel_right_right page_aligned_def)
qed

lemma page_aligned_PGROUNDDOWN [simp]: "page_aligned (PGROUNDDOWN a)"
  unfolding page_aligned_iff PGROUNDDOWN_bits
  by (rule bit_word_eqI) (auto simp: bit_simps)

lemma PTE2PA_PA2PTE:
  assumes "page_aligned pa" and "drop_bit 56 pa = 0" and "drop_bit 10 f = 0"
  shows "PTE2PA (PA2PTE pa OR f) = pa"
proof (rule bit_word_eqI)
  fix n assume n: "n < LENGTH(64)"
  have al: "PGROUNDDOWN pa = pa" using assms(1) by (simp add: page_aligned_iff)
  have lo: "bit pa n \<Longrightarrow> 12 \<le> n"
    by (subst (asm) al [symmetric]) (simp add: PGROUNDDOWN_bits bit_simps)
  have hi: "bit pa n \<Longrightarrow> n < 56"
  proof (rule ccontr)
    assume "bit pa n" "\<not> n < 56"
    then have "bit (drop_bit 56 pa) (n - 56)" by (simp add: bit_simps)
    with assms(2) show False by simp
  qed
  have f: "\<not> bit f m" if "10 \<le> m" for m
  proof
    assume "bit f m"
    with that have "bit (drop_bit 10 f) (m - 10)" by (simp add: bit_simps)
    with assms(3) show False by simp
  qed
  show "bit (PTE2PA (PA2PTE pa OR f)) n = bit pa n"
    using n lo hi by (auto simp: PTE2PA_def PA2PTE_def bit_simps f)
qed

end
