(* ===== verification/Spinlock.thy ===== *)
theory Spinlock
  imports Machine
begin

unbundle bit_operations_syntax

text \<open>
  Spin locks and interrupt nesting (kernel/spinlock.c, with the interrupt-enable helpers of
  kernel/riscv.h). The state \<open>mach\<close> holds, per hart, its \<open>sstatus\<close> register and its
  \<open>struct cpu\<close>, the spin locks that are globals, and the hart that executes (\<open>hart\<close>,
  the \<open>tp\<close> register).

  \<open>acquire\<close> is split where another CPU can run between its parts: entering
  (\<open>push_off\<close>, the \<open>holding\<close> check, \<open>idle = 1\<close>), one round of the test-and-set
  loop, and recording the owner. The sequential \<open>acquire\<close> composes them and is
  \<open>Block (ChSpin l)\<close> where it would spin on a lock another CPU holds. The interleaving of
  several CPUs is the step relation \<open>lock_step\<close>; mutual exclusion is its invariant.
\<close>

record mach =
  hart :: nat
  sstatus :: "nat \<Rightarrow> u64"
  cpus :: "nat \<Rightarrow> cpu"
  locks :: "lockid \<Rightarrow> spinlock"

section \<open>Interrupt enable\<close>

definition SSTATUS_SIE :: u64 where "SSTATUS_SIE = push_bit 1 1"

definition intr_on :: "'z mach_scheme \<Rightarrow> 'z mach_scheme" where
  "intr_on s = s\<lparr>sstatus := (sstatus s)(hart s := sstatus s (hart s) OR SSTATUS_SIE)\<rparr>"

definition intr_off :: "'z mach_scheme \<Rightarrow> 'z mach_scheme" where
  "intr_off s = s\<lparr>sstatus := (sstatus s)(hart s := sstatus s (hart s) AND NOT SSTATUS_SIE)\<rparr>"

definition intr_get :: "'z mach_scheme \<Rightarrow> bool" where
  "intr_get s \<longleftrightarrow> sstatus s (hart s) AND SSTATUS_SIE \<noteq> 0"

definition cpuid :: "'z mach_scheme \<Rightarrow> nat" where
  "cpuid s = hart s"

definition mycpu :: "'z mach_scheme \<Rightarrow> cpu" where
  "mycpu s = cpus s (cpuid s)"

definition upd_mycpu :: "(cpu \<Rightarrow> cpu) \<Rightarrow> 'z mach_scheme \<Rightarrow> 'z mach_scheme" where
  "upd_mycpu f s = s\<lparr>cpus := (cpus s)(cpuid s := f (mycpu s))\<rparr>"

definition push_off :: "'z mach_scheme \<Rightarrow> 'z mach_scheme" where
  "push_off s =
     (let old = intr_get s;
          s1 = intr_off s;
          s2 = (if cpu_noff (mycpu s1) = 0
                then upd_mycpu (\<lambda>c. c\<lparr>cpu_intena := old\<rparr>) s1 else s1)
      in upd_mycpu (\<lambda>c. c\<lparr>cpu_noff := cpu_noff c + 1\<rparr>) s2)"

definition pop_off :: "'z mach_scheme \<Rightarrow> 'z mach_scheme res" where
  "pop_off s =
     (if intr_get s then Panic ''pop_off - interruptible''
      else if cpu_noff (mycpu s) < 1 then Panic ''pop_off''
      else let s1 = upd_mycpu (\<lambda>c. c\<lparr>cpu_noff := cpu_noff c - 1\<rparr>) s
           in Ret (if cpu_noff (mycpu s1) = 0 \<and> cpu_intena (mycpu s1) then intr_on s1 else s1))"

section \<open>Locks\<close>

definition initlock :: "string \<Rightarrow> spinlock" where
  "initlock name = \<lparr>lk_locked = False, lk_name = name, lk_cpu = None\<rparr>"

definition holding :: "spinlock \<Rightarrow> 'z mach_scheme \<Rightarrow> bool" where
  "holding lk s \<longleftrightarrow> lk_locked lk \<and> lk_cpu lk = Some (cpuid s)"

definition set_idle :: "bool \<Rightarrow> 'z mach_scheme \<Rightarrow> 'z mach_scheme" where
  "set_idle b s = upd_mycpu (\<lambda>c. c\<lparr>cpu_idle := b\<rparr>) s"

text \<open>\<open>acquire\<close> up to its spin loop: lines 24--29 of spinlock.c.\<close>

definition acquire_enter :: "spinlock \<Rightarrow> 'z mach_scheme \<Rightarrow> 'z mach_scheme res" where
  "acquire_enter lk s =
     (let s1 = push_off s
      in if holding lk s1 then Panic ''acquire'' else Ret (set_idle True s1))"

text \<open>The atomic swap of line 36: the old value and the lock after it.\<close>

definition test_and_set :: "spinlock \<Rightarrow> bool \<times> spinlock" where
  "test_and_set lk = (lk_locked lk, lk\<lparr>lk_locked := True\<rparr>)"

text \<open>After the loop: lines 46--47.\<close>

definition acquire_got :: "spinlock \<Rightarrow> 'z mach_scheme \<Rightarrow> spinlock \<times> 'z mach_scheme" where
  "acquire_got lk s = (lk\<lparr>lk_cpu := Some (cpuid s)\<rparr>, set_idle False s)"

definition acquire_lk ::
    "lockid \<Rightarrow> spinlock \<Rightarrow> 'z mach_scheme \<Rightarrow> (spinlock \<times> 'z mach_scheme) res" where
  "acquire_lk l lk s =
     bind_res (acquire_enter lk s) (\<lambda>s1.
       let (old, lk1) = test_and_set lk
       in if old then Block (ChSpin l) else Ret (acquire_got lk1 s1))"

text \<open>The two stores of \<open>release\<close> to the lock, lines 58 and 75.\<close>

definition release_disown :: "spinlock \<Rightarrow> spinlock" where
  "release_disown lk = lk\<lparr>lk_cpu := None\<rparr>"

definition release_unlock :: "spinlock \<Rightarrow> spinlock" where
  "release_unlock lk = lk\<lparr>lk_locked := False\<rparr>"

definition release_lk :: "spinlock \<Rightarrow> 'z mach_scheme \<Rightarrow> (spinlock \<times> 'z mach_scheme) res" where
  "release_lk lk s =
     (if \<not> holding lk s then Panic ''release''
      else let lk1 = release_disown lk;
               lk2 = release_unlock lk1
           in bind_res (pop_off s) (\<lambda>s1. Ret (lk2, s1)))"

text \<open>The same on a lock that is a global of the kernel.\<close>

definition acquire :: "lockid \<Rightarrow> 'z mach_scheme \<Rightarrow> 'z mach_scheme res" where
  "acquire l s =
     bind_res (acquire_lk l (locks s l) s) (\<lambda>(lk, s1). Ret (s1\<lparr>locks := (locks s1)(l := lk)\<rparr>))"

definition release :: "lockid \<Rightarrow> 'z mach_scheme \<Rightarrow> 'z mach_scheme res" where
  "release l s =
     bind_res (release_lk (locks s l) s) (\<lambda>(lk, s1). Ret (s1\<lparr>locks := (locks s1)(l := lk)\<rparr>))"

lemmas intr_defs = intr_on_def intr_off_def intr_get_def SSTATUS_SIE_def
lemmas cpu_defs = cpuid_def mycpu_def upd_mycpu_def set_idle_def
lemmas lock_defs = acquire_def release_def acquire_lk_def release_lk_def acquire_enter_def
  test_and_set_def acquire_got_def release_disown_def release_unlock_def holding_def

section \<open>Interrupt nesting\<close>

lemma intr_get_off [simp]: "\<not> intr_get (intr_off s)"
  by (simp add: intr_get_def intr_off_def and.assoc)

lemma intr_get_on [simp]: "intr_get (intr_on s)"
proof -
  have "bit (sstatus s (hart s) OR SSTATUS_SIE) 1"
    by (simp add: SSTATUS_SIE_def bit_or_iff bit_push_bit_iff)
  then show ?thesis
    by (simp add: intr_get_def intr_on_def SSTATUS_SIE_def bit_iff_and_push_bit_not_eq_0)
qed

lemma and_not_idem: "x AND m = 0 \<Longrightarrow> x AND NOT m = (x :: u64)"
proof -
  assume *: "x AND m = 0"
  have "(x AND m) OR (x AND NOT m) = x"
    by (rule bit_word_eqI) (auto simp: bit_simps)
  with * show ?thesis by simp
qed

lemma SIE_restore: "x AND SSTATUS_SIE \<noteq> 0 \<Longrightarrow> (x AND NOT SSTATUS_SIE) OR SSTATUS_SIE = x"
proof -
  assume "x AND SSTATUS_SIE \<noteq> 0"
  then have x1: "bit x 1" by (simp add: SSTATUS_SIE_def bit_iff_and_push_bit_not_eq_0)
  have m: "bit SSTATUS_SIE n \<longleftrightarrow> n = 1" for n
    unfolding SSTATUS_SIE_def by (simp only: bit_push_bit_iff) (auto simp: bit_1_iff possible_bit_word)
  show ?thesis
    by (rule bit_word_eqI) (use x1 in \<open>auto simp: bit_or_iff bit_and_iff bit_not_iff m possible_bit_word\<close>)
qed

lemma intr_off_idem: "\<not> intr_get s \<Longrightarrow> intr_off s = s"
  by (simp add: intr_get_def intr_off_def and_not_idem)

lemma intr_on_off: "intr_get s \<Longrightarrow> intr_on (intr_off s) = s"
  by (simp add: intr_get_def intr_off_def intr_on_def SIE_restore)

lemma intr_fields [simp]:
  "hart (intr_on s) = hart s" "hart (intr_off s) = hart s"
  "cpus (intr_on s) = cpus s" "cpus (intr_off s) = cpus s"
  "locks (intr_on s) = locks s" "locks (intr_off s) = locks s"
  "mycpu (intr_on s) = mycpu s" "mycpu (intr_off s) = mycpu s"
  "cpuid (intr_on s) = cpuid s" "cpuid (intr_off s) = cpuid s"
  by (simp_all add: intr_on_def intr_off_def mycpu_def cpuid_def)

lemma upd_mycpu_fields [simp]:
  "hart (upd_mycpu f s) = hart s" "sstatus (upd_mycpu f s) = sstatus s"
  "locks (upd_mycpu f s) = locks s" "mycpu (upd_mycpu f s) = f (mycpu s)"
  "cpuid (upd_mycpu f s) = cpuid s" "intr_get (upd_mycpu f s) = intr_get s"
  "intr_on (upd_mycpu f s) = upd_mycpu f (intr_on s)"
  "upd_mycpu f (upd_mycpu g s) = upd_mycpu (f \<circ> g) s"
  by (simp_all add: upd_mycpu_def mycpu_def cpuid_def intr_get_def intr_on_def comp_def)

text \<open>
  A hart's interrupt state is well formed when the nesting depth is not negative and
  interrupts are off inside a nest.
\<close>

definition intr_wf :: "'z mach_scheme \<Rightarrow> bool" where
  "intr_wf s \<longleftrightarrow> 0 \<le> cpu_noff (mycpu s) \<and> (0 < cpu_noff (mycpu s) \<longrightarrow> \<not> intr_get s)"

lemma push_off_fields [simp]:
  "hart (push_off s) = hart s"
  "locks (push_off s) = locks s"
  "cpuid (push_off s) = cpuid s"
  "cpu_noff (mycpu (push_off s)) = cpu_noff (mycpu s) + 1"
  "cpu_proc (mycpu (push_off s)) = cpu_proc (mycpu s)"
  "cpu_context (mycpu (push_off s)) = cpu_context (mycpu s)"
  "\<not> intr_get (push_off s)"
  by (simp_all add: push_off_def Let_def)

lemma intr_wf_push_off [simp]: "intr_wf s \<Longrightarrow> intr_wf (push_off s)"
  by (simp add: intr_wf_def)

text \<open>What one matched pair leaves: everything but the saved enable bit of an outermost pair.\<close>

definition after_pair :: "'z mach_scheme \<Rightarrow> 'z mach_scheme" where
  "after_pair s =
     (if cpu_noff (mycpu s) = 0 then upd_mycpu (\<lambda>c. c\<lparr>cpu_intena := intr_get s\<rparr>) s else s)"

lemma upd_mycpu_id: "f (mycpu s) = mycpu s \<Longrightarrow> upd_mycpu f s = s"
  by (simp add: upd_mycpu_def mycpu_def cpuid_def)

lemma pop_push_off: "intr_wf s \<Longrightarrow> pop_off (push_off s) = Ret (after_pair s)"
  by (auto simp: pop_off_def push_off_def after_pair_def intr_wf_def Let_def comp_def
      intr_on_off intr_off_idem upd_mycpu_id)

fun pop_offs :: "nat \<Rightarrow> 'z mach_scheme \<Rightarrow> 'z mach_scheme res" where
  "pop_offs 0 s = Ret s"
| "pop_offs (Suc n) s = bind_res (pop_off s) (pop_offs n)"

lemma push_offs_noff [simp]:
  "cpu_noff (mycpu ((push_off ^^ n) s)) = cpu_noff (mycpu s) + int n"
  "intr_wf s \<Longrightarrow> intr_wf ((push_off ^^ n) s)"
  by (induction n) (auto simp: intr_wf_push_off)

lemma after_pair_nested: "cpu_noff (mycpu s) \<noteq> 0 \<Longrightarrow> after_pair s = s"
  by (simp add: after_pair_def)

lemma pop_offs_push_offs:
  "intr_wf s \<Longrightarrow> pop_offs n ((push_off ^^ n) s) = Ret (if n = 0 then s else after_pair s)"
proof (induction n)
  case 0
  then show ?case by simp
next
  case (Suc n)
  let ?t = "(push_off ^^ n) s"
  have "pop_offs (Suc n) ((push_off ^^ Suc n) s) = pop_offs n (after_pair ?t)"
    using Suc.prems by (simp add: pop_push_off)
  also have "\<dots> = Ret (after_pair s)"
  proof (cases n)
    case (Suc m)
    have "after_pair ?t = ?t"
      using Suc.prems Suc by (intro after_pair_nested) (simp add: intr_wf_def)
    with Suc.IH Suc.prems Suc show ?thesis by simp
  qed simp
  finally show ?case by simp
qed

section \<open>What acquire and release do\<close>

lemma set_idle_fields [simp]:
  "hart (set_idle b s) = hart s" "sstatus (set_idle b s) = sstatus s"
  "locks (set_idle b s) = locks s" "cpuid (set_idle b s) = cpuid s"
  "cpu_noff (mycpu (set_idle b s)) = cpu_noff (mycpu s)"
  "intr_get (set_idle b s) = intr_get s"
  by (simp_all add: set_idle_def)

text \<open>The state in which the hart holds the lock, and the one in which it has given it back.\<close>

definition acquired :: "'z mach_scheme \<Rightarrow> 'z mach_scheme" where
  "acquired s = set_idle False (push_off s)"

lemma set_idle_set_idle [simp]: "set_idle a (set_idle b s) = set_idle a s"
  by (simp add: set_idle_def comp_def)

lemma acquire_lk_free:
  "\<not> lk_locked lk \<Longrightarrow>
     acquire_lk l lk s = Ret (lk\<lparr>lk_locked := True, lk_cpu := Some (hart s)\<rparr>, acquired s)"
  by (simp add: acquire_lk_def acquire_enter_def test_and_set_def acquire_got_def holding_def
      acquired_def Let_def) (simp add: cpuid_def)

lemma acquire_lk_mine: "holding lk s \<Longrightarrow> acquire_lk l lk s = Panic ''acquire''"
  by (simp add: acquire_lk_def acquire_enter_def holding_def)

lemma acquire_lk_other:
  "lk_locked lk \<Longrightarrow> lk_cpu lk \<noteq> Some (hart s) \<Longrightarrow> acquire_lk l lk s = Block (ChSpin l)"
  by (simp add: acquire_lk_def acquire_enter_def holding_def test_and_set_def cpuid_def Let_def)

lemma acquired_fields [simp]:
  "hart (acquired s) = hart s" "locks (acquired s) = locks s" "cpuid (acquired s) = cpuid s"
  "cpu_noff (mycpu (acquired s)) = cpu_noff (mycpu s) + 1"
  "\<not> intr_get (acquired s)"
  by (simp_all add: acquired_def)

lemma acquired_wf [simp]: "intr_wf s \<Longrightarrow> intr_wf (acquired s)"
  by (simp add: intr_wf_def)

lemma acquire_free:
  "\<not> lk_locked (locks s l) \<Longrightarrow>
     acquire l s = Ret ((acquired s)\<lparr>locks := (locks s)(l := (locks s l)\<lparr>lk_locked := True, lk_cpu := Some (hart s)\<rparr>)\<rparr>)"
  by (simp add: acquire_def acquire_lk_free)

lemma release_mine:
  assumes "holding (locks s l) s" and "pop_off s = Ret s1"
  shows "release l s = Ret (s1\<lparr>locks := (locks s1)(l := (locks s l)\<lparr>lk_cpu := None, lk_locked := False\<rparr>)\<rparr>)"
  using assms by (simp add: release_def release_lk_def release_disown_def release_unlock_def)

lemma release_not_mine: "\<not> holding (locks s l) s \<Longrightarrow> release l s = Panic ''release''"
  by (simp add: release_def release_lk_def)

lemma pop_off_fields:
  "pop_off s = Ret s' \<Longrightarrow> hart s' = hart s \<and> locks s' = locks s \<and>
     cpu_noff (mycpu s') = cpu_noff (mycpu s) - 1"
  by (auto simp: pop_off_def Let_def split: if_splits)

lemma pop_off_wf: "pop_off s = Ret s' \<Longrightarrow> intr_wf s \<Longrightarrow> intr_wf s'"
  by (auto simp: pop_off_def Let_def intr_wf_def split: if_splits)

lemma pop_off_returns: "intr_wf s \<Longrightarrow> 1 \<le> cpu_noff (mycpu s) \<Longrightarrow> \<exists>s'. pop_off s = Ret s'"
  by (auto simp: pop_off_def Let_def intr_wf_def)

section \<open>The lock interface\<close>

text \<open>
  What code that takes a spin lock relies on: taking a lock that is free makes it held,
  taking a held lock again panics, only a held lock can be given back, and giving it back
  leaves the other locks as they are.
\<close>

locale lock_ops =
  fixes acq rel :: "lockid \<Rightarrow> 's \<Rightarrow> 's res"
    and holds unheld :: "'s \<Rightarrow> lockid \<Rightarrow> bool"
    and wf :: "'s \<Rightarrow> bool"
  assumes acq_free: "wf s \<Longrightarrow> unheld s l \<Longrightarrow>
      returns (acq l s) (\<lambda>s'. wf s' \<and> holds s' l \<and> (\<forall>k. k \<noteq> l \<longrightarrow> holds s' k = holds s k \<and> unheld s' k = unheld s k))"
    and acq_held: "holds s l \<Longrightarrow> acq l s = Panic ''acquire''"
    and rel_held: "wf s \<Longrightarrow> holds s l \<Longrightarrow>
      returns (rel l s) (\<lambda>s'. wf s' \<and> unheld s' l \<and> (\<forall>k. k \<noteq> l \<longrightarrow> holds s' k = holds s k \<and> unheld s' k = unheld s k))"
    and rel_unheld: "\<not> holds s l \<Longrightarrow> rel l s = Panic ''release''"
    and unheld_not_holds: "unheld s l \<Longrightarrow> \<not> holds s l"
begin

lemma critical_section:
  assumes "wf s" and "unheld s l"
    and body: "\<And>t. wf t \<Longrightarrow> holds t l \<Longrightarrow>
      returns (f t) (\<lambda>t'. wf t' \<and> holds t' l \<and> (\<forall>k. k \<noteq> l \<longrightarrow> holds t' k = holds t k \<and> unheld t' k = unheld t k))"
  shows "returns (bind_res (acq l s) (\<lambda>t. bind_res (f t) (rel l)))
           (\<lambda>s'. wf s' \<and> unheld s' l \<and> (\<forall>k. k \<noteq> l \<longrightarrow> holds s' k = holds s k \<and> unheld s' k = unheld s k))"
proof -
  obtain t where t: "acq l s = Ret t" "wf t" "holds t l"
    "\<And>k. k \<noteq> l \<Longrightarrow> holds t k = holds s k \<and> unheld t k = unheld s k"
    using acq_free [OF assms(1,2)] by (auto simp: returns_def)
  obtain t' where t': "f t = Ret t'" "wf t'" "holds t' l"
    "\<And>k. k \<noteq> l \<Longrightarrow> holds t' k = holds t k \<and> unheld t' k = unheld t k"
    using body [OF t(2,3)] by (auto simp: returns_def)
  show ?thesis
    using rel_held [OF t'(2,3)] t t' by (auto simp: returns_def)
qed

lemma no_double_acquire:
  assumes "wf s" and "unheld s l"
  shows "bind_res (acq l s) (acq l) = Panic ''acquire''"
  using acq_free [OF assms] acq_held by (auto simp: returns_def)

end

definition mach_unheld :: "'z mach_scheme \<Rightarrow> lockid \<Rightarrow> bool" where
  "mach_unheld s l \<longleftrightarrow> \<not> lk_locked (locks s l)"

definition mach_held :: "'z mach_scheme \<Rightarrow> lockid set" where
  "mach_held s = {l. holding (locks s l) s}"

text \<open>Every lock the hart holds counts in its interrupt nesting depth.\<close>

definition mach_wf :: "'z mach_scheme \<Rightarrow> bool" where
  "mach_wf s \<longleftrightarrow> intr_wf s \<and> finite (mach_held s) \<and> int (card (mach_held s)) \<le> cpu_noff (mycpu s)"

lemma mach_wf_locks:
  assumes "mach_wf s" and "mach_held t = insert l (mach_held s)"
    and "intr_wf t" and "cpu_noff (mycpu t) = cpu_noff (mycpu s) + 1"
  shows "mach_wf t"
  using assms by (auto simp: mach_wf_def card_insert_if)

lemma cpu_locks_update [simp]:
  "mycpu (s\<lparr>locks := f\<rparr>) = mycpu s" "cpuid (s\<lparr>locks := f\<rparr>) = cpuid s"
  "intr_get (s\<lparr>locks := f\<rparr>) = intr_get s" "intr_wf (s\<lparr>locks := f\<rparr>) = intr_wf s"
  "holding lk (s\<lparr>locks := f\<rparr>) = holding lk s"
  by (simp_all add: mycpu_def cpuid_def intr_get_def intr_wf_def holding_def)

lemma holding_cong: "hart s = hart t \<Longrightarrow> holding lk s = holding lk t"
  by (simp add: holding_def cpuid_def)

lemma mach_acquire:
  assumes wf: "mach_wf s" and free: "mach_unheld s l"
  shows "returns (acquire l s) (\<lambda>s'. mach_wf s' \<and> holding (locks s' l) s' \<and>
    (\<forall>k. k \<noteq> l \<longrightarrow> holding (locks s' k) s' = holding (locks s k) s \<and> mach_unheld s' k = mach_unheld s k))"
proof -
  let ?t = "(acquired s)\<lparr>locks := (locks s)(l := (locks s l)\<lparr>lk_locked := True, lk_cpu := Some (hart s)\<rparr>)\<rparr>"
  have eq: "acquire l s = Ret ?t"
    using free by (simp add: mach_unheld_def acquire_free)
  have "mach_held ?t = insert l (mach_held s)"
    by (auto simp: mach_held_def holding_def cpuid_def)
  with wf have "mach_wf ?t"
    by (rule mach_wf_locks [of s _ l]) (use wf in \<open>auto simp: mach_wf_def\<close>)
  with eq show ?thesis
    by (simp add: holding_def cpuid_def mach_unheld_def)
qed

lemma mach_release:
  assumes wf: "mach_wf s" and held: "holding (locks s l) s"
  shows "returns (release l s) (\<lambda>s'. mach_wf s' \<and> mach_unheld s' l \<and>
    (\<forall>k. k \<noteq> l \<longrightarrow> holding (locks s' k) s' = holding (locks s k) s \<and> mach_unheld s' k = mach_unheld s k))"
proof -
  have l: "l \<in> mach_held s" and fin: "finite (mach_held s)"
    using wf held by (auto simp: mach_held_def mach_wf_def)
  then have pos: "0 < card (mach_held s)" by (auto simp: card_gt_0_iff)
  then obtain s1 where s1: "pop_off s = Ret s1"
    using wf pop_off_returns [of s] by (auto simp: mach_wf_def)
  let ?t = "s1\<lparr>locks := (locks s1)(l := (locks s l)\<lparr>lk_cpu := None, lk_locked := False\<rparr>)\<rparr>"
  note f = pop_off_fields [OF s1]
  have "mach_held ?t = mach_held s - {l}"
    using f by (auto simp: mach_held_def holding_def cpuid_def split: if_splits)
  then have "mach_wf ?t"
    using wf f pos l fin pop_off_wf [OF s1]
    by (simp add: mach_wf_def card_Diff_singleton)
  then show ?thesis
    using release_mine [OF held s1] f by (simp add: mach_unheld_def holding_def cpuid_def)
qed

interpretation spin: lock_ops acquire release "\<lambda>s l. holding (locks s l) s" mach_unheld mach_wf
proof unfold_locales
  fix s :: "'z mach_scheme" and l
  show "acquire l s = Panic ''acquire''" if "holding (locks s l) s"
    using that by (simp add: acquire_def acquire_lk_mine)
  show "release l s = Panic ''release''" if "\<not> holding (locks s l) s"
    using that by (rule release_not_mine)
  show "\<not> holding (locks s l) s" if "mach_unheld s l"
    using that by (simp add: mach_unheld_def holding_def)
qed (rule mach_acquire mach_release; assumption)+

section \<open>Several CPUs: mutual exclusion\<close>

text \<open>
  Where a hart is in the lock code: running other code, spinning in \<open>acquire\<close>, after the
  test-and-set that got the lock and before the owner is recorded, or in \<open>release\<close>
  between its two stores. \<open>ls_in\<close> records the critical sections a hart is in: from the
  return of \<open>acquire\<close> to the call of \<open>release\<close>.
\<close>

datatype lpc = LRun | LSpin lockid | LTaken lockid | LUnlock lockid

record lsys =
  ls_mach :: mach
  ls_pc :: "nat \<Rightarrow> lpc"
  ls_in :: "nat \<Rightarrow> lockid set"

definition on_hart :: "nat \<Rightarrow> mach \<Rightarrow> mach" where
  "on_hart i m = m\<lparr>hart := i\<rparr>"

definition set_lock :: "lockid \<Rightarrow> spinlock \<Rightarrow> mach \<Rightarrow> mach" where
  "set_lock l lk m = m\<lparr>locks := (locks m)(l := lk)\<rparr>"

inductive lock_step :: "lsys \<Rightarrow> lsys \<Rightarrow> bool" where
  ls_enter: "ls_pc s i = LRun \<Longrightarrow> acquire_enter (locks (ls_mach s) l) (on_hart i (ls_mach s)) = Ret m \<Longrightarrow>
    lock_step s (s\<lparr>ls_mach := m, ls_pc := (ls_pc s)(i := LSpin l)\<rparr>)"
| ls_spin: "ls_pc s i = LSpin l \<Longrightarrow> test_and_set (locks (ls_mach s) l) = (True, lk) \<Longrightarrow>
    lock_step s (s\<lparr>ls_mach := set_lock l lk (ls_mach s)\<rparr>)"
| ls_take: "ls_pc s i = LSpin l \<Longrightarrow> test_and_set (locks (ls_mach s) l) = (False, lk) \<Longrightarrow>
    lock_step s (s\<lparr>ls_mach := set_lock l lk (ls_mach s), ls_pc := (ls_pc s)(i := LTaken l)\<rparr>)"
| ls_got: "ls_pc s i = LTaken l \<Longrightarrow> acquire_got (locks (ls_mach s) l) (on_hart i (ls_mach s)) = (lk, m) \<Longrightarrow>
    lock_step s (s\<lparr>ls_mach := set_lock l lk m, ls_pc := (ls_pc s)(i := LRun),
      ls_in := (ls_in s)(i := insert l (ls_in s i))\<rparr>)"
| ls_disown: "ls_pc s i = LRun \<Longrightarrow> holding (locks (ls_mach s) l) (on_hart i (ls_mach s)) \<Longrightarrow>
    lock_step s (s\<lparr>ls_mach := set_lock l (release_disown (locks (ls_mach s) l)) (ls_mach s),
      ls_pc := (ls_pc s)(i := LUnlock l), ls_in := (ls_in s)(i := ls_in s i - {l})\<rparr>)"
| ls_unlock: "ls_pc s i = LUnlock l \<Longrightarrow> pop_off (on_hart i (ls_mach s)) = Ret m \<Longrightarrow>
    lock_step s (s\<lparr>ls_mach := set_lock l (release_unlock (locks (ls_mach s) l)) m,
      ls_pc := (ls_pc s)(i := LRun)\<rparr>)"

definition lock_init :: "lsys \<Rightarrow> bool" where
  "lock_init s \<longleftrightarrow> (\<forall>l. \<not> lk_locked (locks (ls_mach s) l) \<and> lk_cpu (locks (ls_mach s) l) = None) \<and>
     (\<forall>i. ls_pc s i = LRun \<and> ls_in s i = {})"

inductive lock_reachable :: "lsys \<Rightarrow> bool" where
  lr_init: "lock_init s \<Longrightarrow> lock_reachable s"
| lr_step: "lock_reachable s \<Longrightarrow> lock_step s t \<Longrightarrow> lock_reachable t"

text \<open>The harts between the test-and-set that took the lock and the store that frees it.\<close>

definition lock_busy :: "lsys \<Rightarrow> nat \<Rightarrow> lockid \<Rightarrow> bool" where
  "lock_busy s i l \<longleftrightarrow> l \<in> ls_in s i \<or> ls_pc s i = LTaken l \<or> ls_pc s i = LUnlock l"

definition lock_inv :: "lsys \<Rightarrow> bool" where
  "lock_inv s \<longleftrightarrow>
     (\<forall>i j l. lock_busy s i l \<longrightarrow> lock_busy s j l \<longrightarrow> i = j) \<and>
     (\<forall>i l. lock_busy s i l \<longrightarrow> lk_locked (locks (ls_mach s) l)) \<and>
     (\<forall>i l. lk_cpu (locks (ls_mach s) l) = Some i \<longleftrightarrow> l \<in> ls_in s i) \<and>
     (\<forall>i l. l \<in> ls_in s i \<longrightarrow> ls_pc s i \<noteq> LTaken l \<and> ls_pc s i \<noteq> LUnlock l)"

lemma lock_inv_init: "lock_init s \<Longrightarrow> lock_inv s"
  by (simp add: lock_init_def lock_inv_def lock_busy_def)

lemma acquire_enter_locks:
  "acquire_enter lk s = Ret m \<Longrightarrow> locks m = locks s"
  by (auto simp: acquire_enter_def Let_def split: if_splits)

lemma on_hart_fields [simp]: "locks (on_hart i m) = locks m" "cpuid (on_hart i m) = i"
  by (simp_all add: on_hart_def cpuid_def)

lemma set_lock_locks [simp]: "locks (set_lock l lk m) = (locks m)(l := lk)"
  by (simp add: set_lock_def)

lemma lock_step_inv: "lock_step s t \<Longrightarrow> lock_inv s \<Longrightarrow> lock_inv t"
proof (induction rule: lock_step.induct)
  case (ls_enter s i l m)
  then show ?case
    by (auto simp: lock_inv_def lock_busy_def acquire_enter_locks)
next
  case (ls_spin s i l lk)
  then show ?case
    by (auto simp: lock_inv_def lock_busy_def test_and_set_def)
next
  case (ls_take s i l lk)
  then have "\<not> lk_locked (locks (ls_mach s) l)" "\<And>j. \<not> lock_busy s j l"
    by (auto simp: lock_inv_def test_and_set_def)
  moreover from this(2) ls_take(3) have "lk_cpu (locks (ls_mach s) l) = None"
    by (cases "lk_cpu (locks (ls_mach s) l)") (auto simp: lock_inv_def lock_busy_def)
  ultimately show ?case using ls_take
    by (auto simp: lock_inv_def lock_busy_def test_and_set_def)
next
  case (ls_got s i l lk m)
  then show ?case
    by (auto simp: lock_inv_def lock_busy_def acquire_got_def)
next
  case (ls_disown s i l)
  then show ?case
    by (auto simp: lock_inv_def lock_busy_def release_disown_def holding_def)
next
  case (ls_unlock s i l m)
  then show ?case
    by (auto simp: lock_inv_def lock_busy_def release_unlock_def dest: pop_off_fields)
qed

lemma lock_reachable_inv: "lock_reachable s \<Longrightarrow> lock_inv s"
  by (induction rule: lock_reachable.induct) (auto intro: lock_inv_init lock_step_inv)

section \<open>Properties of the locks\<close>

text \<open>
  C5. Mutual exclusion: in every state the CPUs can reach by interleaving the lock code in
  any order, at most one hart is in the critical section of a lock, and that hart is the one
  the lock records as its owner.
\<close>

theorem spinlock_mutual_exclusion:
  assumes "lock_reachable s" and "l \<in> ls_in s i" and "l \<in> ls_in s j"
  shows "i = j \<and> holding (locks (ls_mach s) l) (on_hart i (ls_mach s))"
  using lock_reachable_inv [OF assms(1)] assms(2,3)
  by (auto simp: lock_inv_def lock_busy_def holding_def)

definition boot_cpu :: cpu where
  "boot_cpu = \<lparr>cpu_proc = 0, cpu_context = zero_context, cpu_noff = 0, cpu_intena = False, cpu_idle = False\<rparr>"

definition boot_mach :: mach where
  "boot_mach = \<lparr>hart = 0, sstatus = (\<lambda>_. 2), cpus = (\<lambda>_. boot_cpu), locks = (\<lambda>_. initlock ''boot'')\<rparr>"

definition boot_lsys :: lsys where
  "boot_lsys = \<lparr>ls_mach = boot_mach, ls_pc = (\<lambda>_. LRun), ls_in = (\<lambda>_. {})\<rparr>"

text \<open>A free lock can be taken: three steps of the hart lead into its critical section.\<close>

lemma lock_free_taken:
  assumes "lock_reachable s" and "ls_pc s i = LRun" and "\<not> lk_locked (locks (ls_mach s) l)"
  shows "\<exists>t. lock_reachable t \<and> l \<in> ls_in t i"
proof -
  obtain m where m: "acquire_enter (locks (ls_mach s) l) (on_hart i (ls_mach s)) = Ret m"
    using assms(3) by (simp add: acquire_enter_def holding_def Let_def)
  define s1 where "s1 = s\<lparr>ls_mach := m, ls_pc := (ls_pc s)(i := LSpin l)\<rparr>"
  define lk where "lk = (locks m l)\<lparr>lk_locked := True\<rparr>"
  define s2 where "s2 = s1\<lparr>ls_mach := set_lock l lk m, ls_pc := (ls_pc s1)(i := LTaken l)\<rparr>"
  have "lock_reachable s1"
    unfolding s1_def by (rule lr_step [OF assms(1) ls_enter [OF assms(2) m]])
  moreover have "lock_step s1 s2"
    using assms(3) ls_take [of s1 i l lk] acquire_enter_locks [OF m]
    by (simp add: s1_def s2_def lk_def test_and_set_def)
  ultimately have r2: "lock_reachable s2" by (rule lr_step)
  obtain lk' m' where got: "acquire_got (locks (ls_mach s2) l) (on_hart i (ls_mach s2)) = (lk', m')"
    by fastforce
  have "ls_pc s2 i = LTaken l" by (simp add: s2_def)
  from lr_step [OF r2 ls_got [OF this got]] show ?thesis by fastforce
qed

theorem spinlock_mutual_exclusion_witness:
  "\<exists>s. lock_reachable s \<and> L_kmem \<in> ls_in s 0 \<and> holding (locks (ls_mach s) L_kmem) (on_hart 0 (ls_mach s))"
proof -
  have "lock_reachable boot_lsys"
    by (rule lr_init) (simp add: lock_init_def boot_lsys_def boot_mach_def initlock_def)
  then obtain t where "lock_reachable t" "L_kmem \<in> ls_in t 0"
    using lock_free_taken [of boot_lsys 0 L_kmem]
    by (auto simp: boot_lsys_def boot_mach_def initlock_def)
  then show ?thesis using spinlock_mutual_exclusion [of t L_kmem 0 0] by blast
qed

text \<open>
  C17. Interrupt nesting: from a well-formed interrupt state, any number of nested
  \<open>push_off\<close> calls leaves interrupts off, and as many \<open>pop_off\<close> calls return, with the
  \<open>sstatus\<close> register, the nesting depth and the locks as they were before.
\<close>

theorem push_pop_off_nesting:
  assumes "intr_wf s"
  shows "(0 < n \<longrightarrow> \<not> intr_get ((push_off ^^ n) s)) \<and>
    returns (pop_offs n ((push_off ^^ n) s)) (\<lambda>s'. sstatus s' = sstatus s \<and> hart s' = hart s \<and>
      locks s' = locks s \<and> cpu_noff (mycpu s') = cpu_noff (mycpu s))"
proof
  show "0 < n \<longrightarrow> \<not> intr_get ((push_off ^^ n) s)" by (cases n) simp_all
qed (simp add: pop_offs_push_offs [OF assms] after_pair_def)

theorem push_pop_off_nesting_witness:
  "intr_wf boot_mach \<and> intr_get boot_mach \<and> \<not> intr_get ((push_off ^^ 3) boot_mach) \<and>
   returns (pop_offs 3 ((push_off ^^ 3) boot_mach)) (\<lambda>s'. sstatus s' = sstatus boot_mach)"
proof -
  have wf: "intr_wf boot_mach"
    by (simp add: intr_wf_def boot_mach_def boot_cpu_def mycpu_def cpuid_def)
  have on: "intr_get boot_mach"
    by (simp add: intr_get_def SSTATUS_SIE_def boot_mach_def)
  show ?thesis
    using push_pop_off_nesting [OF wf, of 3] wf on by (auto elim: returns_mono)
qed

end
