(* ===== verification/List_Proc.thy ===== *)
theory List_Proc
  imports Spinlock
begin

text \<open>
  The RCU-protected process list (kernel/list_proc.c, kernel/list_proc.h).

  The C heap is split by type: \<open>nodes\<close> holds the allocated \<open>t_node\<close> objects, \<open>procs\<close>
  the allocated \<open>struct proc\<close> objects, by address; \<open>process_list\<close> is the head pointer.
  A dereference of an address with no object is \<open>Fault\<close>. The traversal loops are partial
  functions: on a list that ends they return, on a cyclic one they do not.

  \<open>lseg h p xs\<close> says that the nodes \<open>xs\<close>, in this order, are what a traversal from
  pointer \<open>p\<close> visits before it reaches the null pointer. The operations are shown to be
  the list operations insert-at-front, replace and remove, and every reader that stands on
  a node of the old list keeps a null-terminated view (RCU's guarantee to readers).

  \<open>synchronize_rcu\<close> polls the other CPUs. One iteration of its loops is the step function
  \<open>sync_step\<close>, and the CPUs may be any at each iteration; Grace.thy runs it against CPUs
  that move by the relation \<open>gp_step\<close>.
\<close>

record t_node =
  nd_process :: addr
  nd_next :: addr

record rcu = mach +
  nodes :: "addr \<Rightarrow> t_node option"
  procs :: "addr \<Rightarrow> proc option"
  process_list :: addr

section \<open>Read side, pointers\<close>

definition rcu_read_lock :: "'z mach_scheme \<Rightarrow> 'z mach_scheme" where
  "rcu_read_lock s = push_off s"

definition rcu_read_unlock :: "'z mach_scheme \<Rightarrow> 'z mach_scheme res" where
  "rcu_read_unlock s = pop_off s"

definition rcu_assign_pointer :: "addr \<Rightarrow> 'z rcu_scheme \<Rightarrow> 'z rcu_scheme" where
  "rcu_assign_pointer p s = s\<lparr>process_list := p\<rparr>"

definition rcu_dereference_pointer :: "addr \<Rightarrow> addr" where
  "rcu_dereference_pointer p = p"

definition get_node :: "addr \<Rightarrow> 'z rcu_scheme \<Rightarrow> t_node res" where
  "get_node a s = (case nodes s a of None \<Rightarrow> Fault | Some n \<Rightarrow> Ret n)"

definition get_proc :: "addr \<Rightarrow> 'z rcu_scheme \<Rightarrow> proc res" where
  "get_proc a s = (case procs s a of None \<Rightarrow> Fault | Some p \<Rightarrow> Ret p)"

definition set_next :: "addr \<Rightarrow> addr \<Rightarrow> 'z rcu_scheme \<Rightarrow> 'z rcu_scheme res" where
  "set_next a v s = bind_res (get_node a s) (\<lambda>n. Ret (s\<lparr>nodes := (nodes s)(a \<mapsto> n\<lparr>nd_next := v\<rparr>)\<rparr>))"

section \<open>Writers\<close>

definition list_add_rcu :: "addr \<Rightarrow> lockid \<Rightarrow> 'z rcu_scheme \<Rightarrow> 'z rcu_scheme res" where
  "list_add_rcu node l s =
     bind_res (acquire l s) (\<lambda>s1.
     let s2 = rcu_read_lock s1;
         tmp = rcu_dereference_pointer (process_list s2) in
     bind_res (set_next node tmp s2) (\<lambda>s3.
     bind_res (rcu_read_unlock s3) (\<lambda>s4.
     release l (rcu_assign_pointer node s4))))"

partial_function (option) list_del_loop ::
    "addr \<Rightarrow> addr \<Rightarrow> addr \<Rightarrow> 'z rcu_scheme \<Rightarrow> 'z rcu_scheme res option" where
  "list_del_loop node tmp prev s =
     (if tmp = 0 then Some (Ret s)
      else case nodes s tmp of None \<Rightarrow> Some Fault
      | Some t \<Rightarrow>
          (if tmp = node then Some (set_next prev (nd_next t) s)
           else case nodes s prev of None \<Rightarrow> Some Fault
           | Some q \<Rightarrow> list_del_loop node (nd_next t) (nd_next q) s))"

definition list_del_rcu :: "addr \<Rightarrow> lockid \<Rightarrow> 'z rcu_scheme \<Rightarrow> 'z rcu_scheme res" where
  "list_del_rcu node l s =
     (if process_list s = 0 then Panic ''list_del_rcu''
      else
        bind_res (acquire l s) (\<lambda>s1.
        let tmp = rcu_dereference_pointer (process_list s1) in
        bind_res (get_node tmp s1) (\<lambda>t.
        if tmp = node then release l (rcu_assign_pointer (nd_next t) s1)
        else bind_res (from_loop (list_del_loop node (nd_next t) tmp s1)) (release l))))"

text \<open>The process id a node's process has: \<open>node->process->pid\<close>.\<close>

definition node_pid :: "addr \<Rightarrow> 'z rcu_scheme \<Rightarrow> int res" where
  "node_pid a s =
     bind_res (get_node a s) (\<lambda>n. bind_res (get_proc (nd_process n) s) (\<lambda>p. Ret (pr_pid p)))"

text \<open>
  The results of the update and delete operations: the return value, and what was stored
  through \<open>ptr_to_free\<close>, if anything was.
\<close>

type_synonym 'z found = "(int \<times> addr option \<times> 'z rcu_scheme) res"

text \<open>
  The stores an update makes to the list, in the order the code makes them, and their execution.
  Between two of them other CPUs may read the list.
\<close>

datatype store = SetNext addr addr | SetHead addr

fun do_store :: "store \<Rightarrow> 'z rcu_scheme \<Rightarrow> 'z rcu_scheme res" where
  "do_store (SetNext a v) s = set_next a v s"
| "do_store (SetHead v) s = Ret (rcu_assign_pointer v s)"

fun do_stores :: "store list \<Rightarrow> 'z rcu_scheme \<Rightarrow> 'z rcu_scheme res" where
  "do_stores [] s = Ret s"
| "do_stores (st # sts) s = bind_res (do_store st s) (do_stores sts)"

text \<open>The search makes no store before it has found the node: it gives the stores to make.\<close>

partial_function (option) list_update_loop ::
    "addr \<Rightarrow> addr \<Rightarrow> addr \<Rightarrow> addr \<Rightarrow> 'z rcu_scheme \<Rightarrow> (int \<times> addr option \<times> store list) res option" where
  "list_update_loop new proc cur prev s =
     (if cur = 0 then Some (Ret (0, None, []))
      else case nodes s cur of None \<Rightarrow> Some Fault
      | Some c \<Rightarrow> (case procs s (nd_process c) of None \<Rightarrow> Some Fault
      | Some cp \<Rightarrow> (case procs s proc of None \<Rightarrow> Some Fault
      | Some p \<Rightarrow>
          (if pr_pid cp = pr_pid p then
             Some (Ret (1, Some cur, [SetNext new (nd_next c), SetNext prev new]))
           else case nodes s prev of None \<Rightarrow> Some Fault
           | Some q \<Rightarrow> list_update_loop new proc (nd_next c) (nd_next q) s))))"

definition list_update_search :: "addr \<Rightarrow> addr \<Rightarrow> 'z rcu_scheme \<Rightarrow> (int \<times> addr option \<times> store list) res" where
  "list_update_search new proc s =
     (let cur = rcu_dereference_pointer (process_list s) in
      bind_res (node_pid cur s) (\<lambda>cpid.
      bind_res (get_proc proc s) (\<lambda>p.
      bind_res (get_node cur s) (\<lambda>c.
      if cpid = pr_pid p then Ret (1, Some cur, [SetNext new (nd_next c), SetHead new])
      else from_loop (list_update_loop new proc (nd_next c) cur s)))))"

definition list_update_rcu :: "addr \<Rightarrow> addr \<Rightarrow> lockid \<Rightarrow> 'z rcu_scheme \<Rightarrow> 'z found" where
  "list_update_rcu new proc l s =
     bind_res (acquire l s) (\<lambda>s1.
     let s2 = rcu_read_lock s1 in
     bind_res (list_update_search new proc s2) (\<lambda>(found, fr, sts).
     bind_res (do_stores sts s2) (\<lambda>s3.
     bind_res (rcu_read_unlock s3) (\<lambda>s4.
     bind_res (release l s4) (\<lambda>s5. Ret (found, fr, s5))))))"

partial_function (option) list_del_from_proc_loop ::
    "addr \<Rightarrow> addr \<Rightarrow> addr \<Rightarrow> 'z rcu_scheme \<Rightarrow> (int \<times> addr option \<times> 'z rcu_scheme) res option" where
  "list_del_from_proc_loop proc cur prev s =
     (if cur = 0 then Some (Ret (0, None, s))
      else case nodes s cur of None \<Rightarrow> Some Fault
      | Some c \<Rightarrow> (case procs s (nd_process c) of None \<Rightarrow> Some Fault
      | Some cp \<Rightarrow> (case procs s proc of None \<Rightarrow> Some Fault
      | Some p \<Rightarrow>
          (if pr_pid cp = pr_pid p then
             Some (bind_res (set_next prev (nd_next c) s) (\<lambda>s1. Ret (1, Some cur, s1)))
           else case nodes s prev of None \<Rightarrow> Some Fault
           | Some q \<Rightarrow> list_del_from_proc_loop proc (nd_next c) (nd_next q) s))))"

definition list_del_from_proc_rcu :: "addr \<Rightarrow> lockid \<Rightarrow> 'z rcu_scheme \<Rightarrow> 'z found" where
  "list_del_from_proc_rcu proc l s =
     bind_res (acquire l s) (\<lambda>s1.
     let s2 = rcu_read_lock s1;
         cur = rcu_dereference_pointer (process_list s2) in
     bind_res (node_pid cur s2) (\<lambda>cpid.
     bind_res (get_proc proc s2) (\<lambda>p.
     bind_res (get_node cur s2) (\<lambda>c.
     if cpid = pr_pid p then
       bind_res (rcu_read_unlock (rcu_assign_pointer (nd_next c) s2)) (\<lambda>s3.
       bind_res (release l s3) (\<lambda>s4. Ret (1, Some cur, s4)))
     else
       bind_res (from_loop (list_del_from_proc_loop proc (nd_next c) cur s2)) (\<lambda>(found, fr, s3).
       bind_res (rcu_read_unlock s3) (\<lambda>s4.
       bind_res (release l s4) (\<lambda>s5. Ret (found, fr, s5))))))))"

definition init_writers_lock :: "lockid \<Rightarrow> 'z mach_scheme \<Rightarrow> 'z mach_scheme" where
  "init_writers_lock l s = s\<lparr>locks := (locks s)(l := initlock ''RCU_writers lock'')\<rparr>"

definition init_list :: "lockid \<Rightarrow> 'z rcu_scheme \<Rightarrow> 'z rcu_scheme" where
  "init_list l s = init_writers_lock l (s\<lparr>process_list := 0\<rparr>)"

definition is_empty :: "addr \<Rightarrow> int" where
  "is_empty list = (if list = 0 then 1 else 0)"

section \<open>Grace periods\<close>

definition context_eq :: "kcontext \<Rightarrow> kcontext \<Rightarrow> bool" where
  "context_eq c1 c2 \<longleftrightarrow>
     cx_ra c1 = cx_ra c2 \<and> cx_sp c1 = cx_sp c2 \<and> cx_s0 c1 = cx_s0 c2 \<and> cx_s1 c1 = cx_s1 c2 \<and>
     cx_s2 c1 = cx_s2 c2 \<and> cx_s3 c1 = cx_s3 c2 \<and> cx_s4 c1 = cx_s4 c2 \<and> cx_s5 c1 = cx_s5 c2 \<and>
     cx_s6 c1 = cx_s6 c2 \<and> cx_s7 c1 = cx_s7 c2 \<and> cx_s8 c1 = cx_s8 c2 \<and> cx_s9 c1 = cx_s9 c2 \<and>
     cx_s10 c1 = cx_s10 c2 \<and> cx_s11 c1 = cx_s11 c2"

text \<open>
  Where \<open>synchronize_rcu\<close> is, between its lock operations: at index \<open>i\<close> of the
  bootstrapping loop, at index \<open>i\<close> of a scan with the flag \<open>finished\<close>, or done; and
  its two local arrays.
\<close>

datatype sync_pc = SyncBoot nat | SyncScan nat bool | SyncDone

record sync =
  sy_pc :: sync_pc
  sy_target :: "nat \<Rightarrow> bool"
  sy_cs :: "nat \<Rightarrow> kcontext"

text \<open>One iteration of the bootstrapping loop or of the scan, against the CPUs as they are then.\<close>

definition sync_step :: "nat \<Rightarrow> (nat \<Rightarrow> cpu) \<Rightarrow> sync \<Rightarrow> sync" where
  "sync_step cpu_id cs y = (case sy_pc y of
       SyncBoot i \<Rightarrow>
         (if i \<ge> NCPU then y\<lparr>sy_pc := SyncScan 0 True\<rparr>
          else if i = cpu_id then y\<lparr>sy_pc := SyncBoot (Suc i)\<rparr>
          else if cpu_idle (cs i) then y\<lparr>sy_pc := SyncBoot (Suc i), sy_target := (sy_target y)(i := True)\<rparr>
          else y\<lparr>sy_pc := SyncBoot (Suc i), sy_target := (sy_target y)(i := False),
                 sy_cs := (sy_cs y)(i := cpu_context (cs i))\<rparr>)
     | SyncScan i finished \<Rightarrow>
         (if i \<ge> NCPU then y\<lparr>sy_pc := if finished then SyncDone else SyncScan 0 True\<rparr>
          else if i = cpu_id \<or> sy_target y i then y\<lparr>sy_pc := SyncScan (Suc i) finished\<rparr>
          else if cpu_idle (cs i) \<or> \<not> context_eq (sy_cs y i) (cpu_context (cs i))
               then y\<lparr>sy_pc := SyncScan (Suc i) finished, sy_target := (sy_target y)(i := True)\<rparr>
          else y\<lparr>sy_pc := SyncScan (Suc i) False\<rparr>)
     | SyncDone \<Rightarrow> y)"

definition sync_start :: sync where
  "sync_start = \<lparr>sy_pc = SyncBoot 0, sy_target = (\<lambda>_. False), sy_cs = (\<lambda>_. zero_context)\<rparr>"

text \<open>
  The whole function. Other CPUs run meanwhile: \<open>env n\<close> is what the CPUs are at the n-th
  iteration, counted over all the loops. The scans are repeated until one of them passes; they
  may never end, and then the call never returns.
\<close>

type_synonym cpu_env = "nat \<Rightarrow> nat \<Rightarrow> cpu"

partial_function (option) sync_loop :: "nat \<Rightarrow> cpu_env \<Rightarrow> nat \<Rightarrow> sync \<Rightarrow> sync option" where
  "sync_loop cpu_id env n y =
     (if sy_pc y = SyncDone then Some y else sync_loop cpu_id env (Suc n) (sync_step cpu_id (env n) y))"

definition synchronize_rcu :: "cpu_env \<Rightarrow> nat \<Rightarrow> lockid \<Rightarrow> 'z mach_scheme \<Rightarrow> 'z mach_scheme res" where
  "synchronize_rcu env cpu_id l s =
     bind_res (acquire l s) (\<lambda>s1.
     case sync_loop cpu_id env 0 sync_start of None \<Rightarrow> NoReturn | Some _ \<Rightarrow> release l s1)"

section \<open>Lists on the heap\<close>

fun lpath :: "(addr \<Rightarrow> t_node option) \<Rightarrow> addr \<Rightarrow> addr list \<Rightarrow> addr \<Rightarrow> bool" where
  "lpath h p [] q \<longleftrightarrow> p = q"
| "lpath h p (x # xs) q \<longleftrightarrow> p = x \<and> x \<noteq> 0 \<and> (\<exists>n. h x = Some n \<and> lpath h (nd_next n) xs q)"

definition lseg :: "(addr \<Rightarrow> t_node option) \<Rightarrow> addr \<Rightarrow> addr list \<Rightarrow> bool" where
  "lseg h p xs \<longleftrightarrow> lpath h p xs 0"

lemma lseg_simps [simp]:
  "lseg h p [] \<longleftrightarrow> p = 0"
  "lseg h p (x # xs) \<longleftrightarrow> p = x \<and> x \<noteq> 0 \<and> (\<exists>n. h x = Some n \<and> lseg h (nd_next n) xs)"
  by (simp_all add: lseg_def)

lemma lpath_append: "lpath h p (xs @ ys) q \<longleftrightarrow> (\<exists>r. lpath h p xs r \<and> lpath h r ys q)"
  by (induction xs arbitrary: p) auto

lemma lseg_append: "lseg h p (xs @ ys) \<longleftrightarrow> (\<exists>r. lpath h p xs r \<and> lseg h r ys)"
  by (simp add: lseg_def lpath_append)

lemma lpath_upd: "u \<notin> set xs \<Longrightarrow> lpath (h(u := v)) p xs q = lpath h p xs q"
  by (induction xs arbitrary: p) auto

lemma lseg_upd: "u \<notin> set xs \<Longrightarrow> lseg (h(u := v)) p xs = lseg h p xs"
  by (simp add: lseg_def lpath_upd)

lemma lseg_unique: "lseg h p xs \<Longrightarrow> lseg h p ys \<Longrightarrow> xs = ys"
proof (induction xs arbitrary: p ys)
  case Nil
  then show ?case by (cases ys) auto
next
  case (Cons x xs)
  then show ?case by (cases ys) auto
qed

lemma lseg_suffix: "lseg h p (xs @ y # ys) \<Longrightarrow> lseg h y (y # ys)"
  by (auto simp: lseg_append)

lemma lseg_no_cycle: "lseg h x (x # xs) \<Longrightarrow> x \<notin> set xs"
proof
  assume l: "lseg h x (x # xs)" and "x \<in> set xs"
  then obtain as bs where xs: "xs = as @ x # bs" by (auto simp: in_set_conv_decomp)
  with l have "lseg h x (x # bs)" using lseg_suffix [of h x "x # as" x bs] by simp
  with l have "x # xs = x # bs" by (rule lseg_unique)
  with xs show False by simp
qed

lemma lseg_distinct: "lseg h p xs \<Longrightarrow> distinct xs"
proof (induction xs arbitrary: p)
  case (Cons x xs)
  then show ?case using lseg_no_cycle [of h x xs] by auto
qed simp

lemma lseg_alloc: "lseg h p xs \<Longrightarrow> x \<in> set xs \<Longrightarrow> x \<noteq> 0 \<and> (\<exists>n. h x = Some n)"
  by (induction xs arbitrary: p) auto

lemma lseg_hd: "lseg h p xs \<Longrightarrow> xs \<noteq> [] \<Longrightarrow> p = hd xs"
  by (cases xs) auto

definition next_of :: "(addr \<Rightarrow> t_node option) \<Rightarrow> addr \<Rightarrow> addr" where
  "next_of h a = nd_next (the (h a))"

definition upd_next :: "(addr \<Rightarrow> t_node option) \<Rightarrow> addr \<Rightarrow> addr \<Rightarrow> (addr \<Rightarrow> t_node option)" where
  "upd_next h a v = h(a \<mapsto> (the (h a))\<lparr>nd_next := v\<rparr>)"

lemma lseg_upd_next [simp]: "u \<notin> set xs \<Longrightarrow> lseg (upd_next h u v) p xs = lseg h p xs"
  by (simp add: upd_next_def lseg_upd)

lemma lpath_upd_next [simp]: "u \<notin> set xs \<Longrightarrow> lpath (upd_next h u v) p xs q = lpath h p xs q"
  by (simp add: upd_next_def lpath_upd)

lemma upd_next_apply:
  "upd_next h a v b = (if b = a then Some ((the (h a))\<lparr>nd_next := v\<rparr>) else h b)"
  by (simp add: upd_next_def)

lemma set_next_Some: "nodes s a = Some n \<Longrightarrow> set_next a v s = Ret (s\<lparr>nodes := upd_next (nodes s) a v\<rparr>)"
  by (simp add: set_next_def get_node_def upd_next_def)

text \<open>Redirecting the next pointer of the node before the rest of the list.\<close>

lemma lseg_relink:
  assumes "lseg h p (as @ q # cs)" and "lseg (upd_next h q r) r bs"
  shows "lseg (upd_next h q r) p (as @ q # bs)"
proof -
  have d: "distinct (as @ q # cs)" using assms(1) by (rule lseg_distinct)
  obtain n where "lpath h p as q" and "q \<noteq> 0" and "h q = Some n"
    using assms(1) by (auto simp: lseg_append)
  moreover from this d have "lpath (upd_next h q r) p as q" by simp
  ultimately show ?thesis
    using assms(2) by (auto simp: lseg_append upd_next_apply)
qed

text \<open>
  A reader that stands on node \<open>x\<close> of a list either has the link from \<open>q\<close> to
  \<open>c\<close> still before it, or is past it.
\<close>

lemma view_cases:
  assumes "ws @ x # zs = as @ q # c # bs"
  obtains (before) as' where "as = ws @ as'" "x # zs = as' @ q # c # bs"
    | (after) ws' where "c # bs = ws' @ x # zs"
proof -
  from assms consider us where "ws = as @ us" "us @ x # zs = q # c # bs"
    | us where "ws @ us = as" "x # zs = us @ q # c # bs"
    by (auto simp: append_eq_append_conv2)
  then show thesis
  proof cases
    case 1
    then show thesis using that(1) [of "[]"] that(2) [of "tl us"] by (cases us) auto
  next
    case 2
    then show thesis using that(1) by blast
  qed
qed

text \<open>What the reader has still to visit when a writer redirects that link.\<close>

lemma reader_view_relink:
  assumes l: "lseg h p (as @ q # c # bs)" and x: "ws @ x # zs = as @ q # c # bs"
    and r: "lseg (upd_next h q r) r rs"
  shows "lseg (upd_next h q r) x (x # (if q \<in> set (x # zs) then takeWhile (\<lambda>y. y \<noteq> c) zs @ rs else zs))"
  using x
proof (cases rule: view_cases)
  case (before as')
  have d: "distinct (as @ q # c # bs)" using l by (rule lseg_distinct)
  have "lseg h x (as' @ q # c # bs)"
    using l x before(2) by (metis lseg_suffix)
  then have rel: "lseg (upd_next h q r) x (as' @ q # rs)"
    using r by (rule lseg_relink)
  show ?thesis
  proof (cases as')
    case Nil
    with before rel show ?thesis by simp
  next
    case (Cons a as'')
    with before d have zs: "zs = as'' @ q # c # bs" and "\<forall>y \<in> set as''. y \<noteq> c" and "q \<noteq> c"
      by auto
    then have "takeWhile (\<lambda>y. y \<noteq> c) zs = as'' @ [q]"
      by (simp add: takeWhile_append2)
    with before rel Cons show ?thesis by auto
  qed
next
  case (after ws')
  have "distinct (as @ q # c # bs)" using l by (rule lseg_distinct)
  then have "q \<notin> set (c # bs)" by auto
  then have q: "q \<notin> set (x # zs)" unfolding after by auto
  moreover have "lseg h x (x # zs)"
    using lseg_suffix [of h p "as @ q # ws'" x zs] l after by simp
  ultimately show ?thesis by (metis lseg_upd_next)
qed

section \<open>The traversal loops\<close>

definition pid_at :: "'z rcu_scheme \<Rightarrow> addr \<Rightarrow> int option" where
  "pid_at s a = (case nodes s a of None \<Rightarrow> None | Some n \<Rightarrow> map_option pr_pid (procs s (nd_process n)))"

lemma pid_at_Some:
  "pid_at s a = Some v \<longleftrightarrow> (\<exists>n p. nodes s a = Some n \<and> procs s (nd_process n) = Some p \<and> pr_pid p = v)"
  by (auto simp: pid_at_def split: option.splits)

text \<open>No node of the list has the process id.\<close>

definition pids_differ :: "'z rcu_scheme \<Rightarrow> addr list \<Rightarrow> int \<Rightarrow> bool" where
  "pids_differ s xs v \<longleftrightarrow> (\<forall>a \<in> set xs. \<exists>w. pid_at s a = Some w \<and> w \<noteq> v)"

lemma pids_differ_simps [simp]:
  "pids_differ s [] v"
  "pids_differ s (x # xs) v \<longleftrightarrow> (\<exists>w. pid_at s x = Some w \<and> w \<noteq> v) \<and> pids_differ s xs v"
  by (auto simp: pids_differ_def)

lemma list_update_loop_found:
  assumes "lseg (nodes s) cur (as @ c # bs)" and "nodes s prev = Some q" and "nd_next q = cur"
    and "procs s proc = Some p" and "pids_differ s as (pr_pid p)" and "pid_at s c = Some (pr_pid p)"
  shows "list_update_loop new proc cur prev s =
    Some (Ret (1, Some c, [SetNext new (next_of (nodes s) c), SetNext (last (prev # as)) new]))"
  using assms
proof (induction as arbitrary: cur prev q)
  case Nil
  then obtain n cp where n: "nodes s c = Some n" "procs s (nd_process n) = Some cp" "pr_pid cp = pr_pid p"
    by (auto simp: pid_at_Some)
  with Nil show ?case
    by (subst list_update_loop.simps) (simp add: next_of_def)
next
  case (Cons a as)
  then obtain n cp where n: "nodes s a = Some n" "procs s (nd_process n) = Some cp" "pr_pid cp \<noteq> pr_pid p"
    by (auto simp: pid_at_Some)
  have "list_update_loop new proc cur prev s = list_update_loop new proc (nd_next n) cur s"
    using Cons.prems n by (subst list_update_loop.simps) simp
  also have "\<dots> = Some (Ret (1, Some c, [SetNext new (next_of (nodes s) c), SetNext (last (cur # as)) new]))"
    using Cons.prems n by (intro Cons.IH) auto
  finally show ?case using Cons.prems by simp
qed

lemma list_update_loop_missing:
  assumes "lseg (nodes s) cur xs" and "nodes s prev = Some q" and "nd_next q = cur"
    and "procs s proc = Some p" and "pids_differ s xs (pr_pid p)"
  shows "list_update_loop new proc cur prev s = Some (Ret (0, None, []))"
  using assms
proof (induction xs arbitrary: cur prev q)
  case Nil
  then show ?case by (subst list_update_loop.simps) simp
next
  case (Cons a as)
  then obtain n cp where n: "nodes s a = Some n" "procs s (nd_process n) = Some cp" "pr_pid cp \<noteq> pr_pid p"
    by (auto simp: pid_at_Some)
  have "list_update_loop new proc cur prev s = list_update_loop new proc (nd_next n) cur s"
    using Cons.prems n by (subst list_update_loop.simps) simp
  also have "\<dots> = Some (Ret (0, None, []))"
    using Cons.prems n by (intro Cons.IH) auto
  finally show ?case .
qed

lemma list_del_from_proc_loop_found:
  assumes "lseg (nodes s) cur (as @ c # bs)" and "nodes s prev = Some q" and "nd_next q = cur"
    and "procs s proc = Some p" and "pids_differ s as (pr_pid p)" and "pid_at s c = Some (pr_pid p)"
  shows "list_del_from_proc_loop proc cur prev s =
    Some (Ret (1, Some c, s\<lparr>nodes := upd_next (nodes s) (last (prev # as)) (next_of (nodes s) c)\<rparr>))"
  using assms
proof (induction as arbitrary: cur prev q)
  case Nil
  then obtain n cp where n: "nodes s c = Some n" "procs s (nd_process n) = Some cp" "pr_pid cp = pr_pid p"
    by (auto simp: pid_at_Some)
  with Nil show ?case
    by (subst list_del_from_proc_loop.simps) (simp add: set_next_Some next_of_def)
next
  case (Cons a as)
  then obtain n cp where n: "nodes s a = Some n" "procs s (nd_process n) = Some cp" "pr_pid cp \<noteq> pr_pid p"
    by (auto simp: pid_at_Some)
  have "list_del_from_proc_loop proc cur prev s = list_del_from_proc_loop proc (nd_next n) cur s"
    using Cons.prems n by (subst list_del_from_proc_loop.simps) simp
  also have "\<dots> = Some (Ret (1, Some c, s\<lparr>nodes := upd_next (nodes s) (last (cur # as)) (next_of (nodes s) c)\<rparr>))"
    using Cons.prems n by (intro Cons.IH) auto
  finally show ?case using Cons.prems by simp
qed

lemma list_del_loop_found:
  assumes "lseg (nodes s) tmp (as @ c # bs)" and "nodes s prev = Some q" and "nd_next q = tmp"
    and "c \<notin> set as"
  shows "list_del_loop c tmp prev s =
    Some (Ret (s\<lparr>nodes := upd_next (nodes s) (last (prev # as)) (next_of (nodes s) c)\<rparr>))"
  using assms
proof (induction as arbitrary: tmp prev q)
  case Nil
  then show ?case by (subst list_del_loop.simps) (auto simp: set_next_Some next_of_def)
next
  case (Cons a as)
  then obtain n where n: "nodes s a = Some n" "lseg (nodes s) (nd_next n) (as @ c # bs)" by auto
  have "list_del_loop c tmp prev s = list_del_loop c (nd_next n) tmp s"
    using Cons.prems n by (subst list_del_loop.simps) simp
  also have "\<dots> = Some (Ret (s\<lparr>nodes := upd_next (nodes s) (last (tmp # as)) (next_of (nodes s) c)\<rparr>))"
    using Cons.prems n by (intro Cons.IH) auto
  finally show ?case using Cons.prems by simp
qed

lemma list_del_loop_missing:
  assumes "lseg (nodes s) tmp xs" and "nodes s prev = Some q" and "nd_next q = tmp" and "c \<notin> set xs"
  shows "list_del_loop c tmp prev s = Some (Ret s)"
  using assms
proof (induction xs arbitrary: tmp prev q)
  case Nil
  then show ?case by (subst list_del_loop.simps) simp
next
  case (Cons a as)
  then obtain n where n: "nodes s a = Some n" "lseg (nodes s) (nd_next n) as" by auto
  have "list_del_loop c tmp prev s = list_del_loop c (nd_next n) tmp s"
    using Cons.prems n by (subst list_del_loop.simps) simp
  also have "\<dots> = Some (Ret s)"
    using Cons.prems n by (intro Cons.IH) auto
  finally show ?case .
qed

section \<open>The writers' critical section\<close>

text \<open>A store to the list: what the writers change, apart from the lock.\<close>

definition wr :: "(addr \<Rightarrow> t_node option) \<Rightarrow> addr \<Rightarrow> 'z rcu_scheme \<Rightarrow> 'z rcu_scheme" where
  "wr h p s = s\<lparr>nodes := h, process_list := p\<rparr>"

definition lock_in :: "lockid \<Rightarrow> 'z mach_scheme \<Rightarrow> 'z mach_scheme" where
  "lock_in l s = (acquired s)\<lparr>locks := (locks s)(l := (locks s l)\<lparr>lk_locked := True, lk_cpu := Some (hart s)\<rparr>)\<rparr>"

text \<open>What a critical section leaves of the lock and of the hart: all is as before, the owner is cleared.\<close>

definition lock_cycle :: "lockid \<Rightarrow> 'z mach_scheme \<Rightarrow> 'z mach_scheme" where
  "lock_cycle l s = (set_idle False (after_pair s))\<lparr>locks := (locks s)(l := (locks s l)\<lparr>lk_cpu := None, lk_locked := False\<rparr>)\<rparr>"

lemma wr_fields [simp]:
  "nodes (wr h p s) = h" "process_list (wr h p s) = p" "procs (wr h p s) = procs s"
  "locks (wr h p s) = locks s" "hart (wr h p s) = hart s" "sstatus (wr h p s) = sstatus s"
  "cpus (wr h p s) = cpus s" "wr h p (wr h' p' s) = wr h p s"
  "(wr h p s)\<lparr>nodes := h'\<rparr> = wr h' p s" "(wr h p s)\<lparr>process_list := p'\<rparr> = wr h p' s"
  by (simp_all add: wr_def)

lemma wr_same [simp]: "h = nodes s \<Longrightarrow> p = process_list s \<Longrightarrow> wr h p s = s"
  by (simp add: wr_def)

lemma wr_mach [simp]:
  "mycpu (wr h p s) = mycpu s" "cpuid (wr h p s) = cpuid s" "intr_get (wr h p s) = intr_get s"
  "holding lk (wr h p s) = holding lk s" "upd_mycpu f (wr h p s) = wr h p (upd_mycpu f s)"
  "intr_on (wr h p s) = wr h p (intr_on s)" "intr_off (wr h p s) = wr h p (intr_off s)"
  "intr_wf (wr h p s) = intr_wf s"
  "(wr h p s)\<lparr>locks := ls\<rparr> = wr h p (s\<lparr>locks := ls\<rparr>)"
  by (simp_all add: wr_def mycpu_def cpuid_def intr_get_def holding_def upd_mycpu_def intr_on_def
      intr_off_def intr_wf_def)

lemma rcu_fields [simp]:
  "nodes (upd_mycpu f s) = nodes s" "procs (upd_mycpu f s) = procs s"
  "process_list (upd_mycpu f s) = process_list s"
  "nodes (intr_on s) = nodes s" "procs (intr_on s) = procs s" "process_list (intr_on s) = process_list s"
  "nodes (intr_off s) = nodes s" "procs (intr_off s) = procs s" "process_list (intr_off s) = process_list s"
  by (simp_all add: upd_mycpu_def intr_on_def intr_off_def)

lemma rcu_push_off [simp]:
  "nodes (push_off s) = nodes s" "procs (push_off s) = procs s" "process_list (push_off s) = process_list s"
  "push_off (wr h p s) = wr h p (push_off s)"
  by (simp_all add: push_off_def Let_def)

lemma rcu_lock_in [simp]:
  "nodes (lock_in l s) = nodes s" "procs (lock_in l s) = procs s"
  "process_list (lock_in l s) = process_list s"
  "nodes (lock_cycle l s) = nodes s" "procs (lock_cycle l s) = procs s"
  "process_list (lock_cycle l s) = process_list s"
  by (simp_all add: lock_in_def lock_cycle_def acquired_def set_idle_def after_pair_def)

lemma lock_in_mach [simp]:
  "intr_wf s \<Longrightarrow> intr_wf (lock_in l s)" "cpu_noff (mycpu (lock_in l s)) = cpu_noff (mycpu s) + 1"
  "holding (locks (lock_in l s) l) (lock_in l s)" "hart (lock_in l s) = hart s"
  by (simp_all add: lock_in_def holding_def cpuid_def)

lemma lock_cycle_mach [simp]:
  "hart (lock_cycle l s) = hart s" "sstatus (lock_cycle l s) = sstatus s"
  "cpu_noff (mycpu (lock_cycle l s)) = cpu_noff (mycpu s)"
  "locks (lock_cycle l s) = (locks s)(l := (locks s l)\<lparr>lk_cpu := None, lk_locked := False\<rparr>)"
  by (simp_all add: lock_cycle_def after_pair_def)

lemma pop_off_wr: "pop_off (wr h p s) = bind_res (pop_off s) (\<lambda>t. Ret (wr h p t))"
  by (simp add: pop_off_def Let_def)

text \<open>Inside the lock a read-side section leaves no trace.\<close>

lemma read_section_inside:
  assumes "intr_wf s"
  shows "pop_off (wr h p (push_off (lock_in l s))) = Ret (wr h p (lock_in l s))"
proof -
  have "after_pair (lock_in l s) = lock_in l s"
    using assms by (intro after_pair_nested) (simp add: intr_wf_def)
  with assms show ?thesis by (simp add: pop_off_wr pop_push_off)
qed

lemma acquire_lock_in: "\<not> lk_locked (locks s l) \<Longrightarrow> acquire l s = Ret (lock_in l s)"
  by (simp add: acquire_free lock_in_def)

lemma pop_off_locks: "pop_off (s\<lparr>locks := x\<rparr>) = bind_res (pop_off s) (\<lambda>t. Ret (t\<lparr>locks := x\<rparr>))"
  by (simp add: pop_off_def intr_on_def intr_get_def upd_mycpu_def mycpu_def cpuid_def Let_def)

lemma upd_mycpu_comm:
  "(\<And>c. f (g c) = g (f c)) \<Longrightarrow> upd_mycpu f (upd_mycpu g s) = upd_mycpu g (upd_mycpu f s)"
  by (simp add: comp_def)

lemma pop_off_set_idle: "pop_off (set_idle b s) = bind_res (pop_off s) (\<lambda>t. Ret (set_idle b t))"
proof -
  have "upd_mycpu (\<lambda>c. c\<lparr>cpu_noff := cpu_noff c - 1\<rparr>) (set_idle b s) =
    set_idle b (upd_mycpu (\<lambda>c. c\<lparr>cpu_noff := cpu_noff c - 1\<rparr>) s)"
    unfolding set_idle_def by (rule upd_mycpu_comm) simp
  then show ?thesis
    by (simp add: pop_off_def Let_def) (simp add: set_idle_def)
qed

lemma pop_off_lock_in:
  assumes "intr_wf s"
  shows "pop_off (lock_in l s) =
    Ret ((set_idle False (after_pair s))\<lparr>locks := locks (lock_in l s)\<rparr>)"
  using assms by (simp add: lock_in_def acquired_def pop_off_locks pop_off_set_idle pop_push_off)

lemma release_lock_in_mach:
  assumes "intr_wf s"
  shows "release l (lock_in l s) = Ret (lock_cycle l s)"
  using pop_off_lock_in [OF assms, of l] lock_in_mach(3) [of l s]
  by (simp add: release_def release_lk_def release_disown_def release_unlock_def lock_cycle_def lock_in_def)

lemma release_lock_in:
  assumes "intr_wf s"
  shows "release l (wr h p (lock_in l s)) = Ret (wr h p (lock_cycle l s))"
proof -
  have "pop_off (wr h p (lock_in l s)) = Ret (wr h p ((set_idle False (after_pair s))\<lparr>locks := locks (lock_in l s)\<rparr>))"
    by (simp add: pop_off_wr pop_off_lock_in assms)
  then show ?thesis
    by (simp add: release_def release_lk_def release_disown_def release_unlock_def lock_cycle_def lock_in_def holding_def cpuid_def)
qed

section \<open>What the operations do to the list\<close>

text \<open>Redirecting the pointer to the node after \<open>as\<close>: the head pointer if there is none before it.\<close>

definition relink :: "addr list \<Rightarrow> addr \<Rightarrow> (addr \<Rightarrow> t_node option) \<Rightarrow> (addr \<Rightarrow> t_node option)" where
  "relink as v h = (if as = [] then h else upd_next h (last as) v)"

definition rehead :: "addr list \<Rightarrow> addr \<Rightarrow> addr \<Rightarrow> addr" where
  "rehead as v p = (if as = [] then v else p)"

lemma lseg_relinked:
  assumes l: "lseg h p (as @ cs)" and r: "lseg (relink as v h) v bs"
  shows "lseg (relink as v h) (rehead as v p) (as @ bs)"
proof (cases as rule: rev_cases)
  case (snoc as' q)
  then show ?thesis using lseg_relink [of h p as' q cs v bs] l r by (simp add: relink_def rehead_def)
qed (use r in \<open>simp add: relink_def rehead_def\<close>)

lemma lseg_relink_other: "last as \<notin> set xs \<or> as = [] \<Longrightarrow> lseg (relink as v h) p xs = lseg h p xs"
  by (auto simp: relink_def)

text \<open>The suffix of a list that a reader standing on \<open>x\<close> has before it.\<close>

lemma suffix_split:
  assumes "distinct (as @ c # bs)" and "ws @ x # zs = as @ c # bs"
  shows "if c \<in> set zs then zs = takeWhile (\<lambda>y. y \<noteq> c) zs @ c # bs \<and> as \<noteq> [] \<and> last as \<in> set (x # zs)
         else last as \<notin> set (x # zs) \<or> as = []"
proof -
  have q: "c \<notin> set bs" "as \<noteq> [] \<Longrightarrow> last as \<notin> set (c # bs)"
    using assms(1) last_in_set [of as] by (auto simp: disjoint_iff)
  from assms(2) consider us where "ws = as @ us" "us @ x # zs = c # bs"
    | us where "ws @ us = as" "x # zs = us @ c # bs"
    by (auto simp: append_eq_append_conv2)
  then show ?thesis
  proof cases
    case 1
    then have "set (x # zs) \<subseteq> set (c # bs)" "set zs \<subseteq> set bs" by (cases us; auto)+
    with q show ?thesis by auto
  next
    case 2
    show ?thesis
    proof (cases us)
      case Nil
      with 2 q show ?thesis by auto
    next
      case (Cons u us')
      with 2 assms(1) have zs: "zs = us' @ c # bs" and c: "c \<notin> set us'" by auto
      then have "takeWhile (\<lambda>y. y \<noteq> c) zs = us'" by (subst zs) (subst takeWhile_append2, auto)
      moreover have "last as \<in> set (x # zs)" using 2 Cons last_in_set [of us] by auto
      ultimately show ?thesis using zs 2 Cons by auto
    qed
  qed
qed

lemma takeWhile_replace:
  assumes "distinct zs" and "zs = takeWhile (\<lambda>y. y \<noteq> c) zs @ c # bs"
  shows "takeWhile (\<lambda>y. y \<noteq> c) zs @ n # bs = map (\<lambda>y. if y = c then n else y) zs"
    and "takeWhile (\<lambda>y. y \<noteq> c) zs @ bs = filter (\<lambda>y. y \<noteq> c) zs"
proof -
  define ts where "ts = takeWhile (\<lambda>y. y \<noteq> c) zs"
  with assms have zs: "zs = ts @ c # bs" and c: "c \<notin> set ts" "c \<notin> set bs"
    by (metis, metis set_takeWhileD, metis distinct.simps(2) distinct_append)
  then have "map (\<lambda>y. if y = c then n else y) ts = ts" "map (\<lambda>y. if y = c then n else y) bs = bs"
    by (auto intro: map_idI)
  moreover have "filter (\<lambda>y. y \<noteq> c) ts = ts" "filter (\<lambda>y. y \<noteq> c) bs = bs"
    using c by (auto simp: filter_id_conv)
  ultimately have "map (\<lambda>y. if y = c then n else y) zs = ts @ n # bs" "filter (\<lambda>y. y \<noteq> c) zs = ts @ bs"
    by (simp_all add: zs)
  then show "takeWhile (\<lambda>y. y \<noteq> c) zs @ n # bs = map (\<lambda>y. if y = c then n else y) zs"
    "takeWhile (\<lambda>y. y \<noteq> c) zs @ bs = filter (\<lambda>y. y \<noteq> c) zs"
    by (simp_all add: ts_def)
qed

text \<open>A reader's view after a writer has redirected the pointer to \<open>c\<close>.\<close>

lemma reader_view:
  assumes l: "lseg h p (as @ c # bs)" and x: "ws @ x # zs = as @ c # bs"
    and r: "lseg (relink as v h) v rs"
  shows "lseg (relink as v h) x (x # (if c \<in> set zs then takeWhile (\<lambda>y. y \<noteq> c) zs @ rs else zs))"
proof -
  have d: "distinct (as @ c # bs)" using l by (rule lseg_distinct)
  have xl: "lseg h x (x # zs)" using l x by (metis lseg_suffix)
  show ?thesis
  proof (cases "c \<in> set zs")
    case False
    with suffix_split [OF d x] have "last as \<notin> set (x # zs) \<or> as = []" by simp
    with xl False show ?thesis by (simp only: lseg_relink_other if_False)
  next
    case True
    with suffix_split [OF d x] have q: "as \<noteq> []" "last as \<in> set (x # zs)" by auto
    obtain as' q where as: "as = as' @ [q]" using q by (cases as rule: rev_cases) auto
    with l x r q True show ?thesis
      using reader_view_relink [of h p as' q c bs ws x zs v rs] by (simp add: relink_def)
  qed
qed

lemma list_add_result:
  assumes "intr_wf s" and "\<not> lk_locked (locks s l)" and "nodes s node = Some n"
  shows "list_add_rcu node l s = Ret (wr (upd_next (nodes s) node (process_list s)) node (lock_cycle l s))"
proof -
  let ?h = "upd_next (nodes s) node (process_list s)"
  have "set_next node (process_list s) (push_off (lock_in l s)) =
      Ret (wr ?h (process_list s) (push_off (lock_in l s)))"
    using assms(3) by (subst set_next_Some [of _ _ n]) (simp_all add: wr_def)
  then show ?thesis
    using assms(1,2)
    by (simp add: list_add_rcu_def acquire_lock_in rcu_read_lock_def rcu_read_unlock_def
        rcu_dereference_pointer_def rcu_assign_pointer_def read_section_inside release_lock_in)
qed

lemma nodes_wr:
  "(lock_in l s)\<lparr>nodes := h\<rparr> = wr h (process_list s) (lock_in l s)"
  "(push_off (lock_in l s))\<lparr>nodes := h\<rparr> = wr h (process_list s) (push_off (lock_in l s))"
  by (simp_all add: wr_def)

lemma head_wr:
  "(lock_in l s)\<lparr>process_list := p\<rparr> = wr (nodes s) p (lock_in l s)"
  "(push_off (lock_in l s))\<lparr>process_list := p\<rparr> = wr (nodes s) p (push_off (lock_in l s))"
  by (simp_all add: wr_def)

lemma pid_at_cong: "nodes s = nodes t \<Longrightarrow> procs s = procs t \<Longrightarrow> pid_at s = pid_at t"
  by (auto simp: pid_at_def fun_eq_iff split: option.split)

lemma list_del_result:
  assumes "intr_wf s" and "\<not> lk_locked (locks s l)" and l: "lseg (nodes s) (process_list s) (as @ c # bs)"
  shows "list_del_rcu c l s =
    Ret (wr (relink as (next_of (nodes s) c) (nodes s)) (rehead as (next_of (nodes s) c) (process_list s)) (lock_cycle l s))"
proof (cases as)
  case Nil
  then obtain n where "process_list s = c" "c \<noteq> 0" "nodes s c = Some n" using l by auto
  then show ?thesis
    using assms(1,2) Nil
    by (simp add: list_del_rcu_def acquire_lock_in rcu_dereference_pointer_def rcu_assign_pointer_def
        get_node_def relink_def rehead_def next_of_def head_wr release_lock_in)
next
  case (Cons a as')
  then obtain n where n: "process_list s = a" "a \<noteq> 0" "nodes s a = Some n"
    "lseg (nodes s) (nd_next n) (as' @ c # bs)" using l by auto
  have "a \<noteq> c" "c \<notin> set as'" using lseg_distinct [OF l] Cons by auto
  then have "list_del_loop c (nd_next n) a (lock_in l s) =
      Some (Ret ((lock_in l s)\<lparr>nodes := upd_next (nodes s) (last as) (next_of (nodes s) c)\<rparr>))"
    using list_del_loop_found [of "lock_in l s" "nd_next n" as' c bs a n] n Cons by simp
  then show ?thesis
    using assms(1,2) Cons n \<open>a \<noteq> c\<close> release_lock_in [of s l]
    by (simp add: list_del_rcu_def acquire_lock_in rcu_dereference_pointer_def
        get_node_def relink_def rehead_def nodes_wr from_loop_def)
qed

text \<open>The store that redirects the pointer to the node after \<open>as\<close>.\<close>

definition redirect :: "addr list \<Rightarrow> addr \<Rightarrow> store" where
  "redirect as v = (if as = [] then SetHead v else SetNext (last as) v)"

lemma list_update_search_found:
  assumes l: "lseg (nodes s) (process_list s) (as @ c # bs)"
    and p: "procs s proc = Some p" "pids_differ s as (pr_pid p)" "pid_at s c = Some (pr_pid p)"
  shows "list_update_search new proc s = Ret (1, Some c, [SetNext new (next_of (nodes s) c), redirect as new])"
proof (cases as)
  case Nil
  then obtain n cp where "process_list s = c" "c \<noteq> 0" "nodes s c = Some n" "procs s (nd_process n) = Some cp"
    "pr_pid cp = pr_pid p" using l p by (auto simp: pid_at_Some)
  with Nil p(1) show ?thesis
    by (simp add: list_update_search_def rcu_dereference_pointer_def node_pid_def get_node_def get_proc_def
        redirect_def next_of_def)
next
  case (Cons a as')
  then obtain n cp where n: "process_list s = a" "a \<noteq> 0" "nodes s a = Some n" "procs s (nd_process n) = Some cp"
    "pr_pid cp \<noteq> pr_pid p" "lseg (nodes s) (nd_next n) (as' @ c # bs)" using l p by (auto simp: pid_at_Some)
  then have "list_update_loop new proc (nd_next n) a s =
      Some (Ret (1, Some c, [SetNext new (next_of (nodes s) c), SetNext (last as) new]))"
    using list_update_loop_found [of s "nd_next n" as' c bs a n proc p new] p Cons by simp
  with n p(1) Cons show ?thesis
    by (simp add: list_update_search_def rcu_dereference_pointer_def node_pid_def get_node_def get_proc_def
        redirect_def from_loop_def)
qed

lemma list_update_search_missing:
  assumes l: "lseg (nodes s) (process_list s) xs" "xs \<noteq> []"
    and p: "procs s proc = Some p" "pids_differ s xs (pr_pid p)"
  shows "list_update_search new proc s = Ret (0, None, [])"
proof -
  obtain a as' n cp where xs: "xs = a # as'" and n: "process_list s = a" "a \<noteq> 0" "nodes s a = Some n"
    "procs s (nd_process n) = Some cp" "pr_pid cp \<noteq> pr_pid p" "lseg (nodes s) (nd_next n) as'"
    using l p by (cases xs) (auto simp: pid_at_Some)
  have "list_update_loop new proc (nd_next n) a s = Some (Ret (0, None, []))"
    using n p xs by (intro list_update_loop_missing) auto
  with n p(1) show ?thesis
    by (simp add: list_update_search_def rcu_dereference_pointer_def node_pid_def get_node_def get_proc_def
        from_loop_def)
qed

lemma do_redirect:
  assumes "lseg (nodes s) (process_list s) (as @ cs)"
  shows "do_store (redirect as v) s = Ret (wr (relink as v (nodes s)) (rehead as v (process_list s)) s)"
proof (cases "as = []")
  case False
  then obtain n where "nodes s (last as) = Some n" using lseg_alloc [OF assms, of "last as"] by auto
  then show ?thesis using False by (simp add: redirect_def set_next_Some relink_def rehead_def wr_def)
qed (simp add: redirect_def rcu_assign_pointer_def relink_def rehead_def wr_def)

lemma do_link:
  "nodes s new = Some nn \<Longrightarrow> do_store (SetNext new v) s = Ret (wr (upd_next (nodes s) new v) (process_list s) s)"
  by (simp add: set_next_Some wr_def)

lemma update_stores:
  assumes "lseg (nodes s) (process_list s) (as @ cs)" and "new \<notin> set (as @ cs)" and "nodes s new = Some nn"
  shows "do_stores [SetNext new v, redirect as new] s =
    Ret (wr (relink as new (upd_next (nodes s) new v)) (rehead as new (process_list s)) s)"
proof -
  let ?s1 = "wr (upd_next (nodes s) new v) (process_list s) s"
  have "lseg (nodes ?s1) (process_list ?s1) (as @ cs)" using assms(1,2) by (simp del: lseg_append)
  from do_redirect [OF this, of new] show ?thesis using do_link [of s new nn v, OF assms(3)] by simp
qed

lemma list_update_result:
  assumes wf: "intr_wf s" "\<not> lk_locked (locks s l)" and l: "lseg (nodes s) (process_list s) (as @ c # bs)"
    and p: "procs s proc = Some p" "pids_differ s as (pr_pid p)" "pid_at s c = Some (pr_pid p)"
    and new: "new \<notin> set (as @ c # bs)" "nodes s new = Some nn"
  shows "list_update_rcu new proc l s =
    Ret (1, Some c, wr (relink as new (upd_next (nodes s) new (next_of (nodes s) c)))
      (rehead as new (process_list s)) (lock_cycle l s))"
proof -
  let ?t = "push_off (lock_in l s)"
  have "pids_differ ?t as (pr_pid p)" "pid_at ?t c = Some (pr_pid p)"
    using p pid_at_cong [of ?t s] by (simp_all add: pids_differ_def)
  then have "list_update_search new proc ?t = Ret (1, Some c, [SetNext new (next_of (nodes s) c), redirect as new])"
    using list_update_search_found [of ?t as c bs proc p new] l p(1) by simp
  moreover have "do_stores [SetNext new (next_of (nodes s) c), redirect as new] ?t =
      Ret (wr (relink as new (upd_next (nodes s) new (next_of (nodes s) c))) (rehead as new (process_list s)) ?t)"
    using update_stores [of ?t as "c # bs" new nn] l new by simp
  ultimately show ?thesis
    using wf by (simp add: list_update_rcu_def acquire_lock_in rcu_read_lock_def rcu_read_unlock_def
        read_section_inside release_lock_in del: do_stores.simps)
qed

lemma list_update_missing:
  assumes wf: "intr_wf s" "\<not> lk_locked (locks s l)" and l: "lseg (nodes s) (process_list s) xs" "xs \<noteq> []"
    and p: "procs s proc = Some p" "pids_differ s xs (pr_pid p)"
  shows "list_update_rcu new proc l s = Ret (0, None, lock_cycle l s)"
proof -
  let ?t = "push_off (lock_in l s)"
  have "pids_differ ?t xs (pr_pid p)" using p pid_at_cong [of ?t s] by (simp add: pids_differ_def)
  then have "list_update_search new proc ?t = Ret (0, None, [])"
    using list_update_search_missing [of ?t xs proc p new] l p(1) by simp
  moreover have "pop_off ?t = Ret (lock_in l s)" "release l (lock_in l s) = Ret (lock_cycle l s)"
    using read_section_inside [of s "nodes ?t" "process_list ?t" l] release_lock_in_mach [of s l] wf
    by simp_all
  ultimately show ?thesis
    using wf by (simp add: list_update_rcu_def acquire_lock_in rcu_read_lock_def rcu_read_unlock_def)
qed

lemma list_del_from_proc_result:
  assumes wf: "intr_wf s" "\<not> lk_locked (locks s l)" and l: "lseg (nodes s) (process_list s) (as @ c # bs)"
    and p: "procs s proc = Some p" "pids_differ s as (pr_pid p)" "pid_at s c = Some (pr_pid p)"
  shows "list_del_from_proc_rcu proc l s =
    Ret (1, Some c, wr (relink as (next_of (nodes s) c) (nodes s))
      (rehead as (next_of (nodes s) c) (process_list s)) (lock_cycle l s))"
proof (cases as)
  case Nil
  then obtain n cp where n: "process_list s = c" "c \<noteq> 0" "nodes s c = Some n" "procs s (nd_process n) = Some cp"
    "pr_pid cp = pr_pid p" using l p by (auto simp: pid_at_Some)
  then show ?thesis
    using wf p Nil
    by (simp add: list_del_from_proc_rcu_def acquire_lock_in rcu_read_lock_def rcu_read_unlock_def node_pid_def
        rcu_dereference_pointer_def rcu_assign_pointer_def get_node_def get_proc_def relink_def rehead_def
        next_of_def head_wr read_section_inside release_lock_in)
next
  case (Cons a as')
  then obtain n cp where n: "process_list s = a" "a \<noteq> 0" "nodes s a = Some n" "procs s (nd_process n) = Some cp"
    "pr_pid cp \<noteq> pr_pid p" "lseg (nodes s) (nd_next n) (as' @ c # bs)" using l p by (auto simp: pid_at_Some)
  let ?t = "push_off (lock_in l s)"
  have "pids_differ ?t as' (pr_pid p)" "pid_at ?t c = Some (pr_pid p)"
    using p Cons pid_at_cong [of ?t s] by (simp_all add: pids_differ_def)
  then have "list_del_from_proc_loop proc (nd_next n) a ?t =
      Some (Ret (1, Some c, ?t\<lparr>nodes := upd_next (nodes s) (last as) (next_of (nodes s) c)\<rparr>))"
    using list_del_from_proc_loop_found [of ?t "nd_next n" as' c bs a n proc p] n p Cons by simp
  then show ?thesis
    using wf p n Cons
    by (simp add: list_del_from_proc_rcu_def acquire_lock_in rcu_read_lock_def rcu_read_unlock_def node_pid_def
        rcu_dereference_pointer_def get_node_def get_proc_def relink_def rehead_def nodes_wr from_loop_def
        read_section_inside release_lock_in)
qed

section \<open>Properties of the list operations\<close>

text \<open>The process list has the nodes \<open>xs\<close>; a writer can enter.\<close>

definition rcu_list :: "'z rcu_scheme \<Rightarrow> addr list \<Rightarrow> bool" where
  "rcu_list s xs \<longleftrightarrow> lseg (nodes s) (process_list s) xs"

definition rcu_ready :: "lockid \<Rightarrow> 'z mach_scheme \<Rightarrow> bool" where
  "rcu_ready l s \<longleftrightarrow> intr_wf s \<and> \<not> lk_locked (locks s l)"

lemma rcu_ready_cycle: "rcu_ready l s \<Longrightarrow> rcu_ready l (wr h p (lock_cycle l s))"
  by (auto simp: rcu_ready_def intr_wf_def intr_get_def)

lemma lseg_next_of: "lseg h p (as @ c # bs) \<Longrightarrow> lseg h (next_of h c) bs"
  by (auto simp: lseg_append next_of_def)

lemma relink_rest:
  assumes l: "lseg h p (as @ c # bs)"
  shows "lseg (relink as v h) (next_of h c) bs"
proof -
  have "last as \<notin> set bs \<or> as = []"
    using lseg_distinct [OF l] last_in_set [of as] by (cases "as = []") (auto simp: disjoint_iff)
  then show ?thesis using lseg_next_of [OF l] by (simp add: lseg_relink_other)
qed

lemma relink_new:
  assumes l: "lseg h p (as @ c # bs)" and new: "new \<notin> set (as @ c # bs)" "new \<noteq> 0" "h new = Some nn"
  shows "lseg (relink as new (upd_next h new (next_of h c))) new (new # bs)"
proof -
  let ?h = "upd_next h new (next_of h c)"
  have "lseg ?h p (as @ c # bs)" using l new by (subst lseg_upd_next) auto
  then have "lseg (relink as new ?h) (next_of ?h c) bs" by (rule relink_rest)
  moreover have "next_of ?h c = next_of h c" using new by (simp add: next_of_def upd_next_apply)
  moreover have "relink as new ?h new = Some (nn\<lparr>nd_next := next_of h c\<rparr>)"
    using new last_in_set [of as] by (auto simp: relink_def upd_next_apply)
  ultimately show ?thesis using new by simp
qed

lemma upd_next_process: "h a = Some n \<Longrightarrow> map_option nd_process (upd_next h a v b) = map_option nd_process (h b)"
  by (simp add: upd_next_apply)

lemma relink_process:
  assumes "lseg h p (as @ cs)"
  shows "map_option nd_process (relink as v h a) = map_option nd_process (h a)"
  using assms lseg_alloc [OF assms, of "last as"] by (auto simp: relink_def upd_next_process)

lemma view_replaced:
  assumes d: "distinct (as @ c # bs)" and x: "ws @ x # zs = as @ c # bs"
  shows "(if c \<in> set zs then takeWhile (\<lambda>y. y \<noteq> c) zs @ n # bs else zs) = map (\<lambda>y. if y = c then n else y) zs"
    and "(if c \<in> set zs then takeWhile (\<lambda>y. y \<noteq> c) zs @ bs else zs) = filter (\<lambda>y. y \<noteq> c) zs"
proof -
  have "distinct zs" using d unfolding x [symmetric] by simp
  with suffix_split [OF d x] takeWhile_replace [of zs c bs]
  show "(if c \<in> set zs then takeWhile (\<lambda>y. y \<noteq> c) zs @ n # bs else zs) = map (\<lambda>y. if y = c then n else y) zs"
    and "(if c \<in> set zs then takeWhile (\<lambda>y. y \<noteq> c) zs @ bs else zs) = filter (\<lambda>y. y \<noteq> c) zs"
    by (auto intro!: map_idI [symmetric] filter_True [symmetric])
qed

text \<open>
  What concurrent readers find in a state: from the head pointer the nodes \<open>now\<close>, and from any
  node of the list \<open>old\<close> the rest of that list with \<open>f\<close> applied, up to the null pointer.
\<close>

definition readers_see :: "'z rcu_scheme \<Rightarrow> addr list \<Rightarrow> addr list \<Rightarrow> (addr \<Rightarrow> addr) \<Rightarrow> bool" where
  "readers_see t old now f \<longleftrightarrow> rcu_list t now \<and>
     (\<forall>ws x zs. ws @ x # zs = old \<longrightarrow> lseg (nodes t) x (x # map f zs))"

lemma readers_see_unchanged:
  assumes "rcu_list t xs"
  shows "readers_see t xs xs id"
proof -
  have "lseg (nodes t) x (x # zs)" if "ws @ x # zs = xs" for ws x zs
    using lseg_suffix [of "nodes t" "process_list t" ws x zs] assms that by (simp add: rcu_list_def del: lseg_simps)
  with assms show ?thesis by (simp add: readers_see_def)
qed

lemma readers_see_replaced:
  assumes l: "lseg h p (as @ c # bs)" and new: "new \<notin> set (as @ c # bs)" "new \<noteq> 0" "h new = Some nn"
  shows "readers_see (wr (relink as new (upd_next h new (next_of h c))) (rehead as new p) t)
    (as @ c # bs) (as @ new # bs) (\<lambda>y. if y = c then new else y)"
proof -
  let ?h = "relink as new (upd_next h new (next_of h c))"
  have l1: "lseg (upd_next h new (next_of h c)) p (as @ c # bs)" using l new by (subst lseg_upd_next) auto
  have n: "lseg ?h new (new # bs)" by (rule relink_new [OF l new])
  have d: "distinct (as @ c # bs)" using l by (rule lseg_distinct)
  have "lseg ?h x (x # map (\<lambda>y. if y = c then new else y) zs)" if x: "ws @ x # zs = as @ c # bs" for ws x zs
    using reader_view [OF l1 x n] unfolding view_replaced(1) [OF d x] .
  with lseg_relinked [OF l1 n] show ?thesis by (simp add: readers_see_def rcu_list_def del: lseg_simps)
qed

text \<open>Before the first store, between the two and after the second.\<close>

lemma update_prefix_views:
  assumes l: "rcu_list t (as @ c # bs)" and new: "new \<notin> set (as @ c # bs)" "new \<noteq> 0" "nodes t new = Some nn"
  shows "returns (do_stores (take k [SetNext new (next_of (nodes t) c), redirect as new]) t) (\<lambda>u.
    readers_see u (as @ c # bs) (as @ c # bs) id \<or>
    readers_see u (as @ c # bs) (as @ new # bs) (\<lambda>y. if y = c then new else y))"
proof -
  have l': "lseg (nodes t) (process_list t) (as @ c # bs)" using l by (simp add: rcu_list_def)
  consider "k = 0" | "k = 1" | "take k [SetNext new (next_of (nodes t) c), redirect as new] =
      [SetNext new (next_of (nodes t) c), redirect as new]"
    by (cases k; cases "k - 1") auto
  then show ?thesis
  proof cases
    case 1
    then show ?thesis using readers_see_unchanged [OF l] by simp
  next
    case 2
    let ?u = "wr (upd_next (nodes t) new (next_of (nodes t) c)) (process_list t) t"
    have "rcu_list ?u (as @ c # bs)" using l' new by (simp add: rcu_list_def del: lseg_simps)
    then show ?thesis using 2 readers_see_unchanged [of ?u] do_link [OF new(3)] by (simp del: do_store.simps)
  next
    case 3
    then show ?thesis
      unfolding 3 update_stores [OF l' new(1,3)] using readers_see_replaced [OF l' new, of t] by simp
  qed
qed

text \<open>
  C3. \<open>list_update_rcu\<close>: on a list with a node of the process id, it returns 1 and hands
  back the old node; the list is the old one with that node replaced by the new one, and every
  reader that stands on any node of the old list, the replaced one included, goes on to
  the same nodes with the replacement made, and to the end of the list; the old nodes keep
  their process pointers; the lock is free again. Also at every moment in between, that is after any
  number of the stores that the search inside the lock and the read-side section gives, a reader
  that starts at the head finds the old list or the new one, and a reader that stands on a
  node of the old list finds the rest of it, unchanged or with the replacement made.
\<close>

theorem list_update_rcu_replaces:
  assumes "rcu_ready l s" and "rcu_list s (as @ c # bs)" and "procs s proc = Some p"
    and "pids_differ s as (pr_pid p)" and "pid_at s c = Some (pr_pid p)"
    and "new \<notin> set (as @ c # bs)" and "new \<noteq> 0" and "nodes s new = Some nn"
  shows "returns (list_update_rcu new proc l s) (\<lambda>(found, fr, s').
      found = 1 \<and> fr = Some c \<and> rcu_list s' (as @ new # bs) \<and> rcu_ready l s' \<and>
      (\<forall>ws x zs. ws @ x # zs = as @ c # bs \<longrightarrow>
         lseg (nodes s') x (x # map (\<lambda>y. if y = c then new else y) zs)) \<and>
      procs s' = procs s \<and> (\<forall>a. map_option nd_process (nodes s' a) = map_option nd_process (nodes s a))) \<and>
    returns (acquire l s) (\<lambda>s1. returns (list_update_search new proc (rcu_read_lock s1)) (\<lambda>(found, fr, sts).
      \<forall>k. returns (do_stores (take k sts) (rcu_read_lock s1)) (\<lambda>t.
        readers_see t (as @ c # bs) (as @ c # bs) id \<or>
        readers_see t (as @ c # bs) (as @ new # bs) (\<lambda>y. if y = c then new else y))))"
    (is "returns _ ?Q \<and> returns _ ?R")
proof
  let ?h1 = "upd_next (nodes s) new (next_of (nodes s) c)"
  let ?s' = "wr (relink as new ?h1) (rehead as new (process_list s)) (lock_cycle l s)"
  have l: "lseg (nodes s) (process_list s) (as @ c # bs)" using assms(2) by (simp add: rcu_list_def)
  have l1: "lseg ?h1 (process_list s) (as @ c # bs)" using l assms(6) by (subst lseg_upd_next) auto
  have "\<forall>a. map_option nd_process (nodes ?s' a) = map_option nd_process (nodes s a)"
    using relink_process [OF l1] upd_next_process [of "nodes s" new nn] assms(8) by simp
  then have "?Q (1, Some c, ?s')"
    using readers_see_replaced [OF l assms(6-8), of "lock_cycle l s"] rcu_ready_cycle [OF assms(1)]
    by (simp add: readers_see_def del: lseg_simps)
  then show "returns (list_update_rcu new proc l s) ?Q"
    using list_update_result [OF _ _ l assms(3-6,8)] assms(1) by (simp add: rcu_ready_def)
next
  let ?t = "push_off (lock_in l s)"
  have f: "nodes ?t = nodes s" "process_list ?t = process_list s" "procs ?t = procs s" by simp_all
  have "pids_differ ?t as (pr_pid p)" "pid_at ?t c = Some (pr_pid p)"
    using assms(4,5) pid_at_cong [of ?t s] by (simp_all add: pids_differ_def)
  then have "list_update_search new proc ?t = Ret (1, Some c, [SetNext new (next_of (nodes ?t) c), redirect as new])"
    using assms(2,3) by (intro list_update_search_found) (simp_all add: rcu_list_def)
  moreover have "rcu_list ?t (as @ c # bs)" using assms(2) by (simp add: rcu_list_def)
  ultimately show "returns (acquire l s) ?R"
    using update_prefix_views [of ?t as c bs new nn] assms(1,6-8)
    by (simp add: rcu_ready_def acquire_lock_in rcu_read_lock_def del: do_stores.simps)
qed

text \<open>A list of three processes and a node that is not in it, for the concrete instances.\<close>

definition demo_node :: "addr \<Rightarrow> t_node option" where
  "demo_node a = (if a = 1 then Some \<lparr>nd_process = 11, nd_next = 2\<rparr>
    else if a = 2 then Some \<lparr>nd_process = 12, nd_next = 3\<rparr>
    else if a = 3 then Some \<lparr>nd_process = 13, nd_next = 0\<rparr>
    else if a = 4 then Some \<lparr>nd_process = 14, nd_next = 0\<rparr> else None)"

definition demo_proc :: "addr \<Rightarrow> proc option" where
  "demo_proc a = (if a = 11 then Some (zero_proc\<lparr>pr_pid := 1\<rparr>)
    else if a = 12 \<or> a = 14 then Some (zero_proc\<lparr>pr_pid := 2\<rparr>)
    else if a = 13 then Some (zero_proc\<lparr>pr_pid := 3\<rparr>) else None)"

definition demo_rcu :: rcu where
  "demo_rcu = \<lparr>hart = 0, sstatus = (\<lambda>_. 2), cpus = (\<lambda>_. boot_cpu), locks = (\<lambda>_. initlock ''boot''),
     nodes = demo_node, procs = demo_proc, process_list = 1\<rparr>"

lemma demo_ready: "rcu_ready l demo_rcu" "rcu_list demo_rcu [1, 2, 3]"
  by (simp_all add: rcu_ready_def rcu_list_def demo_rcu_def intr_wf_def mycpu_def cpuid_def boot_cpu_def
      initlock_def demo_node_def)

theorem list_update_rcu_replaces_witness:
  "returns (list_update_rcu 4 14 L_rcu demo_rcu) (\<lambda>(found, fr, s'). found = 1 \<and> fr = Some 2 \<and> rcu_list s' [1, 4, 3])"
proof -
  have "rcu_ready L_rcu demo_rcu" "rcu_list demo_rcu ([1] @ 2 # [3])"
    by (simp_all add: demo_ready del: One_nat_def)
  then have "returns (list_update_rcu 4 14 L_rcu demo_rcu)
      (\<lambda>(found, fr, s'). found = 1 \<and> fr = Some 2 \<and> rcu_list s' ([1] @ 4 # [3]) \<and> rcu_ready L_rcu s' \<and>
      (\<forall>ws x zs. ws @ x # zs = [1] @ 2 # [3] \<longrightarrow>
         lseg (nodes s') x (x # map (\<lambda>y. if y = 2 then 4 else y) zs)) \<and>
      procs s' = procs demo_rcu \<and>
      (\<forall>a. map_option nd_process (nodes s' a) = map_option nd_process (nodes demo_rcu a)))"
    using list_update_rcu_replaces [of L_rcu demo_rcu "[1]" 2 "[3]" 14 "zero_proc\<lparr>pr_pid := 2\<rparr>" 4 "\<lparr>nd_process = 14, nd_next = 0\<rparr>"]
    by (auto simp: demo_rcu_def demo_node_def demo_proc_def pids_differ_def pid_at_def)
  then show ?thesis by (rule returns_mono) auto
qed

lemma list_del_missing:
  assumes wf: "intr_wf s" "\<not> lk_locked (locks s l)" and l: "lseg (nodes s) (process_list s) xs" "xs \<noteq> []"
    and "c \<notin> set xs"
  shows "list_del_rcu c l s = Ret (lock_cycle l s)"
proof -
  obtain a as' n where xs: "xs = a # as'" and n: "process_list s = a" "a \<noteq> 0" "nodes s a = Some n"
    "lseg (nodes s) (nd_next n) as'" using l by (cases xs) auto
  have "list_del_loop c (nd_next n) a (lock_in l s) = Some (Ret (lock_in l s))"
    using n assms(5) xs by (intro list_del_loop_missing) auto
  moreover have "release l (lock_in l s) = Ret (lock_cycle l s)"
    using release_lock_in_mach [of s l] wf by simp
  ultimately show ?thesis
    using wf n assms(5) xs
    by (simp add: list_del_rcu_def acquire_lock_in rcu_dereference_pointer_def get_node_def from_loop_def)
qed

text \<open>
  C4. \<open>list_del_rcu\<close>: deleting a node that is in the list removes exactly it; every reader
  that stands on a node of the old list, the deleted one included, goes on to the same nodes
  without the deleted one, and to the end of the list. On a list without the node nothing
  changes, and on the empty list it panics.
\<close>

theorem list_del_rcu_removes:
  assumes "rcu_ready l s" and "rcu_list s xs"
  shows "if xs = [] then list_del_rcu c l s = Panic ''list_del_rcu''
    else returns (list_del_rcu c l s) (\<lambda>s'. rcu_list s' (filter (\<lambda>y. y \<noteq> c) xs) \<and> rcu_ready l s' \<and>
      (\<forall>ws x zs. ws @ x # zs = xs \<longrightarrow> lseg (nodes s') x (x # filter (\<lambda>y. y \<noteq> c) zs)))"
proof (cases "c \<in> set xs")
  case True
  then obtain as bs where xs: "xs = as @ c # bs" by (auto simp: in_set_conv_decomp)
  let ?h = "relink as (next_of (nodes s) c) (nodes s)"
  have l: "lseg (nodes s) (process_list s) (as @ c # bs)" using assms(2) xs by (simp add: rcu_list_def)
  then have d: "distinct (as @ c # bs)" by (rule lseg_distinct)
  have rest: "lseg ?h (next_of (nodes s) c) bs" by (rule relink_rest [OF l])
  have "lseg ?h x (x # filter (\<lambda>y. y \<noteq> c) zs)" if x: "ws @ x # zs = as @ c # bs" for ws x zs
    using reader_view [OF l x rest] unfolding view_replaced(2) [OF d x] .
  moreover have "filter (\<lambda>y. y \<noteq> c) xs = as @ bs" using d xs by simp
  ultimately show ?thesis
    using assms(1) lseg_relinked [OF l rest] rcu_ready_cycle [OF assms(1)]
    by (auto simp: list_del_result [OF _ _ l] rcu_ready_def rcu_list_def xs)
next
  case False
  have [simp]: "filter (\<lambda>y. y \<noteq> c) xs = xs" using False by simp
  show ?thesis
  proof (cases "xs = []")
    case True
    with assms(2) show ?thesis by (simp add: rcu_list_def list_del_rcu_def)
  next
    case ne: False
    have "lseg (nodes s) x (x # filter (\<lambda>y. y \<noteq> c) zs)" if "ws @ x # zs = xs" for ws x zs
      using assms(2) that False by (auto simp: rcu_list_def lseg_append)
    moreover have "rcu_ready l (lock_cycle l s)" using rcu_ready_cycle [OF assms(1), of "nodes s" "process_list s"] by simp
    ultimately show ?thesis
      using assms False ne list_del_missing [of s l xs c] by (auto simp: rcu_ready_def rcu_list_def)
  qed
qed

theorem list_del_rcu_removes_witness:
  "returns (list_del_rcu 2 L_rcu demo_rcu) (\<lambda>s'. rcu_list s' [1, 3] \<and> lseg (nodes s') 2 [2, 3])"
proof -
  have "returns (list_del_rcu 2 L_rcu demo_rcu) (\<lambda>s'. rcu_list s' (filter (\<lambda>y. y \<noteq> 2) [1, 2, 3]) \<and> rcu_ready L_rcu s' \<and>
      (\<forall>ws x zs. ws @ x # zs = [1, 2, 3] \<longrightarrow> lseg (nodes s') x (x # filter (\<lambda>y. y \<noteq> 2) zs)))"
    using list_del_rcu_removes [OF demo_ready, of 2 L_rcu] by simp
  then show ?thesis
  proof (rule returns_mono, elim conjE, intro conjI)
    fix s' :: rcu
    assume "\<forall>ws x zs. ws @ x # zs = [1, 2, 3] \<longrightarrow> lseg (nodes s') x (x # filter (\<lambda>y. y \<noteq> 2) zs)"
    from this [rule_format, of "[1]" 2 "[3]"] show "lseg (nodes s') 2 [2, 3]" by simp
  qed simp
qed

text \<open>
  C6. \<open>list_del_from_proc_rcu\<close>: on a list with a node of the process id it returns 1, hands
  back the first such node and removes exactly it, and every reader of the old list goes on
  to the same nodes without it, to the end of the list.
\<close>

theorem list_del_from_proc_rcu_removes:
  assumes "rcu_ready l s" and "rcu_list s (as @ c # bs)" and "procs s proc = Some p"
    and "pids_differ s as (pr_pid p)" and "pid_at s c = Some (pr_pid p)"
  shows "returns (list_del_from_proc_rcu proc l s) (\<lambda>(found, fr, s').
    found = 1 \<and> fr = Some c \<and> rcu_list s' (as @ bs) \<and> rcu_ready l s' \<and>
    (\<forall>ws x zs. ws @ x # zs = as @ c # bs \<longrightarrow> lseg (nodes s') x (x # filter (\<lambda>y. y \<noteq> c) zs)) \<and>
    procs s' = procs s \<and> (\<forall>a. map_option nd_process (nodes s' a) = map_option nd_process (nodes s a)))"
proof -
  let ?h = "relink as (next_of (nodes s) c) (nodes s)"
  have l: "lseg (nodes s) (process_list s) (as @ c # bs)" using assms(2) by (simp add: rcu_list_def)
  then have d: "distinct (as @ c # bs)" by (rule lseg_distinct)
  have rest: "lseg ?h (next_of (nodes s) c) bs" by (rule relink_rest [OF l])
  have "lseg ?h x (x # filter (\<lambda>y. y \<noteq> c) zs)" if x: "ws @ x # zs = as @ c # bs" for ws x zs
    using reader_view [OF l x rest] unfolding view_replaced(2) [OF d x] .
  then show ?thesis
    using assms lseg_relinked [OF l rest] rcu_ready_cycle [OF assms(1)] relink_process [OF l]
    by (auto simp: list_del_from_proc_result [OF _ _ l] rcu_ready_def rcu_list_def)
qed

theorem list_del_from_proc_rcu_removes_witness:
  "returns (list_del_from_proc_rcu 11 L_rcu demo_rcu) (\<lambda>(found, fr, s'). found = 1 \<and> fr = Some 1 \<and> rcu_list s' [2, 3])"
proof (rule returns_mono [OF list_del_from_proc_rcu_removes [where as = "[]" and c = 1 and bs = "[2, 3]"]])
  show "rcu_ready L_rcu demo_rcu" "rcu_list demo_rcu ([] @ 1 # [2, 3])"
    by (simp_all add: demo_ready del: One_nat_def)
qed (auto simp: demo_rcu_def demo_node_def demo_proc_def pids_differ_def pid_at_def)

text \<open>
  C7. \<open>list_add_rcu\<close> puts a node that is not in the list at its front; the readers of the old
  list see no change.
\<close>

theorem list_add_rcu_front:
  assumes "rcu_ready l s" and "rcu_list s xs" and "node \<notin> set xs" and "node \<noteq> 0" and "nodes s node = Some n"
  shows "returns (list_add_rcu node l s) (\<lambda>s'. rcu_list s' (node # xs) \<and> rcu_ready l s' \<and>
    (\<forall>ws x zs. ws @ x # zs = xs \<longrightarrow> lseg (nodes s') x (x # zs)))"
proof -
  let ?h = "upd_next (nodes s) node (process_list s)"
  have l: "lseg ?h (process_list s) xs" using assms(2,3) by (simp add: rcu_list_def)
  then have "lseg ?h x (x # zs)" if "ws @ x # zs = xs" for ws x zs
    using that by (metis lseg_suffix)
  then show ?thesis
    using assms l rcu_ready_cycle [OF assms(1)]
    by (auto simp: list_add_result [of s l node n] rcu_ready_def rcu_list_def upd_next_apply)
qed

theorem list_add_rcu_front_witness:
  "returns (list_add_rcu 4 L_rcu demo_rcu) (\<lambda>s'. rcu_list s' [4, 1, 2, 3])"
proof (rule returns_mono [OF list_add_rcu_front])
  show "rcu_ready L_rcu demo_rcu" "rcu_list demo_rcu [1, 2, 3]" by (rule demo_ready)+
qed (auto simp: demo_rcu_def demo_node_def)

lemma list_del_from_proc_loop_missing:
  assumes "lseg (nodes s) cur xs" and "nodes s prev = Some q" and "nd_next q = cur"
    and "procs s proc = Some p" and "pids_differ s xs (pr_pid p)"
  shows "list_del_from_proc_loop proc cur prev s = Some (Ret (0, None, s))"
  using assms
proof (induction xs arbitrary: cur prev q)
  case Nil
  then show ?case by (subst list_del_from_proc_loop.simps) simp
next
  case (Cons a as)
  then obtain n cp where n: "nodes s a = Some n" "procs s (nd_process n) = Some cp" "pr_pid cp \<noteq> pr_pid p"
    by (auto simp: pid_at_Some)
  have "list_del_from_proc_loop proc cur prev s = list_del_from_proc_loop proc (nd_next n) cur s"
    using Cons.prems n by (subst list_del_from_proc_loop.simps) simp
  also have "\<dots> = Some (Ret (0, None, s))"
    using Cons.prems n by (intro Cons.IH) auto
  finally show ?case .
qed

text \<open>
  C13. With a process id that no node has, \<open>list_update_rcu\<close> and \<open>list_del_from_proc_rcu\<close>
  return 0 and leave the list and what \<open>ptr_to_free\<close> points to as they are. On the empty
  list both read the process of a null node before any test for it: they fault.
\<close>

theorem list_ops_no_match:
  assumes "rcu_ready l s" and "rcu_list s xs" and "procs s proc = Some p" and "pids_differ s xs (pr_pid p)"
    and "nodes s 0 = None"
  shows "if xs = [] then list_update_rcu new proc l s = Fault \<and> list_del_from_proc_rcu proc l s = Fault
    else list_update_rcu new proc l s = Ret (0, None, lock_cycle l s) \<and>
      list_del_from_proc_rcu proc l s = Ret (0, None, lock_cycle l s)"
proof (cases xs)
  case Nil
  with assms show ?thesis
    by (simp add: rcu_ready_def rcu_list_def list_update_rcu_def list_update_search_def list_del_from_proc_rcu_def acquire_lock_in
        rcu_read_lock_def rcu_dereference_pointer_def node_pid_def get_node_def)
next
  case (Cons a as')
  have wf: "intr_wf s" "\<not> lk_locked (locks s l)" using assms(1) by (simp_all add: rcu_ready_def)
  let ?t = "push_off (lock_in l s)"
  obtain n cp where n: "process_list s = a" "a \<noteq> 0" "nodes s a = Some n" "procs s (nd_process n) = Some cp"
    "pr_pid cp \<noteq> pr_pid p" "lseg (nodes s) (nd_next n) as'"
    using assms Cons by (auto simp: rcu_list_def pid_at_Some)
  have "pids_differ ?t as' (pr_pid p)"
    using assms(4) Cons pid_at_cong [of ?t s] by (simp add: pids_differ_def)
  then have "list_del_from_proc_loop proc (nd_next n) a ?t = Some (Ret (0, None, ?t))"
    using n assms(3) by (intro list_del_from_proc_loop_missing) auto
  moreover have "pop_off ?t = Ret (lock_in l s)" "release l (lock_in l s) = Ret (lock_cycle l s)"
    using read_section_inside [of s "nodes ?t" "process_list ?t" l]
      release_lock_in_mach [of s l] wf
    by simp_all
  ultimately have "list_del_from_proc_rcu proc l s = Ret (0, None, lock_cycle l s)"
    using wf assms(3) n
    by (simp add: list_del_from_proc_rcu_def acquire_lock_in rcu_read_lock_def rcu_read_unlock_def node_pid_def
        rcu_dereference_pointer_def get_node_def get_proc_def from_loop_def)
  with list_update_missing [OF wf _ _ assms(3,4)] assms(2) Cons show ?thesis
    by (simp add: rcu_list_def)
qed

theorem list_ops_no_match_witness:
  "list_update_rcu 4 13 L_rcu (demo_rcu\<lparr>process_list := 0\<rparr>) = Fault \<and>
   list_update_rcu 4 11 L_rcu (demo_rcu\<lparr>process_list := 2\<rparr>) = Ret (0, None, lock_cycle L_rcu (demo_rcu\<lparr>process_list := 2\<rparr>))"
proof -
  have r: "rcu_ready L_rcu (demo_rcu\<lparr>process_list := p\<rparr>)" for p
    using demo_ready(1) by (simp add: rcu_ready_def demo_rcu_def intr_wf_def mycpu_def cpuid_def intr_get_def)
  have "rcu_list (demo_rcu\<lparr>process_list := 0\<rparr>) []" "rcu_list (demo_rcu\<lparr>process_list := 2\<rparr>) [2, 3]"
    by (simp_all add: rcu_list_def demo_rcu_def demo_node_def)
  moreover have "pids_differ (demo_rcu\<lparr>process_list := 2\<rparr>) [2, 3] 1" "procs (demo_rcu\<lparr>process_list := p\<rparr>) = demo_proc"
    "nodes (demo_rcu\<lparr>process_list := p\<rparr>) 0 = None" for p
    by (simp_all add: demo_rcu_def demo_node_def demo_proc_def pid_at_def)
  ultimately show ?thesis
    using list_ops_no_match [OF r, of 0 "[]" 13 _ 4] list_ops_no_match [OF r, of 2 "[2, 3]" 11 _ 4]
    by (simp add: demo_proc_def)
qed

end
