(* ===== verification/Grace.thy ===== *)
theory Grace
  imports List_Proc
begin

text \<open>
  Grace periods: \<open>synchronize_rcu\<close> of kernel/list_proc.c against CPUs that go on running.

  \<open>gp\<close> is the machine with the state of one call of \<open>synchronize_rcu\<close> on CPU
  \<open>gp_self\<close>; \<open>gp_depth\<close> counts the read-side sections each CPU is in, and
  \<open>gp_old\<close> marks the CPUs that are still in a section they entered before the call. The
  other CPUs enter and leave read-side sections, mark themselves idle, switch context, and take
  and give back locks, each by the function of the kernel that does it, at any time and in
  any order: nothing in the kernel forbids an idle mark or a context switch inside a section, since
  the checks of \<open>sched\<close> (kernel/proc.c) only print.

  What a grace period promises to a reader depends on what that reader does.
  \<open>stays_in_section k\<close> says of a step that CPU \<open>k\<close>, if it is still in a section from before
  the call, does not spin for a lock, mark itself idle or switch context in it. A run of such steps
  is waited for. The kernel does not always keep to it: \<open>acquire\<close> marks the CPU idle while
  it spins, \<open>scheduler\<close> walks the list while it is marked idle, and \<open>sleep\<close>
  switches context inside a section.
\<close>

record gp =
  gp_mach :: mach
  gp_self :: nat
  gp_depth :: "nat \<Rightarrow> nat"
  gp_old :: "nat \<Rightarrow> bool"
  gp_sync :: sync

definition set_context :: "nat \<Rightarrow> kcontext \<Rightarrow> mach \<Rightarrow> mach" where
  "set_context j c m = m\<lparr>cpus := (cpus m)(j := (cpus m j)\<lparr>cpu_context := c\<rparr>)\<rparr>"

datatype gp_event = GpReadLock nat | GpReadUnlock nat | GpSpin nat lockid | GpGot nat lockid
  | GpRelease nat lockid | GpIdle nat bool | GpSwitch nat kcontext | GpSync

inductive gp_step :: "gp \<Rightarrow> gp_event \<Rightarrow> gp \<Rightarrow> bool" where
  gp_read_lock: "j \<noteq> gp_self g \<Longrightarrow>
    gp_step g (GpReadLock j) (g\<lparr>gp_mach := rcu_read_lock (on_hart j (gp_mach g)),
      gp_depth := (gp_depth g)(j := Suc (gp_depth g j))\<rparr>)"
| gp_read_unlock: "j \<noteq> gp_self g \<Longrightarrow> gp_depth g j = Suc d \<Longrightarrow>
    rcu_read_unlock (on_hart j (gp_mach g)) = Ret m \<Longrightarrow>
    gp_step g (GpReadUnlock j) (g\<lparr>gp_mach := m, gp_depth := (gp_depth g)(j := d),
      gp_old := (gp_old g)(j := gp_old g j \<and> d \<noteq> 0)\<rparr>)"
| gp_spin: "j \<noteq> gp_self g \<Longrightarrow>
    acquire_enter (locks (gp_mach g) l) (on_hart j (gp_mach g)) = Ret m \<Longrightarrow>
    gp_step g (GpSpin j l) (g\<lparr>gp_mach := m\<rparr>)"
| gp_got: "j \<noteq> gp_self g \<Longrightarrow> acquire_got (locks (gp_mach g) l) (on_hart j (gp_mach g)) = (lk, m) \<Longrightarrow>
    gp_step g (GpGot j l) (g\<lparr>gp_mach := set_lock l lk m\<rparr>)"
| gp_release: "j \<noteq> gp_self g \<Longrightarrow> release l (on_hart j (gp_mach g)) = Ret m \<Longrightarrow>
    gp_step g (GpRelease j l) (g\<lparr>gp_mach := m\<rparr>)"
| gp_idle: "j \<noteq> gp_self g \<Longrightarrow>
    gp_step g (GpIdle j b) (g\<lparr>gp_mach := set_idle b (on_hart j (gp_mach g))\<rparr>)"
| gp_switch: "j \<noteq> gp_self g \<Longrightarrow>
    gp_step g (GpSwitch j c) (g\<lparr>gp_mach := set_context j c (gp_mach g)\<rparr>)"
| gp_sync_step:
    "gp_step g GpSync (g\<lparr>gp_sync := sync_step (gp_self g) (cpus (gp_mach g)) (gp_sync g)\<rparr>)"

text \<open>The call starts: the old readers are the CPUs inside a section now.\<close>

definition gp_start :: "gp \<Rightarrow> bool" where
  "gp_start g \<longleftrightarrow> gp_sync g = sync_start \<and> (\<forall>j. gp_old g j \<longleftrightarrow> 0 < gp_depth g j)"

text \<open>Runs of steps that all satisfy \<open>P\<close>.\<close>

inductive gp_run :: "(gp \<Rightarrow> gp_event \<Rightarrow> bool) \<Rightarrow> gp \<Rightarrow> gp \<Rightarrow> bool" for P where
  gp_run_none: "gp_run P g g"
| gp_run_step: "gp_run P g g' \<Longrightarrow> gp_step g' e g'' \<Longrightarrow> P g' e \<Longrightarrow> gp_run P g g''"

definition stays_in_section :: "nat \<Rightarrow> gp \<Rightarrow> gp_event \<Rightarrow> bool" where
  "stays_in_section k g e \<longleftrightarrow> \<not> gp_old g k \<or>
     (case e of GpSpin j l \<Rightarrow> j \<noteq> k | GpIdle j b \<Rightarrow> j \<noteq> k \<or> \<not> b | GpSwitch j c \<Rightarrow> j \<noteq> k | _ \<Rightarrow> True)"

section \<open>The invariant\<close>

text \<open>The CPUs \<open>synchronize_rcu\<close> has sampled, and those it has passed in this scan.\<close>

fun sync_sampled :: "sync_pc \<Rightarrow> nat \<Rightarrow> bool" where
  "sync_sampled (SyncBoot i) k \<longleftrightarrow> k < i"
| "sync_sampled _ k \<longleftrightarrow> True"

fun sync_passed :: "sync_pc \<Rightarrow> nat \<Rightarrow> bool" where
  "sync_passed (SyncBoot i) k \<longleftrightarrow> False"
| "sync_passed (SyncScan i fin) k \<longleftrightarrow> fin \<and> k < i"
| "sync_passed SyncDone k \<longleftrightarrow> True"

definition gp_cpu_inv :: "nat \<Rightarrow> gp \<Rightarrow> bool" where
  "gp_cpu_inv k g \<longleftrightarrow>
     (gp_old g k \<longrightarrow> 0 < gp_depth g k \<and> \<not> cpu_idle (cpus (gp_mach g) k) \<and>
        (sync_sampled (sy_pc (gp_sync g)) k \<longrightarrow> \<not> sy_target (gp_sync g) k \<and>
           sy_cs (gp_sync g) k = cpu_context (cpus (gp_mach g) k))) \<and>
     (sync_passed (sy_pc (gp_sync g)) k \<longrightarrow> sy_target (gp_sync g) k)"

lemma cpu_fields_upd_mycpu:
  "(\<And>c. P (f c) = P c) \<Longrightarrow> P (cpus (upd_mycpu f s) k) = P (cpus s k)"
  by (simp add: upd_mycpu_def mycpu_def)

lemma cpus_on_hart [simp]: "cpus (on_hart j m) = cpus m"
  by (simp add: on_hart_def)

lemma push_off_cpu [simp]:
  "cpu_idle (cpus (push_off s) k) = cpu_idle (cpus s k)"
  "cpu_context (cpus (push_off s) k) = cpu_context (cpus s k)"
  by (simp_all add: push_off_def Let_def cpu_fields_upd_mycpu)

lemma pop_off_cpu:
  assumes "pop_off s = Ret m"
  shows "cpu_idle (cpus m k) = cpu_idle (cpus s k)" "cpu_context (cpus m k) = cpu_context (cpus s k)"
proof -
  from assms consider "m = upd_mycpu (\<lambda>c. c\<lparr>cpu_noff := cpu_noff c - 1\<rparr>) s"
    | "m = intr_on (upd_mycpu (\<lambda>c. c\<lparr>cpu_noff := cpu_noff c - 1\<rparr>) s)"
    by (auto simp: pop_off_def Let_def split: if_splits)
  then show "cpu_idle (cpus m k) = cpu_idle (cpus s k)" "cpu_context (cpus m k) = cpu_context (cpus s k)"
    by (cases; simp add: cpu_fields_upd_mycpu del: upd_mycpu_fields)+
qed

lemma set_idle_cpu [simp]:
  "cpu_idle (cpus (set_idle b s) k) = (if k = cpuid s then b else cpu_idle (cpus s k))"
  "cpu_context (cpus (set_idle b s) k) = cpu_context (cpus s k)"
  by (simp_all add: set_idle_def upd_mycpu_def mycpu_def)

lemma acquire_enter_cpu:
  assumes "acquire_enter lk s = Ret m"
  shows "cpu_idle (cpus m k) = (k = cpuid s \<or> cpu_idle (cpus s k))" "cpu_context (cpus m k) = cpu_context (cpus s k)"
  using assms by (auto simp: acquire_enter_def Let_def split: if_splits)

lemma acquire_got_cpu:
  assumes "acquire_got lk s = (lk', m)"
  shows "cpu_idle (cpus m k) = (k \<noteq> cpuid s \<and> cpu_idle (cpus s k))" "cpu_context (cpus m k) = cpu_context (cpus s k)"
  using assms by (auto simp: acquire_got_def split: if_splits)

lemma set_context_cpu [simp]:
  "cpu_idle (cpus (set_context j c m) k) = cpu_idle (cpus m k)"
  "cpu_context (cpus (set_context j c m) k) = (if k = j then c else cpu_context (cpus m k))"
  by (simp_all add: set_context_def)

lemma set_lock_cpus [simp]: "cpus (set_lock l lk m) = cpus m"
  by (simp add: set_lock_def)

lemma context_eq_refl [simp]: "context_eq c c"
  by (simp add: context_eq_def)

lemma context_eq_iff: "context_eq c d \<longleftrightarrow> c = d"
  by (cases c; cases d) (auto simp: context_eq_def)

lemma release_cpu:
  assumes "release l s = Ret m"
  shows "cpu_idle (cpus m k) = cpu_idle (cpus s k)" "cpu_context (cpus m k) = cpu_context (cpus s k)"
  using assms pop_off_cpu
  by (fastforce simp: release_def release_lk_def release_disown_def release_unlock_def Let_def split: if_splits res.splits)+

lemma gp_sync_inv:
  assumes "gp_cpu_inv k g" and "k < NCPU" and "k \<noteq> gp_self g"
  shows "gp_cpu_inv k (g\<lparr>gp_sync := sync_step (gp_self g) (cpus (gp_mach g)) (gp_sync g)\<rparr>)"
proof (cases "sy_pc (gp_sync g)")
  case (SyncBoot i)
  with assms show ?thesis
    by (cases "k = i") (auto simp: gp_cpu_inv_def sync_step_def less_Suc_eq)
next
  case (SyncScan i fin)
  with assms show ?thesis
    by (cases "k = i") (auto simp: gp_cpu_inv_def sync_step_def context_eq_iff less_Suc_eq)
next
  case SyncDone
  with assms show ?thesis by (auto simp: gp_cpu_inv_def sync_step_def)
qed

lemma gp_step_self: "gp_step g e g' \<Longrightarrow> gp_self g' = gp_self g"
  by (induction rule: gp_step.induct) simp_all

lemma gp_step_inv:
  "gp_step g e g' \<Longrightarrow> stays_in_section k g e \<Longrightarrow> gp_cpu_inv k g \<Longrightarrow> k < NCPU \<Longrightarrow> k \<noteq> gp_self g \<Longrightarrow> gp_cpu_inv k g'"
proof (induction rule: gp_step.induct)
  case (gp_read_lock j g)
  then show ?case by (auto simp: gp_cpu_inv_def rcu_read_lock_def)
next
  case (gp_read_unlock j g d m)
  then have "pop_off (on_hart j (gp_mach g)) = Ret m" by (simp add: rcu_read_unlock_def)
  from pop_off_cpu [OF this] gp_read_unlock show ?case by (auto simp: gp_cpu_inv_def)
next
  case (gp_spin j g l m)
  with acquire_enter_cpu [OF gp_spin(2)] show ?case by (auto simp: gp_cpu_inv_def stays_in_section_def)
next
  case (gp_got j g l lk m)
  with acquire_got_cpu [OF gp_got(2)] show ?case by (auto simp: gp_cpu_inv_def)
next
  case (gp_release j g l m)
  with release_cpu [OF gp_release(2)] show ?case by (auto simp: gp_cpu_inv_def)
next
  case (gp_idle j g b)
  then show ?case by (auto simp: gp_cpu_inv_def stays_in_section_def)
next
  case (gp_switch j g c)
  then show ?case by (auto simp: gp_cpu_inv_def stays_in_section_def)
next
  case (gp_sync_step g)
  then show ?case by (simp add: gp_sync_inv)
qed

lemma gp_run_inv:
  "gp_run (stays_in_section k) g g' \<Longrightarrow> gp_cpu_inv k g \<Longrightarrow> k < NCPU \<Longrightarrow> k \<noteq> gp_self g \<Longrightarrow>
   gp_cpu_inv k g' \<and> gp_self g' = gp_self g"
  by (induction rule: gp_run.induct) (auto dest: gp_step_self intro: gp_step_inv)

lemma gp_start_inv:
  "gp_start g \<Longrightarrow> gp_old g k \<longrightarrow> \<not> cpu_idle (cpus (gp_mach g) k) \<Longrightarrow> gp_cpu_inv k g"
  by (auto simp: gp_start_def gp_cpu_inv_def sync_start_def)

section \<open>What a run of synchronize_rcu does while the other CPUs stand still\<close>

lemma sync_boot_run:
  assumes "i + n \<le> NCPU" and "sy_pc y = SyncBoot i"
  shows "sy_pc ((sync_step c cs ^^ n) y) = SyncBoot (i + n) \<and>
    (\<forall>k. sy_target ((sync_step c cs ^^ n) y) k =
       (if i \<le> k \<and> k < i + n \<and> k \<noteq> c then cpu_idle (cs k) else sy_target y k)) \<and>
    (\<forall>k. sy_cs ((sync_step c cs ^^ n) y) k =
       (if i \<le> k \<and> k < i + n \<and> k \<noteq> c \<and> \<not> cpu_idle (cs k) then cpu_context (cs k) else sy_cs y k))"
  using assms(1)
proof (induction n)
  case 0
  then show ?case using assms(2) by auto
next
  case (Suc n)
  define z where "z = (sync_step c cs ^^ n) y"
  have step: "(sync_step c cs ^^ Suc n) y = sync_step c cs z" by (simp add: z_def)
  show ?case
    using Suc unfolding step z_def [symmetric] by (auto simp: sync_step_def less_Suc_eq)
qed

text \<open>A CPU lets a scan pass.\<close>

definition quiescent :: "nat \<Rightarrow> (nat \<Rightarrow> cpu) \<Rightarrow> sync \<Rightarrow> nat \<Rightarrow> bool" where
  "quiescent c cs y k \<longleftrightarrow> k = c \<or> sy_target y k \<or> cpu_idle (cs k) \<or> \<not> context_eq (sy_cs y k) (cpu_context (cs k))"

lemma sync_scan_run:
  assumes "i + n \<le> NCPU" and "sy_pc y = SyncScan i fin"
  shows "sy_pc ((sync_step c cs ^^ n) y) = SyncScan (i + n) (fin \<and> (\<forall>k. i \<le> k \<and> k < i + n \<longrightarrow> quiescent c cs y k)) \<and>
    (\<forall>k. sy_target ((sync_step c cs ^^ n) y) k =
       (if i \<le> k \<and> k < i + n \<and> k \<noteq> c then quiescent c cs y k else sy_target y k)) \<and>
    sy_cs ((sync_step c cs ^^ n) y) = sy_cs y"
  using assms(1)
proof (induction n)
  case 0
  then show ?case using assms(2) by auto
next
  case (Suc n)
  have all: "(\<forall>k. i \<le> k \<and> k < i + Suc n \<longrightarrow> P k) \<longleftrightarrow> (\<forall>k. i \<le> k \<and> k < i + n \<longrightarrow> P k) \<and> P (i + n)" for P
    by (auto simp: less_Suc_eq)
  define z where "z = (sync_step c cs ^^ n) y"
  have step: "(sync_step c cs ^^ Suc n) y = sync_step c cs z" by (simp add: z_def)
  show ?case
    using Suc unfolding step z_def [symmetric] all
    by (cases "i + n = c"; cases "quiescent c cs y (i + n)"; cases "sy_target y (i + n)")
      (auto simp: sync_step_def quiescent_def less_Suc_eq)
qed

lemma sync_frozen_run:
  "sy_pc ((sync_step c cs ^^ (2 * (NCPU + 1))) sync_start) =
     (if \<forall>k < NCPU. k \<noteq> c \<longrightarrow> cpu_idle (cs k) then SyncDone else SyncScan 0 True)"
proof -
  let ?f = "sync_step c cs"
  define y1 where "y1 = (?f ^^ NCPU) sync_start"
  define y2 where "y2 = ?f y1"
  define y3 where "y3 = (?f ^^ NCPU) y2"
  have split: "2 * (NCPU + 1) = Suc (NCPU + Suc NCPU)" by simp
  have run: "(?f ^^ (2 * (NCPU + 1))) sync_start = ?f y3"
    unfolding split y3_def y2_def y1_def by (simp only: funpow.simps funpow_add comp_apply)
  have y1: "sy_pc y1 = SyncBoot NCPU"
    "\<And>k. sy_target y1 k = (k < NCPU \<and> k \<noteq> c \<and> cpu_idle (cs k))"
    "\<And>k. k < NCPU \<Longrightarrow> k \<noteq> c \<Longrightarrow> \<not> cpu_idle (cs k) \<Longrightarrow> sy_cs y1 k = cpu_context (cs k)"
    using sync_boot_run [of 0 NCPU sync_start c cs] by (auto simp: y1_def sync_start_def)
  have y2: "y2 = y1\<lparr>sy_pc := SyncScan 0 True\<rparr>" by (simp add: y2_def sync_step_def y1)
  have "sy_pc y3 = SyncScan NCPU (\<forall>k<NCPU. quiescent c cs y2 k)"
    using sync_scan_run [of 0 NCPU y2 True c cs] y2 by (simp add: y3_def)
  moreover have "quiescent c cs y2 k \<longleftrightarrow> (k \<noteq> c \<longrightarrow> cpu_idle (cs k))" if "k < NCPU" for k
    using y1 that by (cases "k = c"; cases "cpu_idle (cs k)") (auto simp: quiescent_def y2)
  ultimately show ?thesis
    unfolding run by (simp add: sync_step_def)
qed

section \<open>What a run of synchronize_rcu does while the other CPUs move\<close>

text \<open>The state after \<open>n\<close> iterations.\<close>

fun sync_at :: "nat \<Rightarrow> cpu_env \<Rightarrow> nat \<Rightarrow> sync" where
  "sync_at c env 0 = sync_start"
| "sync_at c env (Suc n) = sync_step c (env n) (sync_at c env n)"

lemma sync_loop_at:
  assumes "sync_loop c env n y = Some z" and "y = sync_at c env n"
  shows "\<exists>m. z = sync_at c env m \<and> sy_pc z = SyncDone"
proof -
  have "y = sync_at c env n \<longrightarrow> (\<exists>m. z = sync_at c env m \<and> sy_pc z = SyncDone)"
    by (rule sync_loop.raw_induct [OF _ assms(1)]) (auto split: if_splits)
  with assms(2) show ?thesis by blast
qed

lemma sync_at_loop: "sy_pc (sync_at c env (n + m)) = SyncDone \<Longrightarrow> \<exists>z. sync_loop c env n (sync_at c env n) = Some z"
proof (induction m arbitrary: n)
  case 0
  then show ?case by (subst sync_loop.simps) simp
next
  case (Suc m)
  from Suc.IH [of "Suc n"] Suc.prems show ?case by (subst sync_loop.simps) simp
qed

lemma sync_loop_ends: "(\<exists>z. sync_loop c env 0 sync_start = Some z) \<longleftrightarrow> (\<exists>n. sy_pc (sync_at c env n) = SyncDone)"
  using sync_loop_at [of c env 0 sync_start] sync_at_loop [of c env 0] by fastforce

lemma sync_done_stays: "sy_pc (sync_at c env n) = SyncDone \<Longrightarrow> sy_pc (sync_at c env (n + m)) = SyncDone"
  by (induction m) (simp_all add: sync_step_def)

lemma sync_boot_at:
  assumes "n \<le> NCPU"
  shows "sy_pc (sync_at c env n) = SyncBoot n \<and>
    (\<forall>k<n. k \<noteq> c \<longrightarrow> sy_target (sync_at c env n) k = cpu_idle (env k k) \<and>
       (\<not> cpu_idle (env k k) \<longrightarrow> sy_cs (sync_at c env n) k = cpu_context (env k k)))"
  using assms
proof (induction n)
  case (Suc n)
  then show ?case by (auto simp: sync_step_def less_Suc_eq)
qed (simp add: sync_start_def)

text \<open>CPU \<open>k\<close> lets the scan that starts at iteration \<open>b\<close> pass.\<close>

definition lets_pass :: "cpu_env \<Rightarrow> sync \<Rightarrow> nat \<Rightarrow> nat \<Rightarrow> bool" where
  "lets_pass env y b k \<longleftrightarrow> sy_target y k \<or> cpu_idle (env (b + k) k) \<or> sy_cs y k \<noteq> cpu_context (env (b + k) k)"

lemma sync_scan_at:
  assumes "sy_pc (sync_at c env b) = SyncScan 0 True" and "n \<le> NCPU"
  shows "sy_pc (sync_at c env (b + n)) = SyncScan n (\<forall>k<n. k \<noteq> c \<longrightarrow> lets_pass env (sync_at c env b) b k) \<and>
    (\<forall>k. sy_target (sync_at c env (b + n)) k =
      (if k < n \<and> k \<noteq> c then lets_pass env (sync_at c env b) b k else sy_target (sync_at c env b) k)) \<and>
    sy_cs (sync_at c env (b + n)) = sy_cs (sync_at c env b)"
  using assms(2)
proof (induction n)
  case 0
  then show ?case using assms(1) by simp
next
  case (Suc n)
  have all: "(\<forall>k<Suc n. P k) \<longleftrightarrow> (\<forall>k<n. P k) \<and> P n" for P by (auto simp: less_Suc_eq)
  show ?case
    using Suc unfolding all
    by (cases "n = c"; cases "lets_pass env (sync_at c env b) b n"; cases "sy_target (sync_at c env b) n")
      (auto simp: sync_step_def lets_pass_def context_eq_iff less_Suc_eq)
qed

text \<open>
  The iteration at which scan \<open>r\<close> looks at CPU \<open>k\<close>; what it finds there when it passes; that the CPU
  has been passed before scan \<open>r\<close>.
\<close>

definition scan_at :: "nat \<Rightarrow> nat \<Rightarrow> nat" where
  "scan_at r k = Suc r * (NCPU + 1) + k"

definition quiet :: "cpu_env \<Rightarrow> nat \<Rightarrow> nat \<Rightarrow> bool" where
  "quiet env r k \<longleftrightarrow> cpu_idle (env (scan_at r k) k) \<or> cpu_context (env (scan_at r k) k) \<noteq> cpu_context (env k k)"

definition quiet_before :: "cpu_env \<Rightarrow> nat \<Rightarrow> nat \<Rightarrow> bool" where
  "quiet_before env r k \<longleftrightarrow> cpu_idle (env k k) \<or> (\<exists>q<r. quiet env q k)"

lemma quiet_before_Suc: "quiet_before env (Suc r) k \<longleftrightarrow> quiet_before env r k \<or> quiet env r k"
  by (auto simp: quiet_before_def less_Suc_eq)

definition scan_state :: "nat \<Rightarrow> cpu_env \<Rightarrow> nat \<Rightarrow> bool" where
  "scan_state c env r \<longleftrightarrow> sy_pc (sync_at c env (scan_at r 0)) = SyncScan 0 True \<and>
     (\<forall>k<NCPU. k \<noteq> c \<longrightarrow> sy_target (sync_at c env (scan_at r 0)) k = quiet_before env r k \<and>
       (\<not> cpu_idle (env k k) \<longrightarrow> sy_cs (sync_at c env (scan_at r 0)) k = cpu_context (env k k)))"

lemma scan_state_first: "scan_state c env 0"
  using sync_boot_at [of NCPU c env] by (simp add: scan_state_def scan_at_def quiet_before_def sync_step_def)

lemma scan_state_next:
  assumes "scan_state c env r"
  shows "if \<forall>k<NCPU. k \<noteq> c \<longrightarrow> quiet_before env (Suc r) k then sy_pc (sync_at c env (scan_at (Suc r) 0)) = SyncDone
    else scan_state c env (Suc r)"
proof -
  let ?b = "scan_at r 0"
  have next_b: "scan_at (Suc r) 0 = Suc (?b + NCPU)" by (simp add: scan_at_def)
  have pass: "lets_pass env (sync_at c env ?b) ?b k \<longleftrightarrow> quiet_before env (Suc r) k" if "k < NCPU" "k \<noteq> c" for k
  proof -
    have "?b + k = scan_at r k" by (simp add: scan_at_def)
    with assms that show ?thesis
      by (cases "cpu_idle (env k k)")
        (auto simp: lets_pass_def quiet_before_Suc quiet_def scan_state_def, auto simp: quiet_before_def)
  qed
  have "sy_pc (sync_at c env ?b) = SyncScan 0 True" using assms by (simp add: scan_state_def)
  note scan = sync_scan_at [OF this order_refl]
  have all: "(\<forall>k<NCPU. k \<noteq> c \<longrightarrow> lets_pass env (sync_at c env ?b) ?b k) \<longleftrightarrow> (\<forall>k<NCPU. k \<noteq> c \<longrightarrow> quiet_before env (Suc r) k)"
    using pass by simp
  show ?thesis
    using scan assms pass unfolding all by (auto simp: next_b scan_state_def sync_step_def)
qed

lemma sync_ends_iff:
  "(\<exists>n. sy_pc (sync_at c env n) = SyncDone) \<longleftrightarrow> (\<forall>k<NCPU. k \<noteq> c \<longrightarrow> (\<exists>r. quiet_before env r k))"
proof
  assume "\<exists>n. sy_pc (sync_at c env n) = SyncDone"
  then obtain n where n: "sy_pc (sync_at c env n) = SyncDone" ..
  have "\<exists>r. \<forall>k<NCPU. k \<noteq> c \<longrightarrow> quiet_before env r k"
  proof (rule ccontr)
    assume "\<nexists>r. \<forall>k<NCPU. k \<noteq> c \<longrightarrow> quiet_before env r k"
    then have "scan_state c env r" for r
      using scan_state_first scan_state_next by (induction r) (metis (full_types))+
    then have "sy_pc (sync_at c env (scan_at n 0)) = SyncScan 0 True" by (simp add: scan_state_def)
    moreover have "scan_at n 0 = n + (scan_at n 0 - n)" by (simp add: scan_at_def)
    ultimately show False using sync_done_stays [OF n, of "scan_at n 0 - n"] by simp
  qed
  then show "\<forall>k<NCPU. k \<noteq> c \<longrightarrow> (\<exists>r. quiet_before env r k)" by blast
next
  assume "\<forall>k<NCPU. k \<noteq> c \<longrightarrow> (\<exists>r. quiet_before env r k)"
  then obtain f where f: "\<And>k. k < NCPU \<Longrightarrow> k \<noteq> c \<Longrightarrow> quiet_before env (f k) k" by metis
  define r where "r = Max (f ` {..<NCPU})"
  have "quiet_before env (Suc r) k" if "k < NCPU" "k \<noteq> c" for k
  proof -
    have "f k \<le> r" using that(1) by (auto simp: r_def)
    then show ?thesis using f [OF that] by (auto simp: quiet_before_def less_Suc_eq_le)
  qed
  then have all: "\<forall>k<NCPU. k \<noteq> c \<longrightarrow> quiet_before env (Suc r) k" by blast
  have "\<exists>q. scan_state c env q \<and> (\<forall>k<NCPU. k \<noteq> c \<longrightarrow> quiet_before env (Suc q) k)"
  proof (rule ccontr)
    assume no: "\<nexists>q. scan_state c env q \<and> (\<forall>k<NCPU. k \<noteq> c \<longrightarrow> quiet_before env (Suc q) k)"
    then have "scan_state c env q" for q
      using scan_state_first scan_state_next by (induction q) (metis (full_types))+
    with no all show False by blast
  qed
  then obtain q where "scan_state c env q" "\<forall>k<NCPU. k \<noteq> c \<longrightarrow> quiet_before env (Suc q) k" by blast
  with scan_state_next [of c env q] show "\<exists>n. sy_pc (sync_at c env n) = SyncDone" by auto
qed

text \<open>The grace period of a call on CPU \<open>c\<close> ends.\<close>

definition grace_ends :: "nat \<Rightarrow> cpu_env \<Rightarrow> bool" where
  "grace_ends c env \<longleftrightarrow> (\<forall>k<NCPU. k \<noteq> c \<longrightarrow> cpu_idle (env k k) \<or> (\<exists>r. quiet env r k))"

lemma sync_loop_grace: "(\<exists>z. sync_loop c env 0 sync_start = Some z) \<longleftrightarrow> grace_ends c env"
  unfolding sync_loop_ends sync_ends_iff by (auto simp: grace_ends_def quiet_before_def)

lemma synchronize_result:
  assumes "rcu_ready l s"
  shows "synchronize_rcu env c l s = (if grace_ends c env then Ret (lock_cycle l s) else NoReturn)"
proof -
  have "release l (lock_in l s) = Ret (lock_cycle l s)"
    using assms by (simp add: rcu_ready_def release_lock_in_mach)
  with assms sync_loop_grace [of c env] show ?thesis
    by (auto simp: synchronize_rcu_def rcu_ready_def acquire_lock_in split: option.split)
qed

section \<open>Properties of grace periods\<close>

text \<open>
  C1. A grace period waits for a reader: however the steps of \<open>synchronize_rcu\<close> interleave with
  those of the other CPUs, which may do anything, when the call is done, a CPU other than the caller's
  is out of the read-side section it was in when the call started, provided this CPU was not marked
  idle at the start and does not spin for a lock, mark itself idle or switch context before it leaves
  that section.
\<close>

theorem synchronize_rcu_waits_for_readers:
  assumes "gp_start g" and "gp_run (stays_in_section k) g g'" and "sy_pc (gp_sync g') = SyncDone"
    and "gp_old g k \<longrightarrow> \<not> cpu_idle (cpus (gp_mach g) k)" and "k < NCPU" and "k \<noteq> gp_self g"
  shows "\<not> gp_old g' k"
  using gp_run_inv [OF assms(2) gp_start_inv [OF assms(1,4)] assms(5,6)] assms(3) by (auto simp: gp_cpu_inv_def)

definition all_idle :: "nat \<Rightarrow> cpu" where
  "all_idle _ = boot_cpu\<lparr>cpu_idle := True\<rparr>"

text \<open>CPU 1 is in a read-side section when CPU 0 calls \<open>synchronize_rcu\<close>; the others are idle.\<close>

definition gp_demo :: gp where
  "gp_demo = \<lparr>gp_mach = boot_mach\<lparr>cpus := all_idle(1 := boot_cpu\<lparr>cpu_noff := 1\<rparr>), sstatus := (\<lambda>_. 0)\<rparr>, gp_self = 0,
     gp_depth = (\<lambda>_. 0)(1 := 1), gp_old = (\<lambda>_. False)(1 := True), gp_sync = sync_start\<rparr>"

lemma gp_demo_start: "gp_start gp_demo"
  by (simp add: gp_start_def gp_demo_def)

lemma gp_sync_steps:
  assumes "gp_run P g g'" and "\<And>h. P h GpSync"
  shows "gp_run P g (g'\<lparr>gp_sync := (sync_step (gp_self g') (cpus (gp_mach g')) ^^ n) (gp_sync g')\<rparr>)"
proof (induction n)
  case (Suc n)
  from gp_run_step [OF Suc gp_sync_step assms(2)] show ?case by simp
qed (simp add: assms(1))

lemma gp_sync_done:
  assumes "gp_run P g g'" and "\<And>h. P h GpSync" and "gp_sync g' = sync_start"
    and "\<forall>k < NCPU. k \<noteq> gp_self g' \<longrightarrow> cpu_idle (cpus (gp_mach g') k)"
  shows "\<exists>y. gp_run P g (g'\<lparr>gp_sync := y\<rparr>) \<and> sy_pc y = SyncDone"
  using gp_sync_steps [OF assms(1,2), of "2 * (NCPU + 1)"] sync_frozen_run [of "gp_self g'" "cpus (gp_mach g')"] assms(3,4)
  by auto

theorem synchronize_rcu_waits_for_readers_witness:
  "\<exists>g. gp_run (stays_in_section 1) gp_demo g \<and> gp_old gp_demo 1 \<and> sy_pc (gp_sync g) = SyncDone \<and> \<not> gp_old g 1"
proof -
  let ?m = "on_hart 1 (gp_mach gp_demo)" and ?P = "stays_in_section 1"
  have noff: "cpu_noff (mycpu ?m) = 1" "\<not> intr_get ?m"
    by (simp_all add: on_hart_def gp_demo_def mycpu_def cpuid_def boot_mach_def boot_cpu_def intr_get_def)
  then obtain m where m: "rcu_read_unlock ?m = Ret m"
    using pop_off_returns [of ?m] by (auto simp: intr_wf_def rcu_read_unlock_def)
  define g1 where "g1 = gp_demo\<lparr>gp_mach := m, gp_depth := (gp_depth gp_demo)(1 := 0),
    gp_old := (gp_old gp_demo)(1 := gp_old gp_demo 1 \<and> (0::nat) \<noteq> 0)\<rparr>"
  define g2 where "g2 = g1\<lparr>gp_mach := set_idle True (on_hart 1 m)\<rparr>"
  have r1: "gp_run ?P gp_demo g1"
    unfolding g1_def by (rule gp_run_step [OF gp_run_none gp_read_unlock [OF _ _ m]])
      (simp_all add: gp_demo_def stays_in_section_def)
  have "gp_step g1 (GpIdle 1 True) g2"
    using gp_idle [of 1 g1 True] unfolding g2_def by (simp add: g1_def gp_demo_def)
  then have r2: "gp_run ?P gp_demo g2"
    by (rule gp_run_step [OF r1]) (simp add: stays_in_section_def g1_def)
  have "\<forall>k < NCPU. k \<noteq> gp_self g2 \<longrightarrow> cpu_idle (cpus (gp_mach g2) k)"
    using pop_off_cpu(1) [of ?m m] m
    by (auto simp: g2_def g1_def gp_demo_def rcu_read_unlock_def all_idle_def boot_cpu_def NCPU_def)
  with gp_sync_done [OF r2] obtain y where y: "gp_run ?P gp_demo (g2\<lparr>gp_sync := y\<rparr>)" "sy_pc y = SyncDone"
    by (auto simp: g2_def g1_def gp_demo_def stays_in_section_def)
  then have "\<not> gp_old (g2\<lparr>gp_sync := y\<rparr>) 1"
    by (intro synchronize_rcu_waits_for_readers [OF gp_demo_start]) (simp_all add: gp_demo_def boot_cpu_def NCPU_def)
  with y show ?thesis by (intro exI [of _ "g2\<lparr>gp_sync := y\<rparr>"]) (simp add: gp_demo_def)
qed

text \<open>
  C14. The condition on readers is needed, and \<open>acquire\<close> breaks it: when a CPU that is in a
  read-side section since before the call starts to take a lock, which marks it idle while it
  spins, and the other CPUs are idle, \<open>synchronize_rcu\<close> runs to its end by its own steps alone
  although that CPU is still in that section.
\<close>

theorem synchronize_rcu_misses_spinning_reader:
  assumes "gp_start g" and "gp_old g k" and "k < NCPU" and "k \<noteq> gp_self g"
    and "\<forall>j < NCPU. j \<noteq> gp_self g \<and> j \<noteq> k \<longrightarrow> cpu_idle (cpus (gp_mach g) j)"
    and "acquire_enter (locks (gp_mach g) l) (on_hart k (gp_mach g)) = Ret m"
  shows "\<exists>y. gp_run (\<lambda>_ e. e = GpSync) (g\<lparr>gp_mach := m\<rparr>) (g\<lparr>gp_mach := m, gp_sync := y\<rparr>) \<and>
    sy_pc y = SyncDone \<and> gp_old (g\<lparr>gp_mach := m, gp_sync := y\<rparr>) k \<and> 0 < gp_depth (g\<lparr>gp_mach := m, gp_sync := y\<rparr>) k"
proof -
  have idle: "\<forall>j < NCPU. j \<noteq> gp_self g \<longrightarrow> cpu_idle (cpus m j)"
    using acquire_enter_cpu(1) [OF assms(6)] assms(5) by (auto simp: on_hart_def cpuid_def)
  obtain y where "gp_run (\<lambda>_ e. e = GpSync) (g\<lparr>gp_mach := m\<rparr>) (g\<lparr>gp_mach := m, gp_sync := y\<rparr>)" "sy_pc y = SyncDone"
    using gp_sync_done [OF gp_run_none, of "\<lambda>_ e. e = GpSync" "g\<lparr>gp_mach := m\<rparr>"] idle assms(1)
    by (auto simp: gp_start_def)
  with assms(1,2) show ?thesis by (auto simp: gp_start_def)
qed

theorem synchronize_rcu_misses_spinning_reader_witness:
  "\<exists>m y. acquire_enter (locks (gp_mach gp_demo) L_pr) (on_hart 1 (gp_mach gp_demo)) = Ret m \<and>
    gp_run (\<lambda>_ e. e = GpSync) (gp_demo\<lparr>gp_mach := m\<rparr>) (gp_demo\<lparr>gp_mach := m, gp_sync := y\<rparr>) \<and> sy_pc y = SyncDone"
proof -
  obtain m where m: "acquire_enter (locks (gp_mach gp_demo) L_pr) (on_hart 1 (gp_mach gp_demo)) = Ret m"
    by (simp add: acquire_enter_def holding_def gp_demo_def boot_mach_def initlock_def Let_def)
  with synchronize_rcu_misses_spinning_reader [OF gp_demo_start, of 1 L_pr m] show ?thesis
    by (auto simp: gp_demo_def all_idle_def NCPU_def)
qed

text \<open>
  C16. When \<open>synchronize_rcu\<close> returns, for CPUs that may be any at each of its iterations: with the
  writers' lock free it returns, the lock given back, exactly when every other CPU is idle when the
  bootstrapping loop samples it, or one of the repeated scans finds it idle or with a context
  other than the sampled one. Otherwise it polls forever.
\<close>

theorem synchronize_rcu_returns:
  assumes "rcu_ready l s"
  shows "synchronize_rcu env c l s =
    (if \<forall>k < NCPU. k \<noteq> c \<longrightarrow> cpu_idle (env k k) \<or>
        (\<exists>r. let n = Suc r * (NCPU + 1) + k in cpu_idle (env n k) \<or> cpu_context (env n k) \<noteq> cpu_context (env k k))
     then Ret (lock_cycle l s) else NoReturn)"
  using synchronize_result [OF assms, of env c] unfolding grace_ends_def quiet_def scan_at_def Let_def .

text \<open>CPU 1 leaves its context at iteration 7; without that, the call never returns.\<close>

theorem synchronize_rcu_returns_witness:
  "synchronize_rcu (\<lambda>n k. if n < 7 then boot_cpu else boot_cpu\<lparr>cpu_context := zero_context\<lparr>cx_ra := 1\<rparr>\<rparr>) 0 L_rcu boot_mach =
     Ret (lock_cycle L_rcu boot_mach) \<and>
   synchronize_rcu (\<lambda>n k. boot_cpu) 0 L_rcu boot_mach = NoReturn"
proof -
  have r: "rcu_ready L_rcu boot_mach"
    by (simp add: rcu_ready_def intr_wf_def mycpu_def cpuid_def boot_mach_def boot_cpu_def initlock_def)
  have "(\<forall>k < NCPU. k \<noteq> 0 \<longrightarrow> P k) \<longleftrightarrow> P 1" for P by (auto simp: NCPU_def less_Suc_eq numeral_2_eq_2)
  moreover have "\<exists>r. \<not> r * 3 + 4 < (7::nat)" by (intro exI [of _ 1]) simp
  ultimately show ?thesis
    by (simp add: synchronize_rcu_returns [OF r] Let_def) (simp add: NCPU_def boot_cpu_def zero_context_def)
qed

end
