(* ===== verification/User_Text.thy ===== *)
theory User_Text
  imports Prelude
begin

text \<open>
  The text utilities user/grep.c, user/cat.c, user/wc.c and user/echo.c.

  They work on C strings as lists of characters without the terminating zero, and call the
  kernel through the system calls of \<open>syscalls\<close>, on a state \<open>'w\<close> of the world outside
  the program. A loop over \<open>read\<close> is a partial function, since \<open>read\<close> need never
  report the end of its input. \<open>Exited\<close> is a call of \<open>exit\<close>.

  The matcher of grep is shown to decide the denotation of its patterns, and grep, cat and
  wc to compute what they should on any way the kernel may cut the input into pieces.
\<close>

section \<open>System calls of a program\<close>

text \<open>\<open>read\<close> gives the count it returns and the bytes it stores; \<open>msg\<close> is formatted output.\<close>

record 'w syscalls =
  sc_read :: "int \<Rightarrow> nat \<Rightarrow> 'w \<Rightarrow> int \<times> string \<times> 'w"
  sc_write :: "int \<Rightarrow> string \<Rightarrow> 'w \<Rightarrow> int \<times> 'w"
  sc_open :: "string \<Rightarrow> nat \<Rightarrow> 'w \<Rightarrow> int \<times> 'w"
  sc_close :: "int \<Rightarrow> 'w \<Rightarrow> 'w"
  sc_msg :: "int \<Rightarrow> string \<Rightarrow> 'w \<Rightarrow> 'w"

datatype ('a, 'w) uout = Done 'a 'w | Exited int 'w

section \<open>grep: the matcher\<close>

fun matchhere :: "string \<Rightarrow> string \<Rightarrow> bool"
and matchstar :: "char \<Rightarrow> string \<Rightarrow> string \<Rightarrow> bool" where
  "matchhere [] text = True"
| "matchhere (c # re) text =
     (if re \<noteq> [] \<and> hd re = CHR ''*'' then matchstar c (tl re) text
      else if c = CHR ''$'' \<and> re = [] then text = []
      else case text of [] \<Rightarrow> False
           | t # ts \<Rightarrow> (if c = CHR ''.'' \<or> c = t then matchhere re ts else False))"
| "matchstar c re text =
     (if matchhere re text then True
      else case text of [] \<Rightarrow> False
           | t # ts \<Rightarrow> (if t = c \<or> c = CHR ''.'' then matchstar c re ts else False))"

fun match_from :: "string \<Rightarrow> string \<Rightarrow> bool" where
  "match_from re text =
     (if matchhere re text then True else case text of [] \<Rightarrow> False | t # ts \<Rightarrow> match_from re ts)"

definition match :: "string \<Rightarrow> string \<Rightarrow> bool" where
  "match re text =
     (if re \<noteq> [] \<and> hd re = CHR ''^'' then matchhere (tl re) text else match_from re text)"

section \<open>grep: the buffer\<close>

definition NUL :: char where "NUL = CHR 0x00"
definition NL :: char where "NL = CHR 0x0A"

text \<open>
  The line loop: \<open>strchr(p, newline)\<close> stops at a zero byte; the lines that match are
  written, and what follows the last newline is what remains at \<open>p\<close>.
\<close>

definition next_line :: "string \<Rightarrow> (string \<times> string) option" where
  "next_line p =
     (let seen = takeWhile (\<lambda>c. c \<noteq> NUL \<and> c \<noteq> NL) p; more = dropWhile (\<lambda>c. c \<noteq> NUL \<and> c \<noteq> NL) p
      in if more \<noteq> [] \<and> hd more = NL then Some (seen, tl more) else None)"

lemma next_line_shorter: "next_line p = Some (ln, q) \<Longrightarrow> length q < length p"
proof -
  assume "next_line p = Some (ln, q)"
  then have d: "dropWhile (\<lambda>c. c \<noteq> NUL \<and> c \<noteq> NL) p \<noteq> []" and q: "q = tl (dropWhile (\<lambda>c. c \<noteq> NUL \<and> c \<noteq> NL) p)"
    by (auto simp: next_line_def Let_def split: if_splits)
  have "length (dropWhile (\<lambda>c. c \<noteq> NUL \<and> c \<noteq> NL) p) \<le> length p" by (rule length_dropWhile_le)
  with d show ?thesis unfolding q by (cases "dropWhile (\<lambda>c. c \<noteq> NUL \<and> c \<noteq> NL) p") auto
qed

function grep_lines :: "'w syscalls \<Rightarrow> string \<Rightarrow> string \<Rightarrow> 'w \<Rightarrow> string \<times> 'w" where
  "grep_lines sc pattern p w =
     (case next_line p of None \<Rightarrow> (p, w)
      | Some (ln, q) \<Rightarrow>
          grep_lines sc pattern q
            (if match pattern ln then snd (sc_write sc 1 (ln @ [NL]) w) else w))"
  by pat_completeness auto
termination
  by (relation "measure (\<lambda>(sc, pattern, p, w). length p)") (auto dest: next_line_shorter)

text \<open>\<open>buf\<close> is \<open>buf[0..m-1]\<close>; the array has 1024 bytes.\<close>

partial_function (option) grep_loop ::
    "'w syscalls \<Rightarrow> string \<Rightarrow> int \<Rightarrow> string \<Rightarrow> 'w \<Rightarrow> 'w option" where
  "grep_loop sc pattern fd buf w =
     (let (n, bs, w1) = sc_read sc fd (1024 - length buf - 1) w
      in if n > 0 then
           (let (p, w2) = grep_lines sc pattern (buf @ bs) w1
            in grep_loop sc pattern fd p w2)
         else Some w1)"

definition grep :: "'w syscalls \<Rightarrow> string \<Rightarrow> int \<Rightarrow> 'w \<Rightarrow> 'w option" where
  "grep sc pattern fd w = grep_loop sc pattern fd [] w"

fun grep_files :: "'w syscalls \<Rightarrow> string \<Rightarrow> string list \<Rightarrow> 'w \<Rightarrow> (unit, 'w) uout option" where
  "grep_files sc pattern [] w = Some (Exited 0 w)"
| "grep_files sc pattern (f # fs) w =
     (let (fd, w1) = sc_open sc f 0 w
      in if fd < 0 then Some (Exited 1 (sc_msg sc 1 (''grep: cannot open '' @ f @ [NL]) w1))
         else case grep sc pattern fd w1 of None \<Rightarrow> None
              | Some w2 \<Rightarrow> grep_files sc pattern fs (sc_close sc fd w2))"

definition grep_main :: "'w syscalls \<Rightarrow> string list \<Rightarrow> 'w \<Rightarrow> (unit, 'w) uout option" where
  "grep_main sc argv w =
     (if length argv \<le> 1 then Some (Exited 1 (sc_msg sc 2 (''usage: grep pattern [file ...]'' @ [NL]) w))
      else if length argv \<le> 2 then map_option (Exited 0) (grep sc (argv ! 1) 0 w)
      else grep_files sc (argv ! 1) (drop 2 argv) w)"

section \<open>cat, wc, echo\<close>

partial_function (option) cat :: "'w syscalls \<Rightarrow> int \<Rightarrow> 'w \<Rightarrow> (unit, 'w) uout option" where
  "cat sc fd w =
     (let (n, bs, w1) = sc_read sc fd 512 w
      in if n > 0 then
           (let (r, w2) = sc_write sc 1 bs w1
            in if r \<noteq> n then Some (Exited 1 (sc_msg sc 2 (''cat: write error'' @ [NL]) w2))
               else cat sc fd w2)
         else if n < 0 then Some (Exited 1 (sc_msg sc 2 (''cat: read error'' @ [NL]) w1))
         else Some (Done () w1))"

fun cat_files :: "'w syscalls \<Rightarrow> string list \<Rightarrow> 'w \<Rightarrow> (unit, 'w) uout option" where
  "cat_files sc [] w = Some (Exited 0 w)"
| "cat_files sc (f # fs) w =
     (let (fd, w1) = sc_open sc f 0 w
      in if fd < 0 then Some (Exited 1 (sc_msg sc 2 (''cat: cannot open '' @ f @ [NL]) w1))
         else case cat sc fd w1 of None \<Rightarrow> None
              | Some (Exited e w2) \<Rightarrow> Some (Exited e w2)
              | Some (Done _ w2) \<Rightarrow> cat_files sc fs (sc_close sc fd w2))"

definition cat_main :: "'w syscalls \<Rightarrow> string list \<Rightarrow> 'w \<Rightarrow> (unit, 'w) uout option" where
  "cat_main sc argv w =
     (if length argv \<le> 1 then
        (case cat sc 0 w of None \<Rightarrow> None
         | Some (Exited e w1) \<Rightarrow> Some (Exited e w1)
         | Some (Done _ w1) \<Rightarrow> Some (Exited 0 w1))
      else cat_files sc (tl argv) w)"

text \<open>
  The counters of \<open>wc\<close>: lines, words, characters, which are C integers of 32 bits and wrap around, and
  whether a word is open.
\<close>

type_synonym wcs = "u32 \<times> u32 \<times> u32 \<times> bool"

definition wc_space :: "char \<Rightarrow> bool" where
  "wc_space ch \<longleftrightarrow> ch \<in> {CHR '' '', CHR 0x0D, CHR 0x09, CHR 0x0A, CHR 0x0B}"

definition wc_char :: "char \<Rightarrow> wcs \<Rightarrow> wcs" where
  "wc_char ch x = (case x of (l, w, c, inword) \<Rightarrow>
     (let c = c + 1; l = (if ch = NL then l + 1 else l)
      in if wc_space ch then (l, w, c, False)
         else if \<not> inword then (l, w + 1, c, True) else (l, w, c, inword)))"

partial_function (option) wc_loop :: "'w syscalls \<Rightarrow> int \<Rightarrow> wcs \<Rightarrow> 'w \<Rightarrow> (wcs, 'w) uout option" where
  "wc_loop sc fd x w =
     (let (n, bs, w1) = sc_read sc fd 512 w
      in if n > 0 then wc_loop sc fd (fold wc_char bs x) w1
         else if n < 0 then Some (Exited 1 (sc_msg sc 1 (''wc: read error'' @ [NL]) w1))
         else Some (Done x w1))"

text \<open>The line \<open>wc\<close> prints is formatted by the parameter \<open>fmt\<close> (user/printf.c).\<close>

definition wc :: "(int \<Rightarrow> int \<Rightarrow> int \<Rightarrow> string \<Rightarrow> string) \<Rightarrow> 'w syscalls \<Rightarrow> int \<Rightarrow> string \<Rightarrow> 'w \<Rightarrow> (unit, 'w) uout option" where
  "wc fmt sc fd name w =
     (case wc_loop sc fd (0, 0, 0, False) w of None \<Rightarrow> None
      | Some (Exited e w1) \<Rightarrow> Some (Exited e w1)
      | Some (Done (l, n, c, _) w1) \<Rightarrow> Some (Done () (sc_msg sc 1 (fmt (sint l) (sint n) (sint c) name) w1)))"

fun echo_args :: "'w syscalls \<Rightarrow> string list \<Rightarrow> 'w \<Rightarrow> 'w" where
  "echo_args sc [] w = w"
| "echo_args sc (a # as) w =
     (let w1 = snd (sc_write sc 1 a w);
          w2 = snd (sc_write sc 1 (if as \<noteq> [] then '' '' else [NL]) w1)
      in echo_args sc as w2)"

definition echo_main :: "'w syscalls \<Rightarrow> string list \<Rightarrow> 'w \<Rightarrow> (unit, 'w) uout" where
  "echo_main sc argv w = Exited 0 (echo_args sc (tl argv) w)"

declare matchstar.simps [simp del] match_from.simps [simp del] grep_lines.simps [simp del]

section \<open>What patterns mean\<close>

datatype rx = RChar char | RStar char | REnd

fun rx_parse :: "string \<Rightarrow> rx list" where
  "rx_parse [] = []"
| "rx_parse (c # re) =
     (if re \<noteq> [] \<and> hd re = CHR ''*'' then RStar c # rx_parse (tl re)
      else if c = CHR ''$'' \<and> re = [] then [REnd] else RChar c # rx_parse re)"

definition rx_char :: "char \<Rightarrow> char \<Rightarrow> bool" where
  "rx_char c t \<longleftrightarrow> c = CHR ''.'' \<or> c = t"

text \<open>\<open>rx_den rs u v\<close>: the pattern \<open>rs\<close> matches \<open>u\<close> when \<open>v\<close> follows it.\<close>

fun rx_den :: "rx list \<Rightarrow> string \<Rightarrow> string \<Rightarrow> bool" where
  "rx_den [] u v \<longleftrightarrow> u = []"
| "rx_den (RChar c # rs) u v \<longleftrightarrow> (\<exists>t u'. u = t # u' \<and> rx_char c t \<and> rx_den rs u' v)"
| "rx_den (RStar c # rs) u v \<longleftrightarrow> (\<exists>u1 u2. u = u1 @ u2 \<and> (\<forall>t \<in> set u1. rx_char c t) \<and> rx_den rs u2 v)"
| "rx_den (REnd # rs) u v \<longleftrightarrow> u = [] \<and> v = []"

lemma rx_den_star:
  "(\<exists>u v. tx = u @ v \<and> rx_den (RStar c # rs) u v) \<longleftrightarrow>
   (\<exists>u1 u2 v. tx = u1 @ u2 @ v \<and> list_all (rx_char c) u1 \<and> rx_den rs u2 v)"
proof
  assume "\<exists>u v. tx = u @ v \<and> rx_den (RStar c # rs) u v"
  then obtain u1 u2 v where "tx = (u1 @ u2) @ v" "list_all (rx_char c) u1" "rx_den rs u2 v"
    by (auto simp: list_all_iff)
  then have "tx = u1 @ u2 @ v \<and> list_all (rx_char c) u1 \<and> rx_den rs u2 v" by simp
  then show "\<exists>u1 u2 v. tx = u1 @ u2 @ v \<and> list_all (rx_char c) u1 \<and> rx_den rs u2 v" by blast
next
  assume "\<exists>u1 u2 v. tx = u1 @ u2 @ v \<and> list_all (rx_char c) u1 \<and> rx_den rs u2 v"
  then obtain u1 u2 v where "tx = u1 @ u2 @ v" "list_all (rx_char c) u1" "rx_den rs u2 v" by blast
  then have "tx = (u1 @ u2) @ v \<and> rx_den (RStar c # rs) (u1 @ u2) v"
    unfolding rx_den.simps list_all_iff by (intro conjI exI [of _ u1] exI [of _ u2]) simp_all
  then show "\<exists>u v. tx = u @ v \<and> rx_den (RStar c # rs) u v" by blast
qed

lemma star_unfold:
  "(\<exists>u v. tx = u @ v \<and> rx_den (RStar c # rs) u v) \<longleftrightarrow>
   (\<exists>u v. tx = u @ v \<and> rx_den rs u v) \<or>
   (\<exists>t ts. tx = t # ts \<and> rx_char c t \<and> (\<exists>u v. ts = u @ v \<and> rx_den (RStar c # rs) u v))"
  unfolding rx_den_star
proof
  assume "\<exists>u1 u2 v. tx = u1 @ u2 @ v \<and> list_all (rx_char c) u1 \<and> rx_den rs u2 v"
  then obtain u1 u2 v where t: "tx = u1 @ u2 @ v" "list_all (rx_char c) u1" "rx_den rs u2 v" by blast
  show "(\<exists>u v. tx = u @ v \<and> rx_den rs u v) \<or>
   (\<exists>t ts. tx = t # ts \<and> rx_char c t \<and> (\<exists>u1 u2 v. ts = u1 @ u2 @ v \<and> list_all (rx_char c) u1 \<and> rx_den rs u2 v))"
  proof (cases u1)
    case Nil
    with t have "tx = u2 @ v" by simp
    with t(3) show ?thesis by blast
  next
    case (Cons x u1')
    with t have "tx = x # (u1' @ u2 @ v)" "rx_char c x" "list_all (rx_char c) u1'" by simp_all
    with t(3) show ?thesis by blast
  qed
next
  assume "(\<exists>u v. tx = u @ v \<and> rx_den rs u v) \<or>
   (\<exists>t ts. tx = t # ts \<and> rx_char c t \<and> (\<exists>u1 u2 v. ts = u1 @ u2 @ v \<and> list_all (rx_char c) u1 \<and> rx_den rs u2 v))"
  then consider u v where "tx = [] @ u @ v" "list_all (rx_char c) []" "rx_den rs u v"
    | t u1 u2 v where "tx = (t # u1) @ u2 @ v" "list_all (rx_char c) (t # u1)" "rx_den rs u2 v"
    by auto
  then show "\<exists>u1 u2 v. tx = u1 @ u2 @ v \<and> list_all (rx_char c) u1 \<and> rx_den rs u2 v"
    by cases blast+
qed

definition rx_here :: "rx list \<Rightarrow> string \<Rightarrow> bool" where
  "rx_here rs tx \<longleftrightarrow> (\<exists>u v. tx = u @ v \<and> rx_den rs u v)"

lemma rx_here_char: "rx_here (RChar c # rs) tx \<longleftrightarrow> (\<exists>t ts. tx = t # ts \<and> rx_char c t \<and> rx_here rs ts)"
proof
  assume "rx_here (RChar c # rs) tx"
  then obtain t u v where "tx = (t # u) @ v" "rx_char c t" "rx_den rs u v" by (auto simp: rx_here_def)
  then have "tx = t # (u @ v) \<and> rx_char c t \<and> rx_here rs (u @ v)" by (auto simp: rx_here_def)
  then show "\<exists>t ts. tx = t # ts \<and> rx_char c t \<and> rx_here rs ts" by blast
next
  assume "\<exists>t ts. tx = t # ts \<and> rx_char c t \<and> rx_here rs ts"
  then obtain t u v where "tx = (t # u) @ v" "rx_char c t" "rx_den rs u v" by (auto simp: rx_here_def)
  then have "tx = (t # u) @ v \<and> rx_den (RChar c # rs) (t # u) v" by simp
  then show "rx_here (RChar c # rs) tx" unfolding rx_here_def by blast
qed

lemma rx_here_simps:
  "rx_here [] tx" "rx_here [REnd] tx \<longleftrightarrow> tx = []"
  by (simp_all add: rx_here_def)

lemma rx_here_star:
  "rx_here (RStar c # rs) tx \<longleftrightarrow> rx_here rs tx \<or> (\<exists>t ts. tx = t # ts \<and> rx_char c t \<and> rx_here (RStar c # rs) ts)"
  unfolding rx_here_def by (rule star_unfold)

lemma matchstar_unfold:
  "matchstar c re tx \<longleftrightarrow> matchhere re tx \<or> (\<exists>t ts. tx = t # ts \<and> rx_char c t \<and> matchstar c re ts)"
  by (subst matchstar.simps) (auto simp: rx_char_def split: list.split)

lemma matchhere_unfold:
  "matchhere (c # re) tx \<longleftrightarrow>
     (if re \<noteq> [] \<and> hd re = CHR ''*'' then matchstar c (tl re) tx
      else if c = CHR ''$'' \<and> re = [] then tx = []
      else \<exists>t ts. tx = t # ts \<and> rx_char c t \<and> matchhere re ts)"
  by (auto simp: rx_char_def split: list.splits if_splits)

lemma matchhere_den:
  "matchhere re tx \<longleftrightarrow> rx_here (rx_parse re) tx"
  "matchstar c re tx \<longleftrightarrow> rx_here (RStar c # rx_parse re) tx"
proof (induction re tx and c re tx rule: matchhere_matchstar.induct)
  case (1 tx)
  then show ?case by (simp add: rx_here_simps)
next
  case (2 c re tx)
  show ?case
  proof (cases "re \<noteq> [] \<and> hd re = CHR ''*''")
    case True
    with 2(1) [OF True] show ?thesis by simp
  next
    case False
    with 2(2) show ?thesis
      unfolding matchhere_unfold rx_parse.simps
      by (cases tx) (auto simp only: rx_here_char rx_here_simps rx_char_def if_False if_True split: if_split)
  qed
next
  case (3 c re tx)
  show ?case
    using 3 unfolding matchstar_unfold [of c re tx] rx_here_star [of c _ tx] rx_char_def
    by (cases "matchhere re tx") auto
qed

lemma match_from_iff: "match_from re tx \<longleftrightarrow> (\<exists>p q. tx = p @ q \<and> matchhere re q)"
proof (induction tx)
  case Nil
  then show ?case by (subst match_from.simps) simp
next
  case (Cons t ts)
  then show ?case
    by (subst match_from.simps) (auto simp: Cons_eq_append_conv)
qed

section \<open>Lines\<close>

text \<open>The complete lines of a text, and what follows the last newline; \<open>acc\<close> is the line so far.\<close>

fun lines_acc :: "string \<Rightarrow> string \<Rightarrow> string list \<times> string" where
  "lines_acc acc [] = ([], acc)"
| "lines_acc acc (c # cs) =
     (if c = NL then (let (ls, r) = lines_acc [] cs in (acc # ls, r)) else lines_acc (acc @ [c]) cs)"

definition complete_lines :: "string \<Rightarrow> string list" where
  "complete_lines xs = fst (lines_acc [] xs)"

definition last_line :: "string \<Rightarrow> string" where
  "last_line xs = snd (lines_acc [] xs)"

lemma lines_acc_append:
  "lines_acc acc (xs @ ys) =
     (fst (lines_acc acc xs) @ fst (lines_acc (snd (lines_acc acc xs)) ys),
      snd (lines_acc (snd (lines_acc acc xs)) ys))"
  by (induction acc xs rule: lines_acc.induct) (auto simp: Let_def split: prod.split)

lemma lines_acc_no_newline: "NL \<notin> set xs \<Longrightarrow> lines_acc acc xs = ([], acc @ xs)"
  by (induction xs arbitrary: acc) auto

lemma lines_acc_last_no_newline: "NL \<notin> set acc \<Longrightarrow> NL \<notin> set (snd (lines_acc acc xs))"
  by (induction acc xs rule: lines_acc.induct) (auto simp: Let_def split: prod.split)

lemma lines_acc_chars: "set (snd (lines_acc acc xs)) \<subseteq> set acc \<union> set xs"
  by (induction acc xs rule: lines_acc.induct) (auto simp: Let_def split: prod.splits)

lemma next_line_Some:
  assumes "next_line p = Some (ln, q)"
  shows "p = ln @ NL # q \<and> NL \<notin> set ln"
proof -
  let ?P = "\<lambda>c. c \<noteq> NUL \<and> c \<noteq> NL"
  from assms have ln: "ln = takeWhile ?P p" and ne: "dropWhile ?P p \<noteq> []"
    and "hd (dropWhile ?P p) = NL" "tl (dropWhile ?P p) = q"
    by (auto simp: next_line_def Let_def split: if_splits)
  then have d: "dropWhile ?P p = NL # q" by (metis list.collapse)
  have "p = ln @ NL # q" using takeWhile_dropWhile_id [of ?P p] unfolding d ln by simp
  moreover have "NL \<notin> set ln" unfolding ln by (auto dest: set_takeWhileD)
  ultimately show ?thesis ..
qed

lemma next_line_None:
  assumes "next_line p = None" and "NUL \<notin> set p"
  shows "NL \<notin> set p"
proof
  let ?P = "\<lambda>c. c \<noteq> NUL \<and> c \<noteq> NL"
  assume "NL \<in> set p"
  then have d: "dropWhile ?P p \<noteq> []" by (auto simp: dropWhile_eq_Nil_conv)
  then have "\<not> ?P (hd (dropWhile ?P p))" "hd (dropWhile ?P p) \<in> set p"
    by (rule hd_dropWhile, metis d hd_in_set set_dropWhileD)
  with assms(2) have "hd (dropWhile ?P p) = NL" by auto
  with d assms(1) show False by (auto simp: next_line_def Let_def split: if_splits)
qed

definition emit_lines :: "'w syscalls \<Rightarrow> string \<Rightarrow> string list \<Rightarrow> 'w \<Rightarrow> 'w" where
  "emit_lines sc pattern ls w =
     fold (\<lambda>ln w. if match pattern ln then snd (sc_write sc 1 (ln @ [NL]) w) else w) ls w"

lemma grep_lines_eq:
  "NUL \<notin> set p \<Longrightarrow> grep_lines sc pattern p w = (last_line p, emit_lines sc pattern (complete_lines p) w)"
proof (induction sc pattern p w rule: grep_lines.induct)
  case (1 sc pattern p w)
  show ?case
  proof (cases "next_line p")
    case None
    with next_line_None [OF None 1(2)] show ?thesis
      by (subst grep_lines.simps) (simp add: last_line_def complete_lines_def lines_acc_no_newline emit_lines_def)
  next
    case (Some lq)
    obtain ln q where lq: "next_line p = Some (ln, q)" using Some by (cases lq) auto
    have p: "p = ln @ NL # q" "NL \<notin> set ln" using next_line_Some [OF lq] by auto
    have "lines_acc [] p = (ln # fst (lines_acc [] q), snd (lines_acc [] q))"
      unfolding p(1) using p(2) by (simp add: lines_acc_append lines_acc_no_newline Let_def split: prod.split)
    with lq 1(1) [OF lq refl] 1(2) p show ?thesis
      by (subst grep_lines.simps) (simp add: last_line_def complete_lines_def emit_lines_def)
  qed
qed

section \<open>Programs over a stream\<close>

text \<open>
  What \<open>read\<close> on a file and \<open>write\<close> on the standard output do, as the programs rely on
  them: \<open>read\<close> gives the next bytes of the contents, at least one unless there are none or
  none are asked for; \<open>write\<close> appends all its bytes to the output.
\<close>

definition stream_calls :: "'w syscalls \<Rightarrow> int \<Rightarrow> ('w \<Rightarrow> string) \<Rightarrow> ('w \<Rightarrow> string) \<Rightarrow> bool" where
  "stream_calls sc fd rest out \<longleftrightarrow>
     (\<forall>k w. case sc_read sc fd k w of (n, bs, w') \<Rightarrow>
        n = int (length bs) \<and> length bs \<le> k \<and> rest w = bs @ rest w' \<and> out w' = out w \<and>
        (0 < k \<longrightarrow> rest w \<noteq> [] \<longrightarrow> bs \<noteq> [])) \<and>
     (\<forall>bs w. case sc_write sc 1 bs w of (r, w') \<Rightarrow>
        r = int (length bs) \<and> rest w' = rest w \<and> out w' = out w @ bs)"

lemma stream_read:
  assumes "stream_calls sc fd rest out" and "sc_read sc fd k w = (n, bs, w')"
  shows "n = int (length bs)" "rest w = bs @ rest w'" "out w' = out w" "0 < k \<Longrightarrow> rest w \<noteq> [] \<Longrightarrow> bs \<noteq> []"
  using assms by (auto simp: stream_calls_def dest!: spec [of _ k] spec [of _ w])

lemma stream_write:
  assumes "stream_calls sc fd rest out" and "sc_write sc 1 bs w = (r, w')"
  shows "r = int (length bs)" "rest w' = rest w" "out w' = out w @ bs"
  using assms by (auto simp: stream_calls_def dest!: spec [of _ bs] spec [of _ w])

lemma emit_lines_stream:
  assumes "stream_calls sc fd rest out"
  shows "rest (emit_lines sc pattern ls w) = rest w \<and>
    out (emit_lines sc pattern ls w) = out w @ concat (map (\<lambda>l. l @ [NL]) (filter (match pattern) ls))"
proof (induction ls arbitrary: w)
  case (Cons l ls)
  obtain r w' where "sc_write sc 1 (l @ [NL]) w = (r, w')" by fastforce
  with Cons stream_write [OF assms this] show ?case by (simp add: emit_lines_def)
qed (simp add: emit_lines_def)

definition short_lines :: "string list \<times> string \<Rightarrow> bool" where
  "short_lines x \<longleftrightarrow> (\<forall>l \<in> set (fst x @ [snd x]). length l < 1023)"

lemma short_lines_acc: "short_lines (lines_acc acc xs) \<Longrightarrow> length acc < 1023"
  by (induction acc xs rule: lines_acc.induct)
    (auto simp: short_lines_def Let_def split: prod.splits if_splits)

lemma grep_loop_stream:
  assumes "stream_calls sc fd rest out"
    and "short_lines (lines_acc buf (rest w))" and "NUL \<notin> set (buf @ rest w)" and "NL \<notin> set buf"
  shows "\<exists>w'. grep_loop sc pattern fd buf w = Some w' \<and>
    out w' = out w @ concat (map (\<lambda>l. l @ [NL]) (filter (match pattern) (fst (lines_acc buf (rest w)))))"
  using assms(2-4)
proof (induction "length (rest w)" arbitrary: buf w rule: less_induct)
  case less
  obtain n bs w1 where rd: "sc_read sc fd (1024 - length buf - 1) w = (n, bs, w1)"
    by (cases "sc_read sc fd (1024 - length buf - 1) w") auto
  note r = stream_read [OF assms(1) rd]
  have k: "0 < 1024 - length buf - 1" using short_lines_acc [OF less.prems(1)] by simp
  show ?case
  proof (cases "bs = []")
    case True
    with r k have "rest w = []" by auto
    with True r rd show ?thesis by (subst grep_loop.simps) simp
  next
    case False
    let ?x = "lines_acc buf bs"
    have nul: "NUL \<notin> set (buf @ bs)" using less.prems(2) r by auto
    have x: "lines_acc [] (buf @ bs) = ?x" using less.prems(3) by (simp add: lines_acc_append lines_acc_no_newline)
    define w2 where "w2 = emit_lines sc pattern (fst ?x) w1"
    have w2: "rest w2 = rest w1" "out w2 = out w @ concat (map (\<lambda>l. l @ [NL]) (filter (match pattern) (fst ?x)))"
      using emit_lines_stream [OF assms(1)] r by (auto simp: w2_def)
    have step: "grep_loop sc pattern fd buf w = grep_loop sc pattern fd (snd ?x) w2"
      using False r(1) rd grep_lines_eq [OF nul, of sc pattern w1]
      by (subst grep_loop.simps) (simp add: last_line_def complete_lines_def x w2_def)
    have app: "lines_acc buf (rest w) = (fst ?x @ fst (lines_acc (snd ?x) (rest w2)), snd (lines_acc (snd ?x) (rest w2)))"
      using r(2) w2(1) by (simp add: lines_acc_append)
    have "\<exists>w'. grep_loop sc pattern fd (snd ?x) w2 = Some w' \<and>
      out w' = out w2 @ concat (map (\<lambda>l. l @ [NL]) (filter (match pattern) (fst (lines_acc (snd ?x) (rest w2)))))"
    proof (rule less.hyps)
      show "length (rest w2) < length (rest w)" using False r(2) w2(1) by simp
      show "short_lines (lines_acc (snd ?x) (rest w2))" using less.prems(1) app by (auto simp: short_lines_def)
      show "NUL \<notin> set (snd ?x @ rest w2)" using less.prems(2) r w2 lines_acc_chars [of buf bs] by auto
      show "NL \<notin> set (snd ?x)" using less.prems(3) by (rule lines_acc_last_no_newline)
    qed
    with step app w2 show ?thesis by auto
  qed
qed

lemma cat_stream:
  assumes "stream_calls sc fd rest out"
  shows "\<exists>w'. cat sc fd w = Some (Done () w') \<and> rest w' = [] \<and> out w' = out w @ rest w"
proof (induction "length (rest w)" arbitrary: w rule: less_induct)
  case less
  obtain n bs w1 where rd: "sc_read sc fd 512 w = (n, bs, w1)" by (cases "sc_read sc fd 512 w") auto
  note r = stream_read [OF assms rd]
  obtain k w2 where wr: "sc_write sc 1 bs w1 = (k, w2)" by fastforce
  note v = stream_write [OF assms wr]
  show ?case
  proof (cases "bs = []")
    case True
    with r have "rest w = []" "rest w1 = []" by auto
    with True r rd show ?thesis by (subst cat.simps) simp
  next
    case False
    with r(1) rd wr v(1) have step: "cat sc fd w = cat sc fd w2" by (subst cat.simps) simp
    have "length (rest w2) < length (rest w)" using False r(2) v(2) by simp
    from less.hyps [OF this] show ?thesis unfolding step using r(2,3) v(2,3) by auto
  qed
qed

text \<open>The positions where a word starts: a character that is no space, at the start or after a space.\<close>

definition word_starts :: "string \<Rightarrow> nat set" where
  "word_starts xs = {i. i < length xs \<and> \<not> wc_space (xs ! i) \<and> (i = 0 \<or> wc_space (xs ! (i - 1)))}"

lemma word_starts_snoc:
  "word_starts (xs @ [x]) =
     (if \<not> wc_space x \<and> (xs = [] \<or> wc_space (last xs)) then insert (length xs) (word_starts xs) else word_starts xs)"
proof -
  have "i \<in> word_starts (xs @ [x]) \<longleftrightarrow> i \<in> word_starts xs \<or>
      i = length xs \<and> \<not> wc_space x \<and> (xs = [] \<or> wc_space (last xs))" for i
  proof -
    consider "i < length xs" | "i = length xs" | "length xs < i" by linarith
    then show ?thesis
    proof cases
      case 1
      then have "(xs @ [x]) ! i = xs ! i" "(xs @ [x]) ! (i - 1) = xs ! (i - 1)" by (auto simp: nth_append)
      with 1 show ?thesis by (simp add: word_starts_def)
    next
      case 2
      then have "(xs @ [x]) ! i = x" "xs \<noteq> [] \<Longrightarrow> (xs @ [x]) ! (i - 1) = last xs"
        by (auto simp: nth_append last_conv_nth)
      with 2 show ?thesis by (cases "xs = []") (simp_all add: word_starts_def)
    qed (simp add: word_starts_def)
  qed
  then show ?thesis by auto
qed

lemma word_starts_finite [simp]: "finite (word_starts xs)" "length xs \<notin> word_starts xs"
  by (auto simp: word_starts_def)

lemma word_starts_card: "card (word_starts xs) \<le> length xs"
  using card_mono [of "{..<length xs}" "word_starts xs"] by (auto simp: word_starts_def)

lemma wc_fold:
  "fold wc_char xs (0, 0, 0, False) =
     (of_nat (length (filter (\<lambda>c. c = NL) xs)), of_nat (card (word_starts xs)), of_nat (length xs),
      xs \<noteq> [] \<and> \<not> wc_space (last xs))"
proof (induction xs rule: rev_induct)
  case Nil
  then show ?case by (simp add: word_starts_def)
next
  case (snoc x xs)
  have "wc_space NL" by (simp add: wc_space_def NL_def)
  with snoc show ?case by (auto simp: wc_char_def word_starts_snoc Let_def)
qed

lemma wc_loop_stream:
  assumes "stream_calls sc fd rest out"
  shows "\<exists>w'. wc_loop sc fd x w = Some (Done (fold wc_char (rest w) x) w') \<and> out w' = out w"
proof (induction "length (rest w)" arbitrary: w x rule: less_induct)
  case less
  obtain n bs w1 where rd: "sc_read sc fd 512 w = (n, bs, w1)" by (cases "sc_read sc fd 512 w") auto
  note r = stream_read [OF assms rd]
  show ?case
  proof (cases "bs = []")
    case True
    with r(2,4) have e: "rest w = []" by auto
    show ?thesis unfolding e using True r(1,3) rd by (subst wc_loop.simps) simp
  next
    case False
    with r(1) rd have step: "wc_loop sc fd x w = wc_loop sc fd (fold wc_char bs x) w1" by (subst wc_loop.simps) simp
    have "length (rest w1) < length (rest w)" using False r(2) by simp
    from less.hyps [OF this, of "fold wc_char bs x"] show ?thesis unfolding step r(2) fold_append comp_apply r(3) .
  qed
qed

section \<open>Properties of the text utilities\<close>

text \<open>
  C29. The matcher of grep decides the meaning of patterns: a pattern that starts with a caret
  matches when the rest of it matches some prefix of the text, any other pattern when it
  matches some part of the text; a dot is any character, a star repeats the character before
  it, and a dollar sign at the end stands for the end of the text.
\<close>

theorem grep_match_denotation:
  "match re tx \<longleftrightarrow>
     (if re \<noteq> [] \<and> hd re = CHR ''^'' then \<exists>u v. tx = u @ v \<and> rx_den (rx_parse (tl re)) u v
      else \<exists>p u v. tx = p @ u @ v \<and> rx_den (rx_parse re) u v)"
proof (cases "re \<noteq> [] \<and> hd re = CHR ''^''")
  case True
  then show ?thesis by (simp add: match_def matchhere_den rx_here_def)
next
  case False
  then have "match re tx \<longleftrightarrow> (\<exists>p q. tx = p @ q \<and> (\<exists>u v. q = u @ v \<and> rx_den (rx_parse re) u v))"
    by (simp only: match_def match_from_iff matchhere_den rx_here_def if_False)
  then show ?thesis unfolding if_not_P [OF False] by blast
qed

text \<open>
  C30. grep, on any input without zero bytes and with lines shorter than its buffer, cut into
  pieces by \<open>read\<close> in any way, ends and has written exactly the complete lines that match,
  in their order.
\<close>

theorem grep_prints_matching_lines:
  assumes "stream_calls sc fd rest out" and "NUL \<notin> set (rest w)"
    and "\<forall>l \<in> set (complete_lines (rest w) @ [last_line (rest w)]). length l < 1023"
  shows "\<exists>w'. grep sc pattern fd w = Some w' \<and>
    out w' = out w @ concat (map (\<lambda>l. l @ [NL]) (filter (match pattern) (complete_lines (rest w))))"
  using grep_loop_stream [OF assms(1), of "[]" w pattern] assms(2,3)
  by (simp add: grep_def short_lines_def complete_lines_def last_line_def)

text \<open>A file as a list of characters and the output, with \<open>read\<close> that gives three bytes at a time.\<close>

definition list_calls :: "(string \<times> string) syscalls" where
  "list_calls = \<lparr>sc_read = (\<lambda>fd k (f, out). (int (length (take (min k 3) f)), take (min k 3) f, drop (min k 3) f, out)),
     sc_write = (\<lambda>fd bs (f, out). (int (length bs), f, out @ bs)),
     sc_open = (\<lambda>_ _ w. (-1, w)), sc_close = (\<lambda>_ w. w), sc_msg = (\<lambda>_ s (f, out). (f, out @ s))\<rparr>"

lemma list_calls_stream: "stream_calls list_calls fd fst snd"
  by (auto simp: stream_calls_def list_calls_def)

theorem grep_prints_matching_lines_witness:
  "\<exists>w'. grep list_calls ''a*b$'' 0 (''xb'' @ [NL] @ ''c'' @ [NL] @ ''aab'' @ [NL] @ ''b'', []) = Some w' \<and>
     snd w' = ''xb'' @ [NL] @ ''aab'' @ [NL]"
proof -
  let ?f = "''xb'' @ [NL] @ ''c'' @ [NL] @ ''aab'' @ [NL] @ ''b''"
  have c: "complete_lines ?f = [''xb'', ''c'', ''aab'']" "last_line ?f = ''b''"
    by (simp_all add: complete_lines_def last_line_def NL_def)
  have m: "filter (match ''a*b$'') [''xb'', ''c'', ''aab''] = [''xb'', ''aab'']"
    by (simp add: match_def match_from.simps matchstar.simps)
  show ?thesis
    using grep_prints_matching_lines [OF list_calls_stream, of "(?f, [])" "''a*b$''" 0] unfolding fst_conv c m
    by (simp add: NUL_def NL_def)
qed

text \<open>
  C31. wc counts: on any input of fewer than 2^31 characters, so that its 32-bit counters do not
  overflow, however it is cut into pieces, it ends with the number of newlines, the number of
  word starts and the number of characters, and prints them.
\<close>

theorem wc_counts:
  assumes "stream_calls sc fd rest out" and "length (rest w) < 2 ^ 31"
  shows "\<exists>w'. wc fmt sc fd name w =
    Some (Done () (sc_msg sc 1 (fmt (int (length (filter (\<lambda>c. c = NL) (rest w)))) (int (card (word_starts (rest w))))
      (int (length (rest w))) name) w')) \<and> out w' = out w"
proof -
  have "length (filter (\<lambda>c. c = NL) (rest w)) < 2 ^ 31" "card (word_starts (rest w)) < 2 ^ 31"
    using assms(2) length_filter_le [of "\<lambda>c. c = NL" "rest w"] word_starts_card [of "rest w"] by linarith+
  with assms(2) wc_loop_stream [OF assms(1), of "(0, 0, 0, False)" w] show ?thesis
    by (auto simp: wc_def wc_fold sint_of_nat_small)
qed

theorem wc_counts_witness:
  "\<exists>w'. wc (\<lambda>l w c nm. replicate (nat w) CHR ''w'' @ nm) list_calls 0 ''f'' (''ab c'' @ [NL], []) = Some (Done () w') \<and>
     snd w' = ''wwf''"
proof -
  have "word_starts (''ab c'' @ [NL]) = {0, 3}"
    by (auto simp: word_starts_def wc_space_def NL_def nth_Cons' less_Suc_eq)
  then have c: "card (word_starts (''ab c'' @ [NL])) = 2" by simp
  have "length (fst (''ab c'' @ [NL], [] :: string)) < 2 ^ 31" by simp
  from wc_counts [OF list_calls_stream this, of "\<lambda>l w c nm. replicate (nat w) CHR ''w'' @ nm" 0 "''f''"] show ?thesis
    unfolding fst_conv c by (auto simp: list_calls_def split_beta numeral_2_eq_2)
qed

end
