(* ===== verification/Kctx.thy ===== *)
theory Kctx
  imports Spinlock
begin

text \<open>
  The state every kernel component below the process layer works in, seen from the one
  process that runs it: the spin locks it holds, the \<open>wakeup\<close> calls made, in order, and
  its own \<open>struct proc\<close>. The components extend this record with their own state.

  \<open>lock_acquire\<close> and \<open>lock_release\<close> are \<open>acquire\<close> and \<open>release\<close> of kernel/spinlock.c
  as this process sees them, when no other CPU holds the lock: both models satisfy the lock
  interface \<open>lock_ops\<close>, and the machine-level one simulates this one.

  A call that sleeps ends with \<open>Block\<close> where nothing it did before matters to the rest. Where
  it does, the call ends with \<open>Asleep\<close>: the channel, the local variables it continues with, and
  the state in which it sleeps, the lock given to \<open>sleep\<close> released. When it is woken up it
  takes the lock again and goes on from the state it then finds.
\<close>

datatype ('a, 'k) call = Done 'a | Asleep chan 'k

record kctx =
  held :: "lockid list"
  wakes :: "chan list"
  cur :: proc

definition lock_acquire :: "lockid \<Rightarrow> 'z kctx_scheme \<Rightarrow> 'z kctx_scheme res" where
  "lock_acquire l s = (if l \<in> set (held s) then Panic ''acquire'' else Ret (s\<lparr>held := l # held s\<rparr>))"

definition lock_release :: "lockid \<Rightarrow> 'z kctx_scheme \<Rightarrow> 'z kctx_scheme res" where
  "lock_release l s = (if l \<notin> set (held s) then Panic ''release'' else Ret (s\<lparr>held := remove1 l (held s)\<rparr>))"

definition wakeup_ev :: "chan \<Rightarrow> 'z kctx_scheme \<Rightarrow> 'z kctx_scheme" where
  "wakeup_ev c s = s\<lparr>wakes := wakes s @ [c]\<rparr>"

definition locked :: "lockid \<Rightarrow> ('z kctx_scheme \<Rightarrow> ('a \<times> 'z kctx_scheme) res) \<Rightarrow> 'z kctx_scheme \<Rightarrow> ('a \<times> 'z kctx_scheme) res" where
  "locked l f s =
     bind_res (lock_acquire l s) (\<lambda>s1. bind_res (f s1) (\<lambda>(x, s2). bind_res (lock_release l s2) (\<lambda>s3. Ret (x, s3))))"

lemma lock_acquire_free [simp]: "l \<notin> set (held s) \<Longrightarrow> lock_acquire l s = Ret (s\<lparr>held := l # held s\<rparr>)"
  by (simp add: lock_acquire_def)

lemma lock_acquire_held [simp]: "l \<in> set (held s) \<Longrightarrow> lock_acquire l s = Panic ''acquire''"
  by (simp add: lock_acquire_def)

lemma lock_release_held [simp]: "held s = l # ls \<Longrightarrow> lock_release l s = Ret (s\<lparr>held := ls\<rparr>)"
  by (simp add: lock_release_def)

lemma wakeup_ev_fields [simp]:
  "held (wakeup_ev c s) = held s" "cur (wakeup_ev c s) = cur s" "wakes (wakeup_ev c s) = wakes s @ [c]"
  by (simp_all add: wakeup_ev_def)

interpretation light: lock_ops lock_acquire lock_release
  "\<lambda>s l. l \<in> set (held s)" "\<lambda>s l. l \<notin> set (held s)" "\<lambda>s. distinct (held s)"
  by unfold_locales (auto simp: lock_release_def distinct_remove1 set_remove1_eq)

section \<open>The machine simulates this view\<close>

text \<open>The machine, seen from its current hart, and a state of this view agree on the locks.\<close>

definition same_locks :: "'z mach_scheme \<Rightarrow> 'y kctx_scheme \<Rightarrow> bool" where
  "same_locks m s \<longleftrightarrow> mach_wf m \<and> distinct (held s) \<and> (\<forall>l. holding (locks m l) m \<longleftrightarrow> l \<in> set (held s))"

lemma acquire_simulates:
  assumes "same_locks m s" and "mach_unheld m l"
  shows "returns (lock_acquire l s) (\<lambda>s'. returns (acquire l m) (\<lambda>m'. same_locks m' s'))"
proof -
  have l: "l \<notin> set (held s)"
    using assms spin.unheld_not_holds [OF assms(2)] by (simp add: same_locks_def)
  have "mach_wf m" using assms(1) by (simp add: same_locks_def)
  from spin.acq_free [OF this assms(2)] obtain m' where m': "acquire l m = Ret m'" "mach_wf m'"
    "holding (locks m' l) m'" "\<forall>k. k \<noteq> l \<longrightarrow> holding (locks m' k) m' = holding (locks m k) m"
    by (auto simp: returns_def)
  then have "same_locks m' (s\<lparr>held := l # held s\<rparr>)"
    using assms(1) l by (auto simp: same_locks_def)
  with l m'(1) show ?thesis by (simp add: returns_def)
qed

lemma release_simulates:
  assumes "same_locks m s" and "l \<in> set (held s)"
  shows "returns (lock_release l s) (\<lambda>s'. returns (release l m) (\<lambda>m'. same_locks m' s'))"
proof -
  have "mach_wf m" and h: "holding (locks m l) m" using assms by (simp_all add: same_locks_def)
  from spin.rel_held [OF this] obtain m' where m': "release l m = Ret m'" "mach_wf m'"
    "mach_unheld m' l" "\<forall>k. k \<noteq> l \<longrightarrow> holding (locks m' k) m' = holding (locks m k) m"
    by (auto simp: returns_def)
  have "same_locks m' (s\<lparr>held := remove1 l (held s)\<rparr>)"
    using assms(1) m' spin.unheld_not_holds [OF m'(3)]
    by (auto simp: same_locks_def distinct_remove1 set_remove1_eq)
  with assms(2) m'(1) show ?thesis by (simp add: returns_def lock_release_def)
qed

end
