(* ===== verification/Pmem.thy ===== *)
theory Pmem
  imports Machine
begin

unbundle bit_operations_syntax

text \<open>
  Byte-level data: little-endian encoding of words as byte lists, and the physical memory
  the kernel works on, a map from 64-bit addresses to bytes. Address arithmetic wraps, as
  in C. \<open>load64\<close> and \<open>store64\<close> are the accesses through a 64-bit pointer.

  The lemmas are the round trips of the encodings, what a store leaves of other addresses,
  and that accesses in different pages do not interfere.
\<close>

type_synonym pmem = "u64 \<Rightarrow> byte"

section \<open>Little-endian encoding\<close>

definition le_word :: "byte list \<Rightarrow> 'a::len word" where
  "le_word bs = word_of_int (horner_sum uint (2 ^ 8) bs)"

definition le_bytes :: "nat \<Rightarrow> 'a::len word \<Rightarrow> byte list" where
  "le_bytes n v = map (\<lambda>i. ucast (drop_bit (8 * i) v)) [0..<n]"

lemma length_le_bytes [simp]: "length (le_bytes n v) = n"
  by (simp add: le_bytes_def)

lemma bit_le_word:
  "bit (le_word bs :: 'a::len word) n \<longleftrightarrow>
     n < LENGTH('a) \<and> n div 8 < length bs \<and> bit (bs ! (n div 8)) (n mod 8)"
  using bit_horner_sum_uint_exp_iff [of bs n] by (auto simp: le_word_def bit_word_of_int_iff)

lemma bit_le_bytes:
  "i < n \<Longrightarrow> bit (le_bytes n v ! i) k \<longleftrightarrow> k < 8 \<and> bit v (8 * i + k)"
  by (auto simp: le_bytes_def bit_simps)

lemma le_word_bytes:
  fixes v :: "'a::len word"
  assumes "LENGTH('a) \<le> 8 * k"
  shows "le_word (le_bytes k v) = v"
proof (rule bit_word_eqI)
  fix n assume n: "n < LENGTH('a)"
  then have "n div 8 < k" using assms by auto
  then show "bit (le_word (le_bytes k v) :: 'a word) n = bit v n"
    using n by (simp add: bit_le_word bit_le_bytes)
qed

lemma le_bytes_word:
  assumes "length bs = k" and "8 * k \<le> LENGTH('a::len)"
  shows "le_bytes k (le_word bs :: 'a word) = bs"
proof (rule nth_equalityI)
  fix i assume "i < length (le_bytes k (le_word bs :: 'a word))"
  then have i: "i < k" by simp
  show "le_bytes k (le_word bs :: 'a word) ! i = bs ! i"
  proof (rule bit_word_eqI)
    fix j assume "j < LENGTH(8)"
    then have j: "j < 8" by simp
    then have "(8 * i + j) div 8 = i" "(8 * i + j) mod 8 = j" by simp_all
    moreover have "8 * i + j < LENGTH('a)" using i j assms(2) by linarith
    ultimately show "bit (le_bytes k (le_word bs :: 'a word) ! i) j = bit (bs ! i) j"
      using i j assms(1) by (simp add: bit_le_bytes bit_le_word)
  qed
qed (use assms(1) in simp)

section \<open>Memory blocks\<close>

definition read_bytes :: "u64 \<Rightarrow> nat \<Rightarrow> pmem \<Rightarrow> byte list" where
  "read_bytes a n m = map (\<lambda>i. m (a + of_nat i)) [0..<n]"

definition write_bytes :: "u64 \<Rightarrow> byte list \<Rightarrow> pmem \<Rightarrow> pmem" where
  "write_bytes a bs m = (\<lambda>x. if unat (x - a) < length bs then bs ! unat (x - a) else m x)"

definition load64 :: "u64 \<Rightarrow> pmem \<Rightarrow> u64" where
  "load64 a m = le_word (read_bytes a 8 m)"

definition store64 :: "u64 \<Rightarrow> u64 \<Rightarrow> pmem \<Rightarrow> pmem" where
  "store64 a v m = write_bytes a (le_bytes 8 v) m"

text \<open>\<open>memset(p, c, PGSIZE)\<close> on the page at \<open>p\<close>.\<close>

definition fill_page :: "u64 \<Rightarrow> byte \<Rightarrow> pmem \<Rightarrow> pmem" where
  "fill_page p c m = (\<lambda>x. if x - p < PGSIZE then c else m x)"

text \<open>\<open>memmove(dst, src, PGSIZE)\<close> between two pages.\<close>

definition copy_page :: "u64 \<Rightarrow> u64 \<Rightarrow> pmem \<Rightarrow> pmem" where
  "copy_page dst src m = (\<lambda>x. if x - dst < PGSIZE then m (src + (x - dst)) else m x)"

lemma length_read_bytes [simp]: "length (read_bytes a n m) = n"
  by (simp add: read_bytes_def)

lemma read_bytes_nth [simp]: "i < n \<Longrightarrow> read_bytes a n m ! i = m (a + of_nat i)"
  by (simp add: read_bytes_def)

lemma read_bytes_cong: "(\<And>i. i < n \<Longrightarrow> m (a + of_nat i) = m' (a + of_nat i)) \<Longrightarrow> read_bytes a n m = read_bytes a n m'"
  by (simp add: read_bytes_def)

lemma unat_of_nat_small: "i < 2 ^ 64 \<Longrightarrow> unat (of_nat i :: u64) = i"
  by (simp add: unat_of_nat take_bit_eq_mod)

lemma read_write_same:
  assumes "length bs = n" and "n < 2 ^ 64"
  shows "read_bytes a n (write_bytes a bs m) = bs"
  by (rule nth_equalityI) (use assms in \<open>auto simp: write_bytes_def unat_of_nat_small\<close>)

lemma load_store64_same [simp]: "load64 a (store64 a v m) = v"
  by (simp add: load64_def store64_def read_write_same le_word_bytes)

section \<open>Pages\<close>

text \<open>The page an address lies in, for page-aligned \<open>p\<close>.\<close>

lemma page_offset: "PGROUNDDOWN x + take_bit 12 x = x"
  unfolding PGROUNDDOWN_bits by (rule bits_ident)

lemma take_bit_less_PGSIZE: "take_bit 12 (x :: u64) < PGSIZE"
  by (simp add: PGSIZE_def word_less_nat_alt take_bit_eq_mod unat_mod)

lemma small_take_bit: "(x :: u64) < PGSIZE \<Longrightarrow> take_bit 12 x = x"
  by (simp add: PGSIZE_def word_less_nat_alt take_bit_eq_mod word_unat_eq_iff unat_mod)

lemma aligned_add_or: "page_aligned p \<Longrightarrow> x < PGSIZE \<Longrightarrow> p + x = p OR x"
proof -
  assume p: "page_aligned p" and x: "x < PGSIZE"
  from p have "p = push_bit 12 (drop_bit 12 p)" by (simp add: page_aligned_iff PGROUNDDOWN_bits)
  then have pn: "n < 12 \<Longrightarrow> \<not> bit p n" for n by (metis bit_push_bit_iff not_le)
  have xn: "12 \<le> n \<Longrightarrow> \<not> bit x n" for n
    using small_take_bit [OF x] by (metis bit_take_bit_iff not_le)
  show ?thesis using pn xn by (intro disjunctive_add) (metis not_le)
qed

lemma in_page_iff: "page_aligned p \<Longrightarrow> x - p < PGSIZE \<longleftrightarrow> PGROUNDDOWN x = p"
proof
  assume p: "page_aligned p" and x: "x - p < PGSIZE"
  have "PGROUNDDOWN (p OR (x - p)) = PGROUNDDOWN p OR PGROUNDDOWN (x - p)"
    by (simp add: PGROUNDDOWN_def) (rule bit_word_eqI, auto simp: bit_simps)
  moreover have "PGROUNDDOWN (x - p) = 0"
    using page_offset [of "x - p"] small_take_bit [OF x] by simp
  moreover have "p OR (x - p) = x" using aligned_add_or [OF p x] by simp
  ultimately show "PGROUNDDOWN x = p" using p by (simp add: page_aligned_iff)
next
  assume "PGROUNDDOWN x = p"
  then have "x - p = take_bit 12 x" using page_offset [of x] by (simp add: algebra_simps)
  then show "x - p < PGSIZE" by (simp add: take_bit_less_PGSIZE)
qed

lemma page_add: "page_aligned p \<Longrightarrow> x < PGSIZE \<Longrightarrow> PGROUNDDOWN (p + x) = p"
  using in_page_iff [of p "p + x"] by simp

text \<open>The 512 words of a page.\<close>

definition slot :: "u64 \<Rightarrow> u64 \<Rightarrow> u64" where
  "slot p i = p + 8 * i"

lemma slot_offset:
  assumes "i < 512" and "k < 8"
  shows "unat (8 * i + of_nat k :: u64) = 8 * unat i + k" and "8 * i + of_nat k < PGSIZE"
proof -
  have i: "unat i < 512" using assms(1) by (simp add: word_less_nat_alt)
  have "8 * i + of_nat k = of_nat (8 * unat i + k)" by simp
  moreover have "8 * unat i + k < 2 ^ 64" using i assms(2) by simp
  ultimately show u: "unat (8 * i + of_nat k :: u64) = 8 * unat i + k"
    by (simp only: unat_of_nat_small)
  show "8 * i + of_nat k < PGSIZE"
    unfolding word_less_nat_alt u using i assms(2) by (simp add: PGSIZE_def)
qed

lemma slot_page: "page_aligned p \<Longrightarrow> i < 512 \<Longrightarrow> k < 8 \<Longrightarrow> PGROUNDDOWN (slot p i + of_nat k) = p"
  unfolding slot_def add.assoc by (rule page_add [OF _ slot_offset(2)])

lemma store64_outside:
  assumes "page_aligned p" and "i < 512" and "PGROUNDDOWN x \<noteq> p"
  shows "store64 (slot p i) v m x = m x"
proof -
  have "\<not> unat (x - slot p i) < 8"
  proof
    assume k: "unat (x - slot p i) < 8"
    have "slot p i + of_nat (unat (x - slot p i)) = x" by simp
    then show False using slot_page [OF assms(1,2) k] assms(3) by simp
  qed
  then show ?thesis by (simp add: store64_def write_bytes_def)
qed

lemma load64_cong_page:
  assumes "page_aligned p" and "i < 512" and "\<And>x. PGROUNDDOWN x = p \<Longrightarrow> m x = m' x"
  shows "load64 (slot p i) m = load64 (slot p i) m'"
  unfolding load64_def by (intro arg_cong [of _ _ le_word] read_bytes_cong assms(3)) (rule slot_page [OF assms(1,2)])

lemma load_store_slots:
  assumes "page_aligned p" "i < 512" "page_aligned q" "j < 512" and "p \<noteq> q \<or> i \<noteq> j"
  shows "load64 (slot p i) (store64 (slot q j) v m) = load64 (slot p i) m"
proof (cases "p = q")
  case False
  then show ?thesis
    using assms by (intro load64_cong_page) (auto simp: store64_outside)
next
  case True
  with assms(5) have ij: "unat i \<noteq> unat j" by (auto simp: word_unat_eq_iff)
  have "store64 (slot q j) v m (slot p i + of_nat k) = m (slot p i + of_nat k)" if k: "k < 8" for k
  proof -
    have "\<not> unat (slot p i + of_nat k - slot q j) < 8"
    proof
      define d where "d = unat (slot p i + of_nat k - slot q j)"
      assume "unat (slot p i + of_nat k - slot q j) < 8"
      then have d: "d < 8" by (simp add: d_def)
      have "of_nat d = slot p i + of_nat k - slot q j" by (simp add: d_def)
      then have "8 * i + of_nat k = 8 * j + of_nat d"
        using True by (simp add: slot_def algebra_simps)
      then have "8 * unat i + k = 8 * unat j + d"
        using slot_offset(1) [OF assms(2) k] slot_offset(1) [OF assms(4) d] by metis
      with k d ij show False by presburger
    qed
    then show ?thesis by (simp add: store64_def write_bytes_def)
  qed
  then show ?thesis
    unfolding load64_def by (intro arg_cong [of _ _ le_word] read_bytes_cong)
qed

lemma fill_page_apply: "page_aligned p \<Longrightarrow> fill_page p c m x = (if PGROUNDDOWN x = p then c else m x)"
  by (simp add: fill_page_def in_page_iff)

lemma copy_page_apply:
  "page_aligned p \<Longrightarrow> copy_page p q m x = (if PGROUNDDOWN x = p then m (q + (x - p)) else m x)"
  by (simp add: copy_page_def in_page_iff)

lemma load64_fill_other:
  "page_aligned p \<Longrightarrow> page_aligned q \<Longrightarrow> p \<noteq> q \<Longrightarrow> i < 512 \<Longrightarrow> load64 (slot p i) (fill_page q c m) = load64 (slot p i) m"
  by (rule load64_cong_page) (auto simp: fill_page_apply)

lemma load64_fill_zero:
  assumes "page_aligned p" and "i < 512"
  shows "load64 (slot p i) (fill_page p 0 m) = 0"
proof -
  have "read_bytes (slot p i) 8 (fill_page p 0 m) = replicate 8 0"
    by (rule nth_equalityI) (auto simp: fill_page_apply assms slot_page)
  then show ?thesis by (simp add: load64_def) (rule bit_word_eqI, simp add: bit_le_word)
qed

lemma slot_0 [simp]: "slot p 0 = p"
  by (simp add: slot_def)

end
