(* ===== verification/Kalloc.thy ===== *)
theory Kalloc
  imports Kctx Pmem
begin

unbundle bit_operations_syntax

text \<open>
  The physical page allocator (kernel/kalloc.c). The free list is where the code has it, in
  the free pages: the first word of a free page is the address of the next one. \<open>kend\<close>
  is the linker symbol \<open>end\<close>, the first address after the kernel; the list is empty when
  \<open>freelist\<close> is 0. The state keeps the physical memory.

  The invariant \<open>kmem_inv s ps\<close> says that the free list visits exactly the pages
  \<open>ps\<close>, all different, aligned and in the allocator's range. \<open>kalloc\<close> takes the first of
  them and \<open>kfree\<close> puts a page back, and neither touches a page that is in use.
\<close>

record kmem = kctx +
  pmem :: "u64 \<Rightarrow> byte"
  freelist :: u64
  kend :: u64

definition kfree :: "u64 \<Rightarrow> 'z kmem_scheme \<Rightarrow> 'z kmem_scheme res" where
  "kfree pa s =
     (if pa mod PGSIZE \<noteq> 0 \<or> pa < kend s \<or> pa \<ge> PHYSTOP then Panic ''kfree''
      else
        let s1 = s\<lparr>pmem := fill_page pa 1 (pmem s)\<rparr>; r = pa in
        bind_res (lock_acquire L_kmem s1) (\<lambda>s2.
        lock_release L_kmem (s2\<lparr>pmem := store64 r (freelist s2) (pmem s2), freelist := r\<rparr>)))"

definition kalloc :: "'z kmem_scheme \<Rightarrow> (u64 \<times> 'z kmem_scheme) res" where
  "kalloc s =
     bind_res (lock_acquire L_kmem s) (\<lambda>s1.
     let r = freelist s1;
         s2 = (if r \<noteq> 0 then s1\<lparr>freelist := load64 r (pmem s1)\<rparr> else s1) in
     bind_res (lock_release L_kmem s2) (\<lambda>s3.
     Ret (r, if r \<noteq> 0 then s3\<lparr>pmem := fill_page r 5 (pmem s3)\<rparr> else s3)))"

text \<open>The loop of \<open>freerange\<close>; \<open>k\<close> bounds its iterations by the number of pages in the range.\<close>

fun freerange_loop :: "nat \<Rightarrow> u64 \<Rightarrow> u64 \<Rightarrow> 'z kmem_scheme \<Rightarrow> 'z kmem_scheme res" where
  "freerange_loop 0 p pa_end s = NoReturn"
| "freerange_loop (Suc k) p pa_end s =
     (if p + PGSIZE \<le> pa_end then bind_res (kfree p s) (freerange_loop k (p + PGSIZE) pa_end) else Ret s)"

definition freerange :: "u64 \<Rightarrow> u64 \<Rightarrow> 'z kmem_scheme \<Rightarrow> 'z kmem_scheme res" where
  "freerange pa_start pa_end s = 
     (let p = PGROUNDUP pa_start in freerange_loop (unat ((pa_end - p) div PGSIZE) + 1) p pa_end s)"

definition kinit :: "'z kmem_scheme \<Rightarrow> 'z kmem_scheme res" where
  "kinit s = freerange (kend s) PHYSTOP (s\<lparr>freelist := 0\<rparr>)"

section \<open>The free list\<close>

fun flist :: "pmem \<Rightarrow> u64 \<Rightarrow> u64 list \<Rightarrow> bool" where
  "flist m p [] \<longleftrightarrow> p = 0"
| "flist m p (q # qs) \<longleftrightarrow> p = q \<and> flist m (load64 q m) qs"

definition kmem_page :: "'z kmem_scheme \<Rightarrow> u64 \<Rightarrow> bool" where
  "kmem_page s p \<longleftrightarrow> page_aligned p \<and> kend s \<le> p \<and> p < PHYSTOP \<and> p \<noteq> 0"

definition kmem_inv :: "'z kmem_scheme \<Rightarrow> u64 list \<Rightarrow> bool" where
  "kmem_inv s ps \<longleftrightarrow> flist (pmem s) (freelist s) ps \<and> distinct ps \<and> (\<forall>p \<in> set ps. kmem_page s p) \<and>
     0 < kend s \<and> L_kmem \<notin> set (held s)"

lemma load64_cong_page0:
  "page_aligned p \<Longrightarrow> (\<And>x. PGROUNDDOWN x = p \<Longrightarrow> m x = m' x) \<Longrightarrow> load64 p m = load64 p m'"
  using load64_cong_page [of p 0 m m'] by simp

lemma flist_cong:
  assumes "\<forall>q \<in> set qs. page_aligned q \<and> (\<forall>x. PGROUNDDOWN x = q \<longrightarrow> m x = m' x)"
  shows "flist m p qs = flist m' p qs"
  using assms
proof (induction qs arbitrary: p)
  case (Cons q qs)
  then have "load64 q m = load64 q m'" by (intro load64_cong_page0) auto
  with Cons show ?case by simp
qed simp

lemma flist_unique: "flist m p qs \<Longrightarrow> flist m p rs \<Longrightarrow> 0 \<notin> set qs \<Longrightarrow> 0 \<notin> set rs \<Longrightarrow> qs = rs"
proof (induction qs arbitrary: p rs)
  case Nil
  then show ?case by (cases rs) auto
next
  case (Cons q qs)
  then show ?case by (cases rs) auto
qed

lemma store64_outside0: "page_aligned p \<Longrightarrow> PGROUNDDOWN x \<noteq> p \<Longrightarrow> store64 p v m x = m x"
  using store64_outside [of p 0 x v m] by simp

text \<open>What \<open>kalloc\<close> and \<open>kfree\<close> give, in closed form.\<close>

lemma kalloc_empty:
  assumes "kmem_inv s []"
  shows "kalloc s = Ret (0, s)"
  using assms by (simp add: kalloc_def kmem_inv_def)

lemma kalloc_Cons:
  assumes "kmem_inv s (p # ps)"
  shows "kalloc s = Ret (p, s\<lparr>freelist := load64 p (pmem s), pmem := fill_page p 5 (pmem s)\<rparr>)"
  using assms by (simp add: kalloc_def kmem_inv_def kmem_page_def)

lemma kalloc_inv:
  assumes "kmem_inv s (p # ps)"
  shows "kmem_inv (s\<lparr>freelist := load64 p (pmem s), pmem := fill_page p 5 (pmem s)\<rparr>) ps"
proof -
  have "flist (fill_page p 5 (pmem s)) (load64 p (pmem s)) ps = flist (pmem s) (load64 p (pmem s)) ps"
    using assms by (intro flist_cong) (auto simp: kmem_inv_def kmem_page_def fill_page_apply)
  with assms show ?thesis by (auto simp: kmem_inv_def kmem_page_def)
qed

lemma kfree_eq:
  assumes "kmem_inv s ps" and "kmem_page s p"
  shows "kfree p s = Ret (s\<lparr>pmem := store64 p (freelist s) (fill_page p 1 (pmem s)), freelist := p\<rparr>)"
  using assms by (auto simp: kfree_def kmem_inv_def kmem_page_def page_aligned_def Let_def)

lemma kfree_other_page:
  "page_aligned p \<Longrightarrow> PGROUNDDOWN x \<noteq> p \<Longrightarrow> store64 p v (fill_page p c m) x = m x"
  by (simp add: store64_outside0 fill_page_apply)

lemma kfree_inv:
  assumes "kmem_inv s ps" and "kmem_page s p" and "p \<notin> set ps"
  shows "kmem_inv (s\<lparr>pmem := store64 p (freelist s) (fill_page p 1 (pmem s)), freelist := p\<rparr>) (p # ps)"
proof -
  have "flist (store64 p (freelist s) (fill_page p 1 (pmem s))) (freelist s) ps = flist (pmem s) (freelist s) ps"
  proof (intro flist_cong ballI conjI allI impI)
    fix q x
    assume q: "q \<in> set ps" and x: "PGROUNDDOWN x = q"
    show "store64 p (freelist s) (fill_page p 1 (pmem s)) x = pmem s x"
      using assms q x by (intro kfree_other_page) (auto simp: kmem_page_def)
  qed (use assms in \<open>auto simp: kmem_inv_def kmem_page_def\<close>)
  with assms show ?thesis by (auto simp: kmem_inv_def kmem_page_def)
qed

text \<open>Memory outside the pages of a set is the same.\<close>

definition same_except :: "u64 set \<Rightarrow> pmem \<Rightarrow> pmem \<Rightarrow> bool" where
  "same_except P m m' \<longleftrightarrow> (\<forall>x. PGROUNDDOWN x \<notin> P \<longrightarrow> m' x = m x)"

lemma same_exceptI [intro]: "(\<And>x. PGROUNDDOWN x \<notin> P \<Longrightarrow> m' x = m x) \<Longrightarrow> same_except P m m'"
  by (simp add: same_except_def)

lemma same_exceptD: "same_except P m m' \<Longrightarrow> PGROUNDDOWN x \<notin> P \<Longrightarrow> m' x = m x"
  by (simp add: same_except_def)

lemma same_except_refl [simp]: "same_except P m m"
  by auto

lemma same_except_trans: "same_except P m m' \<Longrightarrow> same_except Q m' m'' \<Longrightarrow> same_except (P \<union> Q) m m''"
  by (auto simp: same_except_def)

lemma same_except_mono: "same_except P m m' \<Longrightarrow> P \<subseteq> Q \<Longrightarrow> same_except Q m m'"
  by (auto simp: same_except_def)

section \<open>The allocator interface\<close>

text \<open>
  What the paging code and the other users of pages rely on: \<open>avail s ps\<close> says that the pages
  \<open>ps\<close> are free; an allocation gives one of them, or none when there is none, a page given
  back is free again, and the memory of every other page is left alone.
\<close>

locale page_alloc =
  fixes alloc :: "'s \<Rightarrow> (u64 \<times> 's) res"
    and free :: "u64 \<Rightarrow> 's \<Rightarrow> 's res"
    and avail :: "'s \<Rightarrow> u64 list \<Rightarrow> bool"
    and usable :: "'s \<Rightarrow> u64 \<Rightarrow> bool"
    and memory :: "'s \<Rightarrow> pmem"
  assumes alloc_none: "avail s [] \<Longrightarrow> alloc s = Ret (0, s)"
    and alloc_some: "avail s (p # ps) \<Longrightarrow>
      returns (alloc s) (\<lambda>(r, s'). r = p \<and> avail s' ps \<and> usable s' p \<and> same_except {p} (memory s) (memory s'))"
    and free_page: "avail s ps \<Longrightarrow> usable s p \<Longrightarrow> p \<notin> set ps \<Longrightarrow>
      returns (free p s) (\<lambda>s'. avail s' (p # ps) \<and> same_except {p} (memory s) (memory s'))"
    and avail_usable: "avail s ps \<Longrightarrow> p \<in> set ps \<Longrightarrow> usable s p \<and> p \<noteq> 0 \<and> page_aligned p"
    and avail_distinct: "avail s ps \<Longrightarrow> distinct ps"
begin

lemma alloc_result:
  assumes "avail s ps"
  shows "returns (alloc s) (\<lambda>(r, s'). if ps = [] then r = 0 \<and> s' = s
    else r = hd ps \<and> avail s' (tl ps) \<and> usable s' r \<and> r \<noteq> 0 \<and> r \<notin> set (tl ps) \<and> same_except {r} (memory s) (memory s'))"
proof (cases ps)
  case Nil
  with assms show ?thesis by (simp add: alloc_none)
next
  case (Cons p qs)
  from alloc_some [of s p qs] assms Cons avail_usable [OF assms, of p] avail_distinct [OF assms]
  show ?thesis by (auto simp: returns_def)
qed

lemma alloc_free_cycle:
  assumes "avail s (p # ps)"
  shows "returns (bind_res (alloc s) (\<lambda>(r, s1). free r s1))
    (\<lambda>s'. avail s' (p # ps) \<and> same_except {p} (memory s) (memory s'))"
proof -
  obtain s1 where s1: "alloc s = Ret (p, s1)" "avail s1 ps" "usable s1 p" "same_except {p} (memory s) (memory s1)"
    using alloc_some [OF assms] by (auto simp: returns_def)
  have "p \<notin> set ps" using avail_distinct [OF assms] by simp
  from free_page [OF s1(2,3) this] s1 show ?thesis
    by (auto simp: returns_def dest: same_except_trans)
qed

end

lemma kmem_avail_usable: "kmem_inv s ps \<Longrightarrow> p \<in> set ps \<Longrightarrow> kmem_page s p \<and> p \<noteq> 0 \<and> page_aligned p"
  by (auto simp: kmem_inv_def kmem_page_def)

interpretation kpages: page_alloc kalloc kfree kmem_inv kmem_page pmem
proof unfold_locales
  fix s :: "'z kmem_scheme" and p ps
  show "kalloc s = Ret (0, s)" if "kmem_inv s []"
    using that by (rule kalloc_empty)
  show "returns (kalloc s) (\<lambda>(r, s'). r = p \<and> kmem_inv s' ps \<and> kmem_page s' p \<and> same_except {p} (pmem s) (pmem s'))"
    if "kmem_inv s (p # ps)"
    using that kalloc_inv [OF that]
    by (auto simp: kalloc_Cons [OF that] kmem_inv_def kmem_page_def fill_page_apply same_except_def)
  show "returns (kfree p s) (\<lambda>s'. kmem_inv s' (p # ps) \<and> same_except {p} (pmem s) (pmem s'))"
    if "kmem_inv s ps" "kmem_page s p" "p \<notin> set ps"
    using kfree_inv [OF that] that
    by (auto simp: kfree_eq [OF that(1,2)] kmem_page_def kfree_other_page same_except_def)
  show "distinct ps" if "kmem_inv s ps"
    using that by (simp add: kmem_inv_def)
qed (rule kmem_avail_usable)

section \<open>Properties of the allocator\<close>

text \<open>
  C26. \<open>kalloc\<close> and \<open>kfree\<close> keep the free list: the first free page is given out, and
  returned 0 when there is none; a page given back becomes the first free page; no byte
  outside the page concerned changes; a page that is misaligned or out of range makes
  \<open>kfree\<close> panic.
\<close>

theorem kalloc_kfree_free_list:
  assumes "kmem_inv s ps"
  shows "returns (kalloc s) (\<lambda>(r, s'). if ps = [] then r = 0 \<and> s' = s
      else r = hd ps \<and> kmem_inv s' (tl ps) \<and> kmem_page s' r \<and> r \<noteq> 0 \<and> r \<notin> set (tl ps) \<and>
        same_except {r} (pmem s) (pmem s')) \<and>
    (if kmem_page s p then p \<notin> set ps \<longrightarrow>
        returns (kfree p s) (\<lambda>s'. kmem_inv s' (p # ps) \<and> same_except {p} (pmem s) (pmem s'))
     else kfree p s = Panic ''kfree'')"
proof -
  have "\<not> kmem_page s p \<Longrightarrow> kfree p s = Panic ''kfree''"
    using assms by (auto simp: kfree_def kmem_page_def page_aligned_def kmem_inv_def not_less)
  then show ?thesis
    using kpages.alloc_result [OF assms] kpages.free_page [OF assms] by simp
qed

text \<open>A machine with two free pages, for the concrete instances.\<close>

definition demo_page1 :: u64 where "demo_page1 = 0x80022000"
definition demo_page2 :: u64 where "demo_page2 = 0x80023000"

definition demo_kmem :: kmem where
  "demo_kmem = \<lparr>held = [], wakes = [], cur = zero_proc,
     pmem = store64 demo_page1 demo_page2 (\<lambda>_. 0), freelist = demo_page1, kend = 0x80021a40\<rparr>"

lemma demo_pages:
  "page_aligned demo_page1" "page_aligned demo_page2" "demo_page1 \<noteq> demo_page2"
  by (simp_all add: page_aligned_def demo_page1_def demo_page2_def PGSIZE_def)

lemma demo_kmem_inv: "kmem_inv demo_kmem [demo_page1, demo_page2]"
proof -
  have "load64 demo_page2 (store64 demo_page1 demo_page2 (\<lambda>_. 0)) = load64 demo_page2 (\<lambda>_. 0)"
    using demo_pages by (intro load64_cong_page0) (simp_all add: store64_outside0)
  also have "\<dots> = 0"
    using load64_fill_zero [OF demo_pages(2), of 0 "\<lambda>_. 0"] by (simp add: fill_page_def)
  finally show ?thesis
    using demo_pages
    by (simp add: kmem_inv_def kmem_page_def demo_kmem_def)
      (simp add: demo_page1_def demo_page2_def PHYSTOP_def KERNBASE_def)
qed

theorem kalloc_kfree_free_list_witness:
  "returns (kalloc demo_kmem) (\<lambda>(r, s'). r = demo_page1 \<and> kmem_inv s' [demo_page2]) \<and>
   kfree 0x80022001 demo_kmem = Panic ''kfree''"
proof -
  have "\<not> kmem_page demo_kmem 0x80022001" by (simp add: kmem_page_def page_aligned_def PGSIZE_def)
  then show ?thesis
    using kalloc_kfree_free_list [OF demo_kmem_inv, of "0x80022001"] by (auto elim: returns_mono)
qed

end
