(* ===== verification/Vm.thy ===== *)
theory Vm
  imports Kalloc
begin

unbundle bit_operations_syntax

text \<open>
  Page tables and user memory (kernel/vm.c, and \<open>proc_mapstacks\<close> of kernel/proc.c).

  Page tables are the words of physical pages, as in the code: \<open>slot p i\<close> is the address
  of entry \<open>i\<close> of the table at \<open>p\<close>. Physical memory is total; the null pointer is the
  only one whose use is \<open>Fault\<close>. Loops over pages carry a bound on their iterations,
  computed from their arguments (\<open>NoReturn\<close> when it is used up); \<open>freewalk\<close> descends at
  most the three levels of an Sv39 table. The copy functions take and give the bytes on the
  kernel's side as lists.

  \<open>etext\<close> and \<open>trampoline\<close> are linker symbols and arguments of \<open>kvmmake\<close>.
\<close>

definition UART0 :: u64 where "UART0 = 0x10000000"
definition VIRTIO0 :: u64 where "VIRTIO0 = 0x10001000"
definition PLIC :: u64 where "PLIC = 0x0c000000"

definition pte_valid :: "u64 \<Rightarrow> bool" where
  "pte_valid pte \<longleftrightarrow> pte AND PTE_V \<noteq> 0"

definition memset_page :: "u64 \<Rightarrow> byte \<Rightarrow> 'z kmem_scheme \<Rightarrow> 'z kmem_scheme res" where
  "memset_page p c s = (if p = 0 then Fault else Ret (s\<lparr>pmem := fill_page p c (pmem s)\<rparr>))"

section \<open>walk\<close>

text \<open>\<open>walk_loop level\<close>: the iterations of \<open>walk\<close> from this level down, then the entry of level 0.\<close>

fun walk_loop :: "nat \<Rightarrow> u64 \<Rightarrow> u64 \<Rightarrow> bool \<Rightarrow> 'z kmem_scheme \<Rightarrow> (u64 \<times> 'z kmem_scheme) res" where
  "walk_loop 0 pagetable va alloc s = Ret (slot pagetable (PX 0 va), s)"
| "walk_loop (Suc l) pagetable va alloc s =
     (let pte = slot pagetable (PX (Suc l) va); v = load64 pte (pmem s) in
      if pte_valid v then walk_loop l (PTE2PA v) va alloc s
      else if \<not> alloc then Ret (0, s)
      else bind_res (kalloc s) (\<lambda>(p, s1).
        if p = 0 then Ret (0, s1)
        else bind_res (memset_page p 0 s1) (\<lambda>s2.
          walk_loop l p va alloc (s2\<lparr>pmem := store64 pte (PA2PTE p OR PTE_V) (pmem s2)\<rparr>))))"

definition walk :: "u64 \<Rightarrow> u64 \<Rightarrow> bool \<Rightarrow> 'z kmem_scheme \<Rightarrow> (u64 \<times> 'z kmem_scheme) res" where
  "walk pagetable va alloc s =
     (if va \<ge> MAXVA then Panic ''walk'' else walk_loop 2 pagetable va alloc s)"

definition walkaddr :: "u64 \<Rightarrow> u64 \<Rightarrow> 'z kmem_scheme \<Rightarrow> u64 res" where
  "walkaddr pagetable va s =
     (if va \<ge> MAXVA then Ret 0
      else bind_res (walk pagetable va False s) (\<lambda>(pte, _).
        if pte = 0 then Ret 0
        else let v = load64 pte (pmem s) in
          if \<not> pte_valid v then Ret 0
          else if v AND PTE_U = 0 then Ret 0
          else Ret (PTE2PA v)))"

section \<open>Mapping and unmapping\<close>

fun mappages_loop :: "nat \<Rightarrow> u64 \<Rightarrow> u64 \<Rightarrow> u64 \<Rightarrow> u64 \<Rightarrow> u64 \<Rightarrow> 'z kmem_scheme \<Rightarrow> (int \<times> 'z kmem_scheme) res" where
  "mappages_loop 0 pagetable a final pa perm s = NoReturn"
| "mappages_loop (Suc k) pagetable a final pa perm s =
     bind_res (walk pagetable a True s) (\<lambda>(pte, s1).
       if pte = 0 then Ret (-1, s1)
       else if pte_valid (load64 pte (pmem s1)) then Panic ''remap''
       else let s2 = s1\<lparr>pmem := store64 pte (PA2PTE pa OR perm OR PTE_V) (pmem s1)\<rparr> in
         if a = final then Ret (0, s2)
         else mappages_loop k pagetable (a + PGSIZE) final (pa + PGSIZE) perm s2)"

definition mappages :: "u64 \<Rightarrow> u64 \<Rightarrow> u64 \<Rightarrow> u64 \<Rightarrow> u64 \<Rightarrow> 'z kmem_scheme \<Rightarrow> (int \<times> 'z kmem_scheme) res" where
  "mappages pagetable va sz pa perm s =
     (let a = PGROUNDDOWN va; final = PGROUNDDOWN (va + sz - 1)
      in mappages_loop (unat ((final - a) div PGSIZE) + 1) pagetable a final pa perm s)"

definition kvmmap :: "u64 \<Rightarrow> u64 \<Rightarrow> u64 \<Rightarrow> u64 \<Rightarrow> u64 \<Rightarrow> 'z kmem_scheme \<Rightarrow> 'z kmem_scheme res" where
  "kvmmap kpgtbl va pa sz perm s =
     bind_res (mappages kpgtbl va sz pa perm s) (\<lambda>(r, s1). if r \<noteq> 0 then Panic ''kvmmap'' else Ret s1)"

fun uvmunmap_loop :: "nat \<Rightarrow> u64 \<Rightarrow> u64 \<Rightarrow> u64 \<Rightarrow> bool \<Rightarrow> 'z kmem_scheme \<Rightarrow> 'z kmem_scheme res" where
  "uvmunmap_loop 0 pagetable a end do_free s = NoReturn"
| "uvmunmap_loop (Suc k) pagetable a end do_free s =
     (if \<not> a < end then Ret s
      else bind_res (walk pagetable a False s) (\<lambda>(pte, s1).
        if pte = 0 then Panic ''uvmunmap: walk''
        else let v = load64 pte (pmem s1) in
          if \<not> pte_valid v then Panic ''uvmunmap: not mapped''
          else if PTE_FLAGS v = PTE_V then Panic ''uvmunmap: not a leaf''
          else bind_res (if do_free then kfree (PTE2PA v) s1 else Ret s1) (\<lambda>s2.
            uvmunmap_loop k pagetable (a + PGSIZE) end do_free (s2\<lparr>pmem := store64 pte 0 (pmem s2)\<rparr>))))"

definition uvmunmap :: "u64 \<Rightarrow> u64 \<Rightarrow> u64 \<Rightarrow> bool \<Rightarrow> 'z kmem_scheme \<Rightarrow> 'z kmem_scheme res" where
  "uvmunmap pagetable va npages do_free s =
     (if va mod PGSIZE \<noteq> 0 then Panic ''uvmunmap: not aligned''
      else uvmunmap_loop (unat npages + 1) pagetable va (va + npages * PGSIZE) do_free s)"

section \<open>User address spaces\<close>

definition uvmcreate :: "'z kmem_scheme \<Rightarrow> (u64 \<times> 'z kmem_scheme) res" where
  "uvmcreate s =
     bind_res (kalloc s) (\<lambda>(pagetable, s1).
       if pagetable = 0 then Ret (0, s1)
       else bind_res (memset_page pagetable 0 s1) (\<lambda>s2. Ret (pagetable, s2)))"

definition uvminit :: "u64 \<Rightarrow> byte list \<Rightarrow> 'z kmem_scheme \<Rightarrow> 'z kmem_scheme res" where
  "uvminit pagetable src s =
     (if length src \<ge> unat PGSIZE then Panic ''inituvm: more than a page''
      else bind_res (kalloc s) (\<lambda>(mem, s1).
        bind_res (memset_page mem 0 s1) (\<lambda>s2.
        bind_res (mappages pagetable 0 PGSIZE mem (PTE_W OR PTE_R OR PTE_X OR PTE_U) s2) (\<lambda>(r, s3).
        Ret (s3\<lparr>pmem := write_bytes mem src (pmem s3)\<rparr>)))))"

definition uvmdealloc :: "u64 \<Rightarrow> u64 \<Rightarrow> u64 \<Rightarrow> 'z kmem_scheme \<Rightarrow> (u64 \<times> 'z kmem_scheme) res" where
  "uvmdealloc pagetable oldsz newsz s =
     (if newsz \<ge> oldsz then Ret (oldsz, s)
      else if PGROUNDUP newsz < PGROUNDUP oldsz then
        let npages = (ucast ((PGROUNDUP oldsz - PGROUNDUP newsz) div PGSIZE) :: 32 word) in
        bind_res (uvmunmap pagetable (PGROUNDUP newsz) (scast npages) True s) (\<lambda>s1. Ret (newsz, s1))
      else Ret (newsz, s))"

fun uvmalloc_loop :: "nat \<Rightarrow> u64 \<Rightarrow> u64 \<Rightarrow> u64 \<Rightarrow> u64 \<Rightarrow> 'z kmem_scheme \<Rightarrow> (u64 \<times> 'z kmem_scheme) res" where
  "uvmalloc_loop 0 pagetable a oldsz newsz s = NoReturn"
| "uvmalloc_loop (Suc k) pagetable a oldsz newsz s =
     (if \<not> a < newsz then Ret (newsz, s)
      else bind_res (kalloc s) (\<lambda>(mem, s1).
        if mem = 0 then bind_res (uvmdealloc pagetable a oldsz s1) (\<lambda>(_, s2). Ret (0, s2))
        else bind_res (memset_page mem 0 s1) (\<lambda>s2.
          bind_res (mappages pagetable a PGSIZE mem (PTE_W OR PTE_X OR PTE_R OR PTE_U) s2) (\<lambda>(r, s3).
          if r \<noteq> 0 then
            bind_res (kfree mem s3) (\<lambda>s4.
            bind_res (uvmdealloc pagetable a oldsz s4) (\<lambda>(_, s5). Ret (0, s5)))
          else uvmalloc_loop k pagetable (a + PGSIZE) oldsz newsz s3))))"

definition uvmalloc :: "u64 \<Rightarrow> u64 \<Rightarrow> u64 \<Rightarrow> 'z kmem_scheme \<Rightarrow> (u64 \<times> 'z kmem_scheme) res" where
  "uvmalloc pagetable oldsz newsz s =
     (if newsz < oldsz then Ret (oldsz, s)
      else let oldsz1 = PGROUNDUP oldsz
           in uvmalloc_loop (unat ((newsz - oldsz1) div PGSIZE) + 2) pagetable oldsz1 oldsz1 newsz s)"

text \<open>\<open>freewalk\<close>: \<open>d\<close> levels may be entered below this table, \<open>k\<close> entries of it are to go.\<close>

fun freewalk_from :: "nat \<Rightarrow> nat \<Rightarrow> u64 \<Rightarrow> 'z kmem_scheme \<Rightarrow> 'z kmem_scheme res" where
  "freewalk_from d 0 pagetable s = kfree pagetable s"
| "freewalk_from d (Suc k) pagetable s =
     (let i = of_nat (512 - Suc k); pte = load64 (slot pagetable i) (pmem s) in
      if pte_valid pte \<and> pte AND (PTE_R OR PTE_W OR PTE_X) = 0 then
        (case d of 0 \<Rightarrow> NoReturn
         | Suc d' \<Rightarrow>
             bind_res (freewalk_from d' 512 (PTE2PA pte) s) (\<lambda>s1.
             freewalk_from d k pagetable (s1\<lparr>pmem := store64 (slot pagetable i) 0 (pmem s1)\<rparr>)))
      else if pte_valid pte then Panic ''freewalk: leaf''
      else freewalk_from d k pagetable s)"

definition freewalk :: "u64 \<Rightarrow> 'z kmem_scheme \<Rightarrow> 'z kmem_scheme res" where
  "freewalk pagetable s = freewalk_from 3 512 pagetable s"

definition uvmfree :: "u64 \<Rightarrow> u64 \<Rightarrow> 'z kmem_scheme \<Rightarrow> 'z kmem_scheme res" where
  "uvmfree pagetable sz s =
     bind_res (if sz > 0 then uvmunmap pagetable 0 (PGROUNDUP sz div PGSIZE) True s else Ret s) (freewalk pagetable)"

fun uvmcopy_loop :: "nat \<Rightarrow> u64 \<Rightarrow> u64 \<Rightarrow> u64 \<Rightarrow> u64 \<Rightarrow> 'z kmem_scheme \<Rightarrow> (int \<times> 'z kmem_scheme) res" where
  "uvmcopy_loop 0 old new i sz s = NoReturn"
| "uvmcopy_loop (Suc k) old new i sz s =
     (if \<not> i < sz then Ret (0, s)
      else bind_res (walk old i False s) (\<lambda>(pte, s1).
        if pte = 0 then Panic ''uvmcopy: pte should exist''
        else let v = load64 pte (pmem s1) in
          if \<not> pte_valid v then Panic ''uvmcopy: page not present''
          else let pa = PTE2PA v; flags = PTE_FLAGS v in
            bind_res (kalloc s1) (\<lambda>(mem, s2).
            if mem = 0 then bind_res (uvmunmap new 0 (i div PGSIZE) True s2) (\<lambda>s3. Ret (-1, s3))
            else let s3 = s2\<lparr>pmem := copy_page mem pa (pmem s2)\<rparr> in
              bind_res (mappages new i PGSIZE mem flags s3) (\<lambda>(r, s4).
              if r \<noteq> 0 then
                bind_res (kfree mem s4) (\<lambda>s5.
                bind_res (uvmunmap new 0 (i div PGSIZE) True s5) (\<lambda>s6. Ret (-1, s6)))
              else uvmcopy_loop k old new (i + PGSIZE) sz s4))))"

definition uvmcopy :: "u64 \<Rightarrow> u64 \<Rightarrow> u64 \<Rightarrow> 'z kmem_scheme \<Rightarrow> (int \<times> 'z kmem_scheme) res" where
  "uvmcopy old new sz s = uvmcopy_loop (unat (sz div PGSIZE) + 2) old new 0 sz s"

definition uvmclear :: "u64 \<Rightarrow> u64 \<Rightarrow> 'z kmem_scheme \<Rightarrow> 'z kmem_scheme res" where
  "uvmclear pagetable va s =
     bind_res (walk pagetable va False s) (\<lambda>(pte, s1).
       if pte = 0 then Panic ''uvmclear''
       else Ret (s1\<lparr>pmem := store64 pte (load64 pte (pmem s1) AND NOT PTE_U) (pmem s1)\<rparr>))"

section \<open>Copying between user and kernel\<close>

text \<open>How much of \<open>len\<close> bytes at \<open>va\<close> lies in the page of \<open>va\<close>: at least one byte.\<close>

definition in_page_count :: "u64 \<Rightarrow> nat \<Rightarrow> nat" where
  "in_page_count va len = min (unat (PGSIZE - (va - PGROUNDDOWN va))) len"

lemma in_page_count_pos: "0 < len \<Longrightarrow> 0 < in_page_count va len"
proof -
  have "va - PGROUNDDOWN va < PGSIZE" by (simp add: in_page_iff)
  then have "PGSIZE - (va - PGROUNDDOWN va) \<noteq> 0" by auto
  then have "0 < unat (PGSIZE - (va - PGROUNDDOWN va))" by (simp add: unat_gt_0)
  moreover assume "0 < len"
  ultimately show ?thesis by (simp add: in_page_count_def)
qed

function copyout :: "u64 \<Rightarrow> u64 \<Rightarrow> byte list \<Rightarrow> 'z kmem_scheme \<Rightarrow> (int \<times> 'z kmem_scheme) res" where
  "copyout pagetable dstva src s =
     (if src = [] then Ret (0, s)
      else let va0 = PGROUNDDOWN dstva in
        bind_res (walkaddr pagetable va0 s) (\<lambda>pa0.
        if pa0 = 0 then Ret (-1, s)
        else let n = in_page_count dstva (length src) in
          copyout pagetable (va0 + PGSIZE) (drop n src)
            (s\<lparr>pmem := write_bytes (pa0 + (dstva - va0)) (take n src) (pmem s)\<rparr>)))"
  by pat_completeness auto
termination
  by (relation "measure (\<lambda>(pagetable, dstva, src, s). length src)") (auto simp: in_page_count_pos)

text \<open>The second component is what has been stored at \<open>dst\<close>, also when the copy fails midway.\<close>

function copyin :: "u64 \<Rightarrow> u64 \<Rightarrow> nat \<Rightarrow> 'z kmem_scheme \<Rightarrow> (int \<times> byte list) res" where
  "copyin pagetable srcva len s =
     (if len = 0 then Ret (0, [])
      else let va0 = PGROUNDDOWN srcva in
        bind_res (walkaddr pagetable va0 s) (\<lambda>pa0.
        if pa0 = 0 then Ret (-1, [])
        else let n = in_page_count srcva len in
          bind_res (copyin pagetable (va0 + PGSIZE) (len - n) s) (\<lambda>(r, bs).
          Ret (r, read_bytes (pa0 + (srcva - va0)) n (pmem s) @ bs))))"
  by pat_completeness auto
termination
  by (relation "measure (\<lambda>(pagetable, srcva, len, s). len)") (auto simp: in_page_count_pos)

text \<open>The bytes up to the first zero of at most \<open>n\<close> bytes at \<open>p\<close>, and whether there was one.\<close>

fun copy_to_nul :: "u64 \<Rightarrow> nat \<Rightarrow> pmem \<Rightarrow> byte list \<times> bool" where
  "copy_to_nul p 0 m = ([], False)"
| "copy_to_nul p (Suc n) m =
     (if m p = 0 then ([0], True) else let (bs, nul) = copy_to_nul (p + 1) n m in (m p # bs, nul))"

function copyinstr :: "u64 \<Rightarrow> u64 \<Rightarrow> nat \<Rightarrow> 'z kmem_scheme \<Rightarrow> (int \<times> byte list) res" where
  "copyinstr pagetable srcva mx s =
     (if mx = 0 then Ret (-1, [])
      else let va0 = PGROUNDDOWN srcva in
        bind_res (walkaddr pagetable va0 s) (\<lambda>pa0.
        if pa0 = 0 then Ret (-1, [])
        else let n = in_page_count srcva mx; (bs, nul) = copy_to_nul (pa0 + (srcva - va0)) n (pmem s) in
          if nul then Ret (0, bs)
          else bind_res (copyinstr pagetable (va0 + PGSIZE) (mx - n) s) (\<lambda>(r, bs'). Ret (r, bs @ bs'))))"
  by pat_completeness auto
termination
  by (relation "measure (\<lambda>(pagetable, srcva, mx, s). mx)") (auto simp: in_page_count_pos)

declare copyout.simps [simp del] copyin.simps [simp del] copyinstr.simps [simp del]

section \<open>The kernel's page table\<close>

fun proc_mapstacks_loop :: "nat \<Rightarrow> nat \<Rightarrow> u64 \<Rightarrow> 'z kmem_scheme \<Rightarrow> 'z kmem_scheme res" where
  "proc_mapstacks_loop n 0 kpgtbl s = Ret s"
| "proc_mapstacks_loop n (Suc k) kpgtbl s =
     bind_res (kalloc s) (\<lambda>(pa, s1).
       if pa = 0 then Panic ''kalloc''
       else bind_res (kvmmap kpgtbl (KSTACK n) pa PGSIZE (PTE_R OR PTE_W) s1)
              (proc_mapstacks_loop (n + 1) k kpgtbl))"

definition proc_mapstacks :: "u64 \<Rightarrow> 'z kmem_scheme \<Rightarrow> 'z kmem_scheme res" where
  "proc_mapstacks kpgtbl s = proc_mapstacks_loop 0 NPROC kpgtbl s"

definition kvmmake :: "u64 \<Rightarrow> u64 \<Rightarrow> 'z kmem_scheme \<Rightarrow> (u64 \<times> 'z kmem_scheme) res" where
  "kvmmake etext trampoline s =
     bind_res (kalloc s) (\<lambda>(kpgtbl, s0).
     bind_res (memset_page kpgtbl 0 s0) (\<lambda>s1.
     bind_res (kvmmap kpgtbl UART0 UART0 PGSIZE (PTE_R OR PTE_W) s1) (\<lambda>s2.
     bind_res (kvmmap kpgtbl VIRTIO0 VIRTIO0 PGSIZE (PTE_R OR PTE_W) s2) (\<lambda>s3.
     bind_res (kvmmap kpgtbl PLIC PLIC 0x400000 (PTE_R OR PTE_W) s3) (\<lambda>s4.
     bind_res (kvmmap kpgtbl KERNBASE KERNBASE (etext - KERNBASE) (PTE_R OR PTE_X) s4) (\<lambda>s5.
     bind_res (kvmmap kpgtbl etext etext (PHYSTOP - etext) (PTE_R OR PTE_W) s5) (\<lambda>s6.
     bind_res (kvmmap kpgtbl TRAMPOLINE trampoline PGSIZE (PTE_R OR PTE_X) s6) (\<lambda>s7.
     bind_res (proc_mapstacks kpgtbl s7) (\<lambda>s8. Ret (kpgtbl, s8))))))))))"

end
