(* ===== verification/Page_Table.thy ===== *)
theory Page_Table
  imports Vm
begin

unbundle bit_operations_syntax

text \<open>
  What the three-level page tables of kernel/vm.c represent. \<open>pte_at m l pt va\<close> is the
  entry that a table of level \<open>l\<close> at \<open>pt\<close> has for \<open>va\<close> (0 when a table on the
  way is missing): the table as a map from virtual pages to entries. \<open>ptree m l pt P\<close> says
  that the table is a tree whose pages are exactly \<open>P\<close>, no page shared.

  \<open>walk\<close> is the lookup of that map and, when it allocates, extends the tree without
  changing the map; a store to the entry it returns updates the map at that page alone.
  So \<open>mappages\<close> is an update of the map.
\<close>

section \<open>Entries\<close>

lemma pte_valid_bit: "pte_valid v \<longleftrightarrow> bit v 0"
  by (simp add: pte_valid_def PTE_V_def bit_iff_and_push_bit_not_eq_0)

lemma pte_valid_0 [simp]: "\<not> pte_valid 0"
  by (simp add: pte_valid_bit)

lemma PTE_V_1: "PTE_V = 1"
  by (simp add: PTE_V_def)

lemma pte_valid_or [simp]: "pte_valid (v OR PTE_V)"
  by (simp add: pte_valid_bit PTE_V_1 bit_or_iff)

lemma page_aligned_PTE2PA [simp]: "page_aligned (PTE2PA v)"
  unfolding page_aligned_iff PGROUNDDOWN_bits PTE2PA_def
  by (rule bit_word_eqI) (auto simp: bit_simps)

lemma PX_less [simp]: "PX l va < 512"
proof -
  have "PX l va = take_bit 9 (drop_bit (PXSHIFT l) va)"
    by (simp add: PX_def PXMASK_def take_bit_eq_mask mask_eq_exp_minus_1)
  then have "unat (PX l va) < 512" by (simp add: take_bit_eq_mod unat_mod)
  then show ?thesis by (simp add: word_less_nat_alt)
qed

text \<open>Physical addresses the kernel hands out: page-aligned, not null, below the end of RAM.\<close>

definition phys_page :: "u64 \<Rightarrow> bool" where
  "phys_page p \<longleftrightarrow> page_aligned p \<and> p \<noteq> 0 \<and> p < PHYSTOP"

lemma phys_page_high: "phys_page p \<Longrightarrow> drop_bit 56 p = 0"
proof -
  assume "phys_page p"
  then have "unat p < 2 ^ 56"
    by (auto simp: phys_page_def PHYSTOP_def KERNBASE_def word_less_nat_alt)
  then have "unat (drop_bit 56 p) = 0"
    by (simp add: drop_bit_eq_div unat_div)
  then show ?thesis by (metis unat_eq_zero)
qed

lemma PTE2PA_table:
  assumes "phys_page p"
  shows "PTE2PA (PA2PTE p OR PTE_V) = p"
proof (rule PTE2PA_PA2PTE)
  show "page_aligned p" using assms by (simp add: phys_page_def)
  show "drop_bit 56 p = 0" using assms by (rule phys_page_high)
  show "drop_bit 10 PTE_V = 0" by (simp add: PTE_V_1)
qed

section \<open>Tables as maps\<close>

fun pt_walk :: "pmem \<Rightarrow> nat \<Rightarrow> u64 \<Rightarrow> u64 \<Rightarrow> u64 option" where
  "pt_walk m 0 pt va = Some (slot pt (PX 0 va))"
| "pt_walk m (Suc l) pt va =
     (let v = load64 (slot pt (PX (Suc l) va)) m
      in if pte_valid v then pt_walk m l (PTE2PA v) va else None)"

definition pte_at :: "pmem \<Rightarrow> nat \<Rightarrow> u64 \<Rightarrow> u64 \<Rightarrow> u64" where
  "pte_at m l pt va = (case pt_walk m l pt va of None \<Rightarrow> 0 | Some a \<Rightarrow> load64 a m)"

lemma pte_at_0: "pte_at m 0 pt va = load64 (slot pt (PX 0 va)) m"
  by (simp add: pte_at_def)

lemma pte_at_Suc:
  "pte_at m (Suc l) pt va =
     (let v = load64 (slot pt (PX (Suc l) va)) m in if pte_valid v then pte_at m l (PTE2PA v) va else 0)"
  by (simp add: pte_at_def Let_def)

inductive ptree :: "pmem \<Rightarrow> nat \<Rightarrow> u64 \<Rightarrow> u64 set \<Rightarrow> bool" for m where
  pt_leaf: "page_aligned pt \<Longrightarrow> ptree m 0 pt {pt}"
| pt_node: "page_aligned pt \<Longrightarrow>
    (\<And>i. i < 512 \<Longrightarrow> pte_valid (load64 (slot pt i) m) \<Longrightarrow> ptree m l (PTE2PA (load64 (slot pt i) m)) (P i)) \<Longrightarrow>
    (\<And>i. i < 512 \<Longrightarrow> \<not> pte_valid (load64 (slot pt i) m) \<Longrightarrow> P i = {}) \<Longrightarrow>
    (\<And>i. i < 512 \<Longrightarrow> pt \<notin> P i) \<Longrightarrow>
    (\<And>i j. i < 512 \<Longrightarrow> j < 512 \<Longrightarrow> i \<noteq> j \<Longrightarrow> P i \<inter> P j = {}) \<Longrightarrow>
    ptree m (Suc l) pt (insert pt (\<Union>i \<in> {i. i < 512}. P i))"

inductive_cases ptree_0E: "ptree m 0 pt P"
inductive_cases ptree_SucE: "ptree m (Suc l) pt P"

definition ptree_node :: "pmem \<Rightarrow> nat \<Rightarrow> u64 \<Rightarrow> (u64 \<Rightarrow> u64 set) \<Rightarrow> u64 set \<Rightarrow> bool" where
  "ptree_node m l pt F P \<longleftrightarrow> P = insert pt (\<Union>i \<in> {i. i < 512}. F i) \<and> page_aligned pt \<and>
     (\<forall>i < 512. pte_valid (load64 (slot pt i) m) \<longrightarrow> ptree m l (PTE2PA (load64 (slot pt i) m)) (F i)) \<and>
     (\<forall>i < 512. \<not> pte_valid (load64 (slot pt i) m) \<longrightarrow> F i = {}) \<and>
     (\<forall>i < 512. pt \<notin> F i) \<and> (\<forall>i < 512. \<forall>j < 512. i \<noteq> j \<longrightarrow> F i \<inter> F j = {})"

lemma ptree_SucD: "ptree m (Suc l) pt P \<Longrightarrow> \<exists>F. ptree_node m l pt F P"
  unfolding ptree_node_def by (erule ptree_SucE) (rule exI, intro conjI allI impI; assumption?; blast)

lemma ptree_nodeD:
  assumes "ptree_node m l pt F P"
  shows "P = insert pt (\<Union>i \<in> {i. i < 512}. F i)" "page_aligned pt"
    "\<And>i. i < 512 \<Longrightarrow> pte_valid (load64 (slot pt i) m) \<Longrightarrow> ptree m l (PTE2PA (load64 (slot pt i) m)) (F i)"
    "\<And>i. i < 512 \<Longrightarrow> \<not> pte_valid (load64 (slot pt i) m) \<Longrightarrow> F i = {}"
    "\<And>i. i < 512 \<Longrightarrow> pt \<notin> F i"
    "\<And>i j. i < 512 \<Longrightarrow> j < 512 \<Longrightarrow> i \<noteq> j \<Longrightarrow> F i \<inter> F j = {}"
  using assms by (simp_all add: ptree_node_def)

lemma ptree_root: "ptree m l pt P \<Longrightarrow> pt \<in> P \<and> page_aligned pt"
  by (induction rule: ptree.induct) auto

text \<open>A change outside the pages of a tree does not concern it.\<close>

lemma ptree_frame:
  assumes "ptree m l pt P" and "\<And>x. PGROUNDDOWN x \<in> P \<Longrightarrow> m' x = m x"
  shows "ptree m' l pt P \<and> pt_walk m' l pt va = pt_walk m l pt va \<and> pte_at m' l pt va = pte_at m l pt va"
  using assms
proof (induction rule: ptree.induct)
  case (pt_leaf pt)
  then have "load64 (slot pt (PX 0 va)) m' = load64 (slot pt (PX 0 va)) m"
    by (intro load64_cong_page) auto
  with pt_leaf show ?case by (simp add: pte_at_0 ptree.pt_leaf)
next
  case (pt_node pt l P)
  have eq: "load64 (slot pt i) m' = load64 (slot pt i) m" if "i < 512" for i
    using pt_node.prems pt_node.hyps(1) that by (intro load64_cong_page) auto
  have IH: "ptree m' l (PTE2PA (load64 (slot pt i) m)) (P i) \<and>
      pt_walk m' l (PTE2PA (load64 (slot pt i) m)) va = pt_walk m l (PTE2PA (load64 (slot pt i) m)) va \<and>
      pte_at m' l (PTE2PA (load64 (slot pt i) m)) va = pte_at m l (PTE2PA (load64 (slot pt i) m)) va"
    if "i < 512" "pte_valid (load64 (slot pt i) m)" for i
    using pt_node.IH [OF that] pt_node.prems that by auto
  have "ptree m' (Suc l) pt (insert pt (\<Union>i \<in> {i. i < 512}. P i))"
    using IH pt_node.hyps eq by (intro ptree.pt_node) auto
  with IH [of "PX (Suc l) va"] eq [of "PX (Suc l) va"] show ?case
    by (simp add: pte_at_Suc Let_def)
qed

text \<open>The entry a walk ends at lies in a page of the tree, and only one page index leads there.\<close>

lemma pt_walk_slot:
  "ptree m l pt P \<Longrightarrow> pt_walk m l pt va = Some a \<Longrightarrow> \<exists>q \<in> P. page_aligned q \<and> a = slot q (PX 0 va)"
proof (induction rule: ptree.induct)
  case (pt_node pt l P)
  let ?i = "PX (Suc l) va"
  from pt_node.prems have v: "pte_valid (load64 (slot pt ?i) m)"
    and w: "pt_walk m l (PTE2PA (load64 (slot pt ?i) m)) va = Some a"
    by (auto simp: Let_def split: if_splits)
  from pt_node.IH [OF PX_less v w] obtain q where "q \<in> P ?i" "page_aligned q" "a = slot q (PX 0 va)" by blast
  then show ?case by (intro bexI [of _ q]) auto
qed auto

lemma slot_eq_iff:
  assumes "page_aligned p" "page_aligned q" "i < 512" "j < 512"
  shows "slot p i = slot q j \<longleftrightarrow> p = q \<and> i = j"
proof
  assume e: "slot p i = slot q j"
  have "PGROUNDDOWN (slot p i + of_nat 0) = p" "PGROUNDDOWN (slot q j + of_nat 0) = q"
    using assms by (intro slot_page; simp)+
  with e have "p = q" by simp
  moreover from this e have "8 * i = 8 * j" by (simp add: slot_def)
  then have "unat i = unat j"
    using slot_offset(1) [OF assms(3), of 0] slot_offset(1) [OF assms(4), of 0] by simp
  ultimately show "p = q \<and> i = j" by (simp add: unat_inject)
qed simp

text \<open>Replacing the tree below one entry, or filling an entry that was not valid.\<close>

lemma ptree_update:
  assumes pt: "page_aligned pt" and i: "i < 512"
    and sub: "\<And>j. j < 512 \<Longrightarrow> pte_valid (load64 (slot pt j) m) \<Longrightarrow> ptree m l (PTE2PA (load64 (slot pt j) m)) (P j)"
    and empty: "\<And>j. j < 512 \<Longrightarrow> \<not> pte_valid (load64 (slot pt j) m) \<Longrightarrow> P j = {}"
    and root: "\<And>j. j < 512 \<Longrightarrow> pt \<notin> P j"
    and disj: "\<And>j k. j < 512 \<Longrightarrow> k < 512 \<Longrightarrow> j \<noteq> k \<Longrightarrow> P j \<inter> P k = {}"
    and entries: "\<And>j. j < 512 \<Longrightarrow> j \<noteq> i \<Longrightarrow> load64 (slot pt j) m' = load64 (slot pt j) m"
    and valid: "pte_valid (load64 (slot pt i) m')"
    and child: "ptree m' l (PTE2PA (load64 (slot pt i) m')) (P i \<union> Q)"
    and others: "\<And>j x. j < 512 \<Longrightarrow> j \<noteq> i \<Longrightarrow> PGROUNDDOWN x \<in> P j \<Longrightarrow> m' x = m x"
    and fresh: "pt \<notin> Q" "\<And>j. j < 512 \<Longrightarrow> P j \<inter> Q = {}"
  shows "ptree m' (Suc l) pt (insert pt (\<Union>j \<in> {j. j < 512}. P j) \<union> Q)"
proof -
  define P' where "P' = P(i := P i \<union> Q)"
  have "insert pt (\<Union>j \<in> {j. j < 512}. P j) \<union> Q = insert pt (\<Union>j \<in> {j. j < 512}. P' j)"
    using i by (auto simp: P'_def)
  moreover have "ptree m' (Suc l) pt (insert pt (\<Union>j \<in> {j. j < 512}. P' j))"
  proof (rule ptree.pt_node [OF pt])
    fix j :: u64
    assume j: "j < 512"
    show "pt \<notin> P' j" using root [OF j] fresh(1) by (auto simp: P'_def)
    show "P' j = {}" if "\<not> pte_valid (load64 (slot pt j) m')"
      using that valid entries [OF j] empty [OF j] by (cases "j = i") (auto simp: P'_def)
    show "ptree m' l (PTE2PA (load64 (slot pt j) m')) (P' j)" if v: "pte_valid (load64 (slot pt j) m')"
    proof (cases "j = i")
      case False
      then have e: "load64 (slot pt j) m' = load64 (slot pt j) m" by (rule entries [OF j])
      with v have "ptree m l (PTE2PA (load64 (slot pt j) m)) (P j)" using sub [OF j] by simp
      from ptree_frame [OF this, of m'] others [OF j False] False e show ?thesis by (simp add: P'_def)
    qed (use child in \<open>simp add: P'_def\<close>)
    show "P' j \<inter> P' k = {}" if "k < 512" "j \<noteq> k" for k
      using disj [OF j that] fresh(2) [OF j] fresh(2) [OF that(1)] that(2) by (auto simp: P'_def)
  qed
  ultimately show ?thesis by simp
qed

lemma store_in_tree:
  assumes "ptree m l pt P" and "pt_walk m l pt va = Some a"
  shows "ptree (store64 a v m) l pt P \<and> pte_at (store64 a v m) l pt va' =
    (if \<forall>k \<le> l. PX k va' = PX k va then v else pte_at m l pt va')"
  using assms
proof (induction arbitrary: a rule: ptree.induct)
  case (pt_leaf pt)
  then have a: "a = slot pt (PX 0 va)" by simp
  have "load64 (slot pt (PX 0 va')) (store64 a v m) = (if PX 0 va' = PX 0 va then v else load64 (slot pt (PX 0 va')) m)"
    unfolding a using pt_leaf.hyps by (simp add: load_store_slots)
  with pt_leaf.hyps show ?case by (simp add: pte_at_0 ptree.pt_leaf)
next
  case (pt_node pt l P)
  let ?i = "PX (Suc l) va" and ?m = "store64 a v m"
  from pt_node.prems have vi: "pte_valid (load64 (slot pt ?i) m)"
    and w: "pt_walk m l (PTE2PA (load64 (slot pt ?i) m)) va = Some a"
    by (auto simp: Let_def split: if_splits)
  from pt_walk_slot [OF pt_node.hyps(2) [OF PX_less vi] w]
  obtain q where q: "q \<in> P ?i" "page_aligned q" "a = slot q (PX 0 va)" by blast
  have out: "?m x = m x" if "PGROUNDDOWN x \<noteq> q" for x
    using that q by (simp add: store64_outside)
  have "pt \<noteq> q" using pt_node.hyps(4) [OF PX_less] q(1) by metis
  then have entries: "load64 (slot pt j) ?m = load64 (slot pt j) m" if "j < 512" for j
    using load64_cong_page [OF pt_node.hyps(1) that, of ?m m] out by metis
  have sub: "ptree ?m l (PTE2PA (load64 (slot pt ?i) m)) (P ?i)"
    and at: "pte_at ?m l (PTE2PA (load64 (slot pt ?i) m)) va' =
      (if \<forall>k \<le> l. PX k va' = PX k va then v else pte_at m l (PTE2PA (load64 (slot pt ?i) m)) va')"
    using pt_node.IH [OF PX_less vi w] by blast+
  have others: "?m x = m x" if "j < 512" "j \<noteq> ?i" "PGROUNDDOWN x \<in> P j" for j x
  proof (rule out)
    show "PGROUNDDOWN x \<noteq> q" using pt_node.hyps(5) [OF that(1) PX_less that(2)] that(3) q(1) by (metis disjoint_iff)
  qed
  have "ptree ?m (Suc l) pt (insert pt (\<Union>j \<in> {j. j < 512}. P j) \<union> {})"
  proof (rule ptree_update [where i = ?i and m = m])
    show "pte_valid (load64 (slot pt ?i) ?m)" using vi by (simp add: entries)
    show "ptree ?m l (PTE2PA (load64 (slot pt ?i) ?m)) (P ?i \<union> {})" using sub by (simp add: entries)
  qed (use pt_node.hyps entries others in \<open>simp_all\<close>)
  moreover have "pte_at ?m (Suc l) pt va' = (if \<forall>k \<le> Suc l. PX k va' = PX k va then v else pte_at m (Suc l) pt va')"
  proof (cases "PX (Suc l) va' = ?i")
    case True
    then have "(\<forall>k \<le> Suc l. PX k va' = PX k va) = (\<forall>k \<le> l. PX k va' = PX k va)" by (metis le_Suc_eq)
    with at show ?thesis
      unfolding pte_at_Suc Let_def True entries [OF PX_less] if_P [OF vi] by simp
  next
    case False
    let ?j = "PX (Suc l) va'"
    have "pte_at ?m l (PTE2PA (load64 (slot pt ?j) m)) va' = pte_at m l (PTE2PA (load64 (slot pt ?j) m)) va'"
      if "pte_valid (load64 (slot pt ?j) m)"
      using ptree_frame [OF pt_node.hyps(2) [OF PX_less that], of ?m va'] others [OF PX_less False] by blast
    moreover have ne: "\<not> (\<forall>k \<le> Suc l. PX k va' = PX k va)" using False by blast
    ultimately show ?thesis
      unfolding if_not_P [OF ne] pte_at_Suc Let_def entries [OF PX_less] by simp
  qed
  ultimately show ?case by simp
qed

lemma pte_at_other_index:
  assumes "PX (Suc l) va' \<noteq> i"
    and "\<And>j. j < 512 \<Longrightarrow> pte_valid (load64 (slot pt j) m) \<Longrightarrow> ptree m l (PTE2PA (load64 (slot pt j) m)) (P j)"
    and "\<And>j. j < 512 \<Longrightarrow> j \<noteq> i \<Longrightarrow> load64 (slot pt j) m' = load64 (slot pt j) m"
    and "\<And>j x. j < 512 \<Longrightarrow> j \<noteq> i \<Longrightarrow> PGROUNDDOWN x \<in> P j \<Longrightarrow> m' x = m x"
  shows "pte_at m' (Suc l) pt va' = pte_at m (Suc l) pt va'"
proof -
  let ?j = "PX (Suc l) va'"
  have "pte_at m' l (PTE2PA (load64 (slot pt ?j) m)) va' = pte_at m l (PTE2PA (load64 (slot pt ?j) m)) va'"
    if "pte_valid (load64 (slot pt ?j) m)"
    using ptree_frame [OF assms(2) [OF PX_less that], of m' va'] assms(4) [OF PX_less assms(1)] by metis
  then show ?thesis
    unfolding pte_at_Suc Let_def assms(3) [OF PX_less assms(1)] by simp
qed

text \<open>A zeroed page is an empty table.\<close>

lemma zero_table:
  assumes "page_aligned p" and "\<And>i. i < 512 \<Longrightarrow> load64 (slot p i) m = 0"
  shows "ptree m l p {p} \<and> pte_at m l p va = 0"
proof (cases l)
  case 0
  then show ?thesis using assms by (simp add: ptree.pt_leaf pte_at_0)
next
  case (Suc k)
  have "ptree m (Suc k) p (insert p (\<Union>i \<in> {i :: u64. i < 512}. {}))"
    using assms by (intro ptree.pt_node) simp_all
  with Suc assms show ?thesis by (simp add: pte_at_Suc)
qed

section \<open>walk with allocation\<close>

definition kmem_frame :: "'z kmem_scheme \<Rightarrow> 'z kmem_scheme \<Rightarrow> bool" where
  "kmem_frame s s' \<longleftrightarrow> (\<exists>m f. s' = s\<lparr>pmem := m, freelist := f\<rparr>)"

lemma kmem_frame_refl [simp]: "kmem_frame s s"
  unfolding kmem_frame_def by (rule exI [of _ "pmem s"], rule exI [of _ "freelist s"]) simp

lemma kmem_frame_trans: "kmem_frame s s' \<Longrightarrow> kmem_frame s' s'' \<Longrightarrow> kmem_frame s s''"
proof -
  assume "kmem_frame s s'" "kmem_frame s' s''"
  then obtain m f where "s'' = s\<lparr>pmem := m, freelist := f\<rparr>" by (auto simp: kmem_frame_def)
  then show ?thesis unfolding kmem_frame_def by blast
qed

lemma kmem_frame_upd [simp]:
  "kmem_frame s (s\<lparr>pmem := m\<rparr>)" "kmem_frame s (s\<lparr>pmem := m, freelist := f\<rparr>)" "kmem_frame s (s\<lparr>freelist := f, pmem := m\<rparr>)"
  unfolding kmem_frame_def
  by (rule exI [of _ m], rule exI [of _ "freelist s"], simp) (rule exI [of _ m], rule exI [of _ f], simp)+

lemma kmem_inv_store:
  assumes "kmem_inv s ps" and "same_except P (pmem s) m" and "P \<inter> set ps = {}"
  shows "kmem_inv (s\<lparr>pmem := m\<rparr>) ps"
proof -
  have "flist m (freelist s) ps = flist (pmem s) (freelist s) ps"
    using assms by (intro flist_cong) (auto simp: kmem_inv_def kmem_page_def same_except_def disjoint_iff)
  with assms(1) show ?thesis by (simp add: kmem_inv_def kmem_page_def)
qed

lemma kmem_phys_page: "kmem_page s p \<Longrightarrow> phys_page p"
  by (simp add: kmem_page_def phys_page_def)

text \<open>What \<open>walk\<close> with \<open>alloc\<close> promises, for the part of the tree below \<open>pt\<close>.\<close>

definition walk_post :: "nat \<Rightarrow> u64 \<Rightarrow> u64 set \<Rightarrow> u64 list \<Rightarrow> u64 \<Rightarrow> 'z kmem_scheme \<Rightarrow> u64 \<Rightarrow> 'z kmem_scheme \<Rightarrow> u64 list \<Rightarrow> u64 list \<Rightarrow> bool" where
  "walk_post l pt P ps va s a s' new ps' \<longleftrightarrow>
     ps = new @ ps' \<and> kmem_inv s' ps' \<and> kmem_frame s s' \<and> ptree (pmem s') l pt (P \<union> set new) \<and>
     same_except (P \<union> set new) (pmem s) (pmem s') \<and>
     (\<forall>va'. pte_at (pmem s') l pt va' = pte_at (pmem s) l pt va') \<and>
     (if a = 0 then ps' = [] else pt_walk (pmem s') l pt va = Some a)"

lemma slot_nonzero: "phys_page q \<Longrightarrow> i < 512 \<Longrightarrow> slot q i \<noteq> 0"
proof
  assume q: "phys_page q" and i: "i < 512" and z: "slot q i = 0"
  have "PGROUNDDOWN (slot q i + of_nat 0) = q"
    using q i by (intro slot_page) (simp_all add: phys_page_def)
  with z have "q = PGROUNDDOWN 0" by simp
  with q show False by (simp add: phys_page_def PGROUNDDOWN_bits)
qed

lemma walk_node_valid:
  assumes tree: "ptree m (Suc l) pt P" and v: "pte_valid (load64 (slot pt (PX (Suc l) va)) m)"
  obtains Pi where "ptree m l (PTE2PA (load64 (slot pt (PX (Suc l) va)) m)) Pi" "Pi \<subseteq> P" "pt \<notin> Pi"
    "\<And>m' Q. ptree m' l (PTE2PA (load64 (slot pt (PX (Suc l) va)) m)) (Pi \<union> Q) \<Longrightarrow> same_except (Pi \<union> Q) m m' \<Longrightarrow>
       Q \<inter> P = {} \<Longrightarrow>
       (\<forall>va'. pte_at m' l (PTE2PA (load64 (slot pt (PX (Suc l) va)) m)) va' = pte_at m l (PTE2PA (load64 (slot pt (PX (Suc l) va)) m)) va') \<Longrightarrow>
       ptree m' (Suc l) pt (P \<union> Q) \<and> load64 (slot pt (PX (Suc l) va)) m' = load64 (slot pt (PX (Suc l) va)) m \<and>
       (\<forall>va'. pte_at m' (Suc l) pt va' = pte_at m (Suc l) pt va')"
proof -
  from ptree_SucD [OF tree] obtain F where "ptree_node m l pt F P" ..
  note 1 = ptree_nodeD [OF this]
  let ?i = "PX (Suc l) va" and ?c = "PTE2PA (load64 (slot pt (PX (Suc l) va)) m)"
  show thesis
  proof (rule that [of "F ?i"])
    show "ptree m l ?c (F ?i)" by (rule 1(3) [OF PX_less v])
    show "F ?i \<subseteq> P" using 1(1) PX_less by blast
    show "pt \<notin> F ?i" by (rule 1(5) [OF PX_less])
    fix m' Q
    assume tr: "ptree m' l ?c (F ?i \<union> Q)" and same: "same_except (F ?i \<union> Q) m m'" and Q: "Q \<inter> P = {}"
      and at: "\<forall>va'. pte_at m' l ?c va' = pte_at m l ?c va'"
    have pt: "pt \<notin> F ?i \<union> Q" using Q 1(1) 1(5) [OF PX_less] by blast
    have entries: "load64 (slot pt j) m' = load64 (slot pt j) m" if "j < 512" for j
      using load64_cong_page [OF 1(2) that, of m' m] same_exceptD [OF same] pt by metis
    have others: "m' x = m x" if "j < 512" "j \<noteq> ?i" "PGROUNDDOWN x \<in> F j" for j x
    proof (rule same_exceptD [OF same])
      have "F j \<inter> F ?i = {}" by (rule 1(6) [OF that(1) PX_less that(2)])
      moreover have "F j \<subseteq> P" using 1(1) that(1) by blast
      ultimately show "PGROUNDDOWN x \<notin> F ?i \<union> Q" using that(3) Q by blast
    qed
    have "ptree m' (Suc l) pt (insert pt (\<Union>j \<in> {j. j < 512}. F j) \<union> Q)"
    proof (rule ptree_update [where i = ?i and m = m, OF 1(2) PX_less 1(3) 1(4) 1(5) 1(6)])
      show "pte_valid (load64 (slot pt ?i) m')" using v by (simp add: entries)
      show "ptree m' l (PTE2PA (load64 (slot pt ?i) m')) (F ?i \<union> Q)" using tr by (simp add: entries)
      show "pt \<notin> Q" using pt by blast
      show "F j \<inter> Q = {}" if "j < 512" for j using Q 1(1) that by blast
    qed (use entries others in simp_all)
    moreover have "pte_at m' (Suc l) pt va' = pte_at m (Suc l) pt va'" for va'
    proof (cases "PX (Suc l) va' = ?i")
      case True
      with at show ?thesis unfolding pte_at_Suc Let_def True entries [OF PX_less] by simp
    next
      case False
      then show ?thesis by (rule pte_at_other_index [OF _ 1(3) entries others])
    qed
    ultimately show "ptree m' (Suc l) pt (P \<union> Q) \<and> load64 (slot pt ?i) m' = load64 (slot pt ?i) m \<and>
        (\<forall>va'. pte_at m' (Suc l) pt va' = pte_at m (Suc l) pt va')"
      using entries [OF PX_less] 1(1) by simp
  qed
qed

lemma walk_node_alloc:
  assumes tree: "ptree m (Suc l) pt P" and v: "\<not> pte_valid (load64 (slot pt (PX (Suc l) va)) m)"
    and p: "phys_page p" "p \<notin> P" and pt: "pt \<in> P"
    and m1: "load64 (slot pt (PX (Suc l) va)) m1 = PA2PTE p OR PTE_V"
      "\<And>j. j < 512 \<Longrightarrow> j \<noteq> PX (Suc l) va \<Longrightarrow> load64 (slot pt j) m1 = load64 (slot pt j) m"
      "same_except {pt, p} m m1"
    and zero: "\<forall>va'. pte_at m1 l p va' = 0"
    and m': "ptree m' l p ({p} \<union> Q)" "same_except ({p} \<union> Q) m1 m'" "\<forall>va'. pte_at m' l p va' = pte_at m1 l p va'"
      "Q \<inter> P = {}"
  shows "ptree m' (Suc l) pt (P \<union> ({p} \<union> Q)) \<and> load64 (slot pt (PX (Suc l) va)) m' = PA2PTE p OR PTE_V \<and>
    (\<forall>va'. pte_at m' (Suc l) pt va' = pte_at m (Suc l) pt va')"
proof -
  let ?i = "PX (Suc l) va"
  from ptree_SucD [OF tree] obtain F where "ptree_node m l pt F P" ..
  note 1 = ptree_nodeD [OF this]
  have Fi: "F ?i = {}" by (rule 1(4) [OF PX_less v])
  have ptn: "pt \<notin> {p} \<union> Q" using pt p(2) m'(4) by blast
  have e1: "load64 (slot pt j) m' = load64 (slot pt j) m1" if "j < 512" for j
    using load64_cong_page [OF 1(2) that, of m' m1] same_exceptD [OF m'(2)] ptn by metis
  have entries: "load64 (slot pt j) m' = load64 (slot pt j) m" if "j < 512" "j \<noteq> ?i" for j
    using e1 [OF that(1)] m1(2) [OF that] by simp
  have at_i: "load64 (slot pt ?i) m' = PA2PTE p OR PTE_V" using e1 [OF PX_less] m1(1) by simp
  have others: "m' x = m x" if "j < 512" "j \<noteq> ?i" "PGROUNDDOWN x \<in> F j" for j x
  proof -
    have "PGROUNDDOWN x \<in> P" using 1(1) that by blast
    moreover have "PGROUNDDOWN x \<noteq> pt" using 1(5) [OF that(1)] that(3) by metis
    ultimately have "PGROUNDDOWN x \<notin> {p} \<union> Q" "PGROUNDDOWN x \<notin> {pt, p}"
      using p(2) m'(4) by auto
    then show ?thesis using same_exceptD [OF m'(2)] same_exceptD [OF m1(3)] by metis
  qed
  have "ptree m' (Suc l) pt (insert pt (\<Union>j \<in> {j. j < 512}. F j) \<union> ({p} \<union> Q))"
  proof (rule ptree_update [where i = ?i and m = m, OF 1(2) PX_less 1(3) 1(4) 1(5) 1(6)])
    show "pte_valid (load64 (slot pt ?i) m')" by (simp add: at_i)
    show "ptree m' l (PTE2PA (load64 (slot pt ?i) m')) (F ?i \<union> ({p} \<union> Q))"
      using m'(1) Fi by (simp add: at_i PTE2PA_table p(1))
    show "pt \<notin> {p} \<union> Q" by (rule ptn)
    show "F j \<inter> ({p} \<union> Q) = {}" if "j < 512" for j
    proof -
      have "F j \<subseteq> P" using 1(1) that by blast
      then show ?thesis using p(2) m'(4) by blast
    qed
  qed (use entries others in simp_all)
  moreover have "pte_at m' (Suc l) pt va' = pte_at m (Suc l) pt va'" for va'
  proof (cases "PX (Suc l) va' = ?i")
    case True
    with zero m'(3) v show ?thesis
      unfolding pte_at_Suc Let_def True at_i by (simp add: PTE2PA_table p(1))
  next
    case False
    then show ?thesis by (rule pte_at_other_index [OF _ 1(3) entries others])
  qed
  ultimately show ?thesis using at_i 1(1) by simp
qed

lemma walk_alloc_state:
  assumes "kmem_inv s (p # ps)" and "page_aligned pt" and "i < 512" and "pt \<notin> set (p # ps)"
    and s1_def: "s1 = s\<lparr>freelist := load64 p (pmem s), pmem := store64 (slot pt i) v (fill_page p 0 (fill_page p 5 (pmem s)))\<rparr>"
  shows "kmem_inv s1 ps" and "same_except {pt, p} (pmem s) (pmem s1)" and "load64 (slot pt i) (pmem s1) = v"
    and "\<And>j. j < 512 \<Longrightarrow> j \<noteq> i \<Longrightarrow> load64 (slot pt j) (pmem s1) = load64 (slot pt j) (pmem s)"
    and "\<And>j. j < 512 \<Longrightarrow> load64 (slot p j) (pmem s1) = 0"
proof -
  have p: "page_aligned p" "p \<notin> set ps" using assms(1) by (auto simp: kmem_inv_def kmem_page_def)
  have ne: "pt \<noteq> p" using assms(4) by auto
  let ?m = "fill_page p 0 (fill_page p 5 (pmem s))"
  show same: "same_except {pt, p} (pmem s) (pmem s1)"
    using assms(2,3) p(1) by (auto simp: same_except_def s1_def store64_outside fill_page_apply)
  show "load64 (slot pt i) (pmem s1) = v" by (simp add: s1_def)
  show "load64 (slot pt j) (pmem s1) = load64 (slot pt j) (pmem s)" if "j < 512" "j \<noteq> i" for j
    using that assms(2,3) p(1) ne by (simp add: s1_def load_store_slots load64_fill_other)
  show "load64 (slot p j) (pmem s1) = 0" if "j < 512" for j
    using that assms(2,3) p(1) ne by (simp add: s1_def load_store_slots load64_fill_zero)
  have "kmem_inv (s\<lparr>freelist := load64 p (pmem s), pmem := fill_page p 5 (pmem s), pmem := pmem s1\<rparr>) ps"
  proof (rule kmem_inv_store [OF kalloc_inv [OF assms(1)], where P = "{pt, p}"])
    show "{pt, p} \<inter> set ps = {}" using assms(4) p(2) by auto
    show "same_except {pt, p} (pmem (s\<lparr>freelist := load64 p (pmem s), pmem := fill_page p 5 (pmem s)\<rparr>)) (pmem s1)"
      using assms(2,3) p(1) by (auto simp: same_except_def s1_def store64_outside fill_page_apply)
  qed
  then show "kmem_inv s1 ps" by (simp add: s1_def)
qed

lemma walk_post_valid:
  assumes tree: "ptree (pmem s) (Suc l) pt P" and v: "pte_valid (load64 (slot pt (PX (Suc l) va)) (pmem s))"
    and disj: "P \<inter> set ps = {}"
    and sub: "\<And>Pi. ptree (pmem s) l (PTE2PA (load64 (slot pt (PX (Suc l) va)) (pmem s))) Pi \<Longrightarrow> Pi \<subseteq> P \<Longrightarrow>
      \<exists>new ps'. walk_post l (PTE2PA (load64 (slot pt (PX (Suc l) va)) (pmem s))) Pi ps va s a s' new ps'"
  shows "\<exists>new ps'. walk_post (Suc l) pt P ps va s a s' new ps'"
proof -
  let ?e = "load64 (slot pt (PX (Suc l) va)) (pmem s)"
  obtain Pi where Pi: "ptree (pmem s) l (PTE2PA ?e) Pi" "Pi \<subseteq> P" "pt \<notin> Pi"
    and up: "\<And>m' Q. ptree m' l (PTE2PA ?e) (Pi \<union> Q) \<Longrightarrow> same_except (Pi \<union> Q) (pmem s) m' \<Longrightarrow> Q \<inter> P = {} \<Longrightarrow>
      (\<forall>va'. pte_at m' l (PTE2PA ?e) va' = pte_at (pmem s) l (PTE2PA ?e) va') \<Longrightarrow>
      ptree m' (Suc l) pt (P \<union> Q) \<and> load64 (slot pt (PX (Suc l) va)) m' = ?e \<and>
      (\<forall>va'. pte_at m' (Suc l) pt va' = pte_at (pmem s) (Suc l) pt va')"
    by (rule walk_node_valid [OF tree v]) blast
  from sub [OF Pi(1,2)] obtain new ps' where w: "walk_post l (PTE2PA ?e) Pi ps va s a s' new ps'" by blast
  have Q: "set new \<inter> P = {}" using w disj by (auto simp: walk_post_def)
  have "ptree (pmem s') (Suc l) pt (P \<union> set new) \<and> load64 (slot pt (PX (Suc l) va)) (pmem s') = ?e \<and>
      (\<forall>va'. pte_at (pmem s') (Suc l) pt va' = pte_at (pmem s) (Suc l) pt va')"
    using w by (intro up [OF _ _ Q]) (simp_all add: walk_post_def)
  moreover have "same_except (P \<union> set new) (pmem s) (pmem s')"
    by (rule same_except_mono [of "Pi \<union> set new"]) (use w Pi(2) in \<open>auto simp: walk_post_def\<close>)
  ultimately have "walk_post (Suc l) pt P ps va s a s' new ps'"
    using w v by (simp add: walk_post_def)
  then show ?thesis by blast
qed

lemma walk_loop_alloc:
  assumes "ptree (pmem s) l pt P" and "kmem_inv s ps" and "P \<inter> set ps = {}" and "\<forall>q \<in> P. phys_page q"
  shows "returns (walk_loop l pt va True s) (\<lambda>(a, s'). \<exists>new ps'. walk_post l pt P ps va s a s' new ps')"
  using assms
proof (induction l arbitrary: pt P s ps)
  case 0
  then have "P = {pt}" by (auto elim: ptree_0E)
  with 0 have "slot pt (PX 0 va) \<noteq> 0" by (intro slot_nonzero) simp_all
  with 0 have "walk_post 0 pt P ps va s (slot pt (PX 0 va)) s [] ps" by (simp add: walk_post_def)
  then show ?case by auto
next
  case (Suc l)
  let ?i = "PX (Suc l) va" let ?e = "load64 (slot pt ?i) (pmem s)"
  show ?case
  proof (cases "pte_valid ?e")
    case True
    have "\<exists>Pi. ptree (pmem s) l (PTE2PA ?e) Pi \<and> Pi \<subseteq> P"
      by (rule walk_node_valid [OF Suc.prems(1) True]) blast
    then obtain Pi where Pi: "ptree (pmem s) l (PTE2PA ?e) Pi" "Pi \<subseteq> P" by blast
    have IH: "returns (walk_loop l (PTE2PA ?e) va True s) (\<lambda>(a, s'). \<exists>new ps'. walk_post l (PTE2PA ?e) Pj ps va s a s' new ps')"
      if "ptree (pmem s) l (PTE2PA ?e) Pj" "Pj \<subseteq> P" for Pj
      using that Suc.prems by (intro Suc.IH) blast+
    obtain a s' where r: "walk_loop l (PTE2PA ?e) va True s = Ret (a, s')"
      using IH [OF Pi] by (auto simp: returns_def)
    have "\<exists>new ps'. walk_post (Suc l) pt P ps va s a s' new ps'"
      using IH r by (intro walk_post_valid [OF Suc.prems(1) True Suc.prems(3)]) (simp add: returns_def)
    with True r show ?thesis by simp
  next
    case False
    show ?thesis
    proof (cases ps)
      case Nil
      with Suc.prems have "walk_post (Suc l) pt P ps va s 0 s [] []" by (simp add: walk_post_def)
      with False Nil Suc.prems(2) show ?thesis by (auto simp: kalloc_empty Let_def)
    next
      case (Cons p qs)
      have pt: "pt \<in> P" "page_aligned pt" using ptree_root [OF Suc.prems(1)] by auto
      have p: "phys_page p" "p \<notin> P" "p \<notin> set qs" "page_aligned p" "p \<noteq> 0"
        using Suc.prems(2,3) Cons by (auto simp: kmem_inv_def kmem_page_def phys_page_def)
      define s1 where "s1 = s\<lparr>freelist := load64 p (pmem s),
        pmem := store64 (slot pt ?i) (PA2PTE p OR PTE_V) (fill_page p 0 (fill_page p 5 (pmem s)))\<rparr>"
      have inv: "kmem_inv s (p # qs)" using Suc.prems(2) Cons by simp
      have "pt \<notin> set (p # qs)" using Suc.prems(3) Cons pt(1) by auto
      note st = walk_alloc_state [OF inv pt(2) PX_less this s1_def]
      have step: "walk_loop (Suc l) pt va True s = walk_loop l p va True s1"
        using False p(5) by (simp add: kalloc_Cons [OF inv] memset_page_def Let_def s1_def)
      have zt: "ptree (pmem s1) l p {p} \<and> pte_at (pmem s1) l p va' = 0" for va'
        by (rule zero_table [OF p(4) st(5)])
      have "returns (walk_loop l p va True s1) (\<lambda>(a, s'). \<exists>new ps'. walk_post l p {p} qs va s1 a s' new ps')"
        using zt st(1) p by (intro Suc.IH) auto
      then obtain a s' new ps' where r: "walk_loop l p va True s1 = Ret (a, s')" and w: "walk_post l p {p} qs va s1 a s' new ps'"
        by (auto simp: returns_def)
      have "set new \<inter> P = {}" using w Suc.prems(3) Cons by (auto simp: walk_post_def)
      then have up: "ptree (pmem s') (Suc l) pt (P \<union> ({p} \<union> set new)) \<and> load64 (slot pt ?i) (pmem s') = PA2PTE p OR PTE_V \<and>
          (\<forall>va'. pte_at (pmem s') (Suc l) pt va' = pte_at (pmem s) (Suc l) pt va')"
        using w zt by (intro walk_node_alloc [OF Suc.prems(1) False p(1,2) pt(1) st(3,4,2)]) (auto simp: walk_post_def)
      have "kmem_frame s s'" using w kmem_frame_trans [of s s1 s'] by (simp add: walk_post_def s1_def)
      moreover have "same_except (P \<union> ({p} \<union> set new)) (pmem s) (pmem s')"
        by (rule same_except_mono [OF same_except_trans [OF st(2)]]) (use w pt(1) in \<open>auto simp: walk_post_def\<close>)
      ultimately have "walk_post (Suc l) pt P ps va s a s' (p # new) ps'"
        using w up Cons by (simp add: walk_post_def PTE2PA_table p(1) insert_commute)
      with step r show ?thesis by auto
    qed
  qed
qed

section \<open>Lookup\<close>

lemma walk_loop_lookup:
  "walk_loop l pt va False s = Ret (case pt_walk (pmem s) l pt va of None \<Rightarrow> 0 | Some a \<Rightarrow> a, s)"
  by (induction l arbitrary: pt) (simp_all add: Let_def)

lemma pt_walk_nonzero:
  "ptree m l pt P \<Longrightarrow> \<forall>q \<in> P. phys_page q \<Longrightarrow> pt_walk m l pt va = Some a \<Longrightarrow> a \<noteq> 0"
proof -
  assume t: "ptree m l pt P" and P: "\<forall>q \<in> P. phys_page q" and w: "pt_walk m l pt va = Some a"
  obtain q where "q \<in> P" "a = slot q (PX 0 va)" using pt_walk_slot [OF t w] by blast
  with P show "a \<noteq> 0" using slot_nonzero [OF _ PX_less, of q 0 va] by simp
qed

lemma walkaddr_eq:
  assumes "ptree (pmem s) 2 pt P" and "\<forall>q \<in> P. phys_page q" and "va < MAXVA"
  shows "walkaddr pt va s =
    Ret (let v = pte_at (pmem s) 2 pt va in if pte_valid v \<and> v AND PTE_U \<noteq> 0 then PTE2PA v else 0)"
proof -
  have va: "\<not> MAXVA \<le> va" using assms(3) by (simp add: not_le)
  have "pt_walk (pmem s) 2 pt va \<noteq> Some 0" using pt_walk_nonzero [OF assms(1,2)] by blast
  then show ?thesis
    unfolding walkaddr_def walk_def walk_loop_lookup pte_at_def if_not_P [OF va]
    by (auto simp: Let_def split: option.split)
qed

section \<open>Virtual pages\<close>

lemma MAXVA_eq: "MAXVA = 2 ^ 38"
  by (simp add: MAXVA_def)

lemma below_MAXVA: "va < MAXVA \<Longrightarrow> bit va n \<Longrightarrow> n < 38"
proof (rule ccontr)
  assume va: "va < MAXVA" and b: "bit va n" and n: "\<not> n < 38"
  have "unat va < 2 ^ 38" using va by (simp add: MAXVA_eq word_less_nat_alt)
  then have "drop_bit 38 va = 0" by (simp add: word_unat_eq_iff drop_bit_eq_div unat_div)
  moreover have "bit (drop_bit 38 va) (n - 38)" using b n by (simp add: bit_simps)
  ultimately show False by simp
qed

lemma bit_PX: "bit (PX l va) n \<longleftrightarrow> n < 9 \<and> bit va (12 + 9 * l + n)"
proof -
  have m: "PXMASK = mask 9" by (simp add: PXMASK_def mask_eq_exp_minus_1)
  show ?thesis
    unfolding PX_def m by (auto simp: bit_simps PXSHIFT_def PGSHIFT_def simp del: mask_numeral)
qed

lemma bit_PGROUNDDOWN: "bit (PGROUNDDOWN va) n \<longleftrightarrow> 12 \<le> n \<and> bit va n"
  unfolding PGROUNDDOWN_bits by (auto simp: bit_simps dest: bit_imp_le_length)

lemma same_indices_iff:
  assumes "va < MAXVA" and "va' < MAXVA"
  shows "(\<forall>k \<le> 2. PX k va' = PX k va) \<longleftrightarrow> PGROUNDDOWN va' = PGROUNDDOWN va"
proof
  assume px: "\<forall>k \<le> 2. PX k va' = PX k va"
  have "bit va' n = bit va n" if "12 \<le> n" "n < 38" for n
  proof -
    define k where "k = (n - 12) div 9"
    have k: "k \<le> 2" "(n - 12) mod 9 < 9" "12 + 9 * k + (n - 12) mod 9 = n"
      using that by (simp_all add: k_def)
    have "bit (PX k va') ((n - 12) mod 9) = bit (PX k va) ((n - 12) mod 9)" using px k(1) by simp
    then show ?thesis using k(2,3) by (simp add: bit_PX)
  qed
  then show "PGROUNDDOWN va' = PGROUNDDOWN va"
    using below_MAXVA [OF assms(1)] below_MAXVA [OF assms(2)]
    by (intro bit_word_eqI) (metis bit_PGROUNDDOWN)
next
  assume pg: "PGROUNDDOWN va' = PGROUNDDOWN va"
  have b: "bit va' n = bit va n" if "12 \<le> n" for n
    using pg that bit_PGROUNDDOWN [of va n] bit_PGROUNDDOWN [of va' n] by simp
  show "\<forall>k \<le> 2. PX k va' = PX k va"
    by (intro allI impI bit_word_eqI) (simp add: bit_PX b)
qed

lemma aligned_unat: "page_aligned a \<longleftrightarrow> unat a mod 4096 = 0"
  by (simp add: page_aligned_def PGSIZE_def word_unat_eq_iff unat_mod)

lemma aligned_step:
  assumes "page_aligned a" and "page_aligned x" and "a < x"
  shows "unat (a + PGSIZE) = unat a + 4096" and "a + PGSIZE \<le> x" and "page_aligned (a + PGSIZE)"
proof -
  have "unat a < unat x" using assms(3) by (simp add: word_less_nat_alt)
  moreover obtain k n where "unat a = 4096 * k" "unat x = 4096 * n"
    using assms(1,2) by (auto simp: aligned_unat mod_eq_0_iff_dvd elim!: dvdE)
  ultimately have le: "unat a + 4096 \<le> unat x" by simp
  moreover have "unat x < 2 ^ 64" using unsigned_less [of x] by simp
  ultimately show u: "unat (a + PGSIZE) = unat a + 4096"
    by (simp add: PGSIZE_def unat_add_lem [THEN iffD1])
  show "a + PGSIZE \<le> x" using le by (simp add: word_le_nat_alt u)
  show "page_aligned (a + PGSIZE)" using assms(1) by (simp add: aligned_unat u)
qed

lemma PGROUNDDOWN_le: "PGROUNDDOWN x \<le> x"
  unfolding PGROUNDDOWN_def by (rule word_and_le2)

lemma PGROUNDDOWN_less_MAXVA: "va < MAXVA \<Longrightarrow> PGROUNDDOWN va < MAXVA"
  using PGROUNDDOWN_le [of va] by simp

section \<open>mappages\<close>

text \<open>The state in which the page table code runs: a tree of pages in use, and the free pages.\<close>

definition pt_inv :: "u64 \<Rightarrow> u64 set \<Rightarrow> u64 list \<Rightarrow> 'z kmem_scheme \<Rightarrow> bool" where
  "pt_inv pt P ps s \<longleftrightarrow> ptree (pmem s) 2 pt P \<and> kmem_inv s ps \<and> P \<inter> set ps = {} \<and> (\<forall>q \<in> P. phys_page q)"

lemma walk_alloc_pt_inv:
  assumes "pt_inv pt P ps s" and "va < MAXVA"
  shows "returns (walk pt va True s) (\<lambda>(a, s'). \<exists>new ps'. walk_post 2 pt P ps va s a s' new ps' \<and> pt_inv pt (P \<union> set new) ps' s')"
proof -
  have "walk pt va True s = walk_loop 2 pt va True s" using assms(2) by (simp add: walk_def not_le [symmetric])
  moreover from assms have "returns (walk_loop 2 pt va True s) (\<lambda>(a, s'). \<exists>new ps'. walk_post 2 pt P ps va s a s' new ps')"
    by (intro walk_loop_alloc) (simp_all add: pt_inv_def)
  moreover have "pt_inv pt (P \<union> set new) ps' s'" if "walk_post 2 pt P ps va s a s' new ps'" for a s' new ps'
  proof -
    have ps: "ps = new @ ps'" "distinct ps" "\<forall>q \<in> set ps. phys_page q"
      using that assms(1) by (auto simp: walk_post_def pt_inv_def kmem_inv_def intro: kmem_phys_page)
    with that assms(1) show ?thesis by (auto simp: pt_inv_def walk_post_def)
  qed
  ultimately show ?thesis unfolding returns_def by (simp add: split_paired_Ex) blast
qed

lemma store_pt_inv:
  assumes "pt_inv pt P ps s" and "pt_walk (pmem s) 2 pt va = Some a" and "va < MAXVA"
  shows "pt_inv pt P ps (s\<lparr>pmem := store64 a v (pmem s)\<rparr>)"
    and "va' < MAXVA \<Longrightarrow> pte_at (store64 a v (pmem s)) 2 pt va' =
      (if PGROUNDDOWN va' = PGROUNDDOWN va then v else pte_at (pmem s) 2 pt va')"
proof -
  have t: "ptree (pmem s) 2 pt P" using assms(1) by (simp add: pt_inv_def)
  obtain q where q: "q \<in> P" "page_aligned q" "a = slot q (PX 0 va)" using pt_walk_slot [OF t assms(2)] by blast
  have "same_except P (pmem s) (store64 a v (pmem s))"
    unfolding q(3) using q(1,2) by (intro same_exceptI store64_outside) auto
  then have "kmem_inv (s\<lparr>pmem := store64 a v (pmem s)\<rparr>) ps"
    using assms(1) by (intro kmem_inv_store) (auto simp: pt_inv_def)
  with store_in_tree [OF t assms(2)] assms(1) show "pt_inv pt P ps (s\<lparr>pmem := store64 a v (pmem s)\<rparr>)"
    by (simp add: pt_inv_def)
  show "pte_at (store64 a v (pmem s)) 2 pt va' =
      (if PGROUNDDOWN va' = PGROUNDDOWN va then v else pte_at (pmem s) 2 pt va')" if "va' < MAXVA"
    using store_in_tree [OF t assms(2), of v va'] same_indices_iff [OF assms(3) that] by simp
qed

text \<open>What mapping the pages from \<open>a\<close> to \<open>final\<close> makes of the map.\<close>

definition mapped_range :: "u64 \<Rightarrow> u64 \<Rightarrow> u64 \<Rightarrow> u64 \<Rightarrow> (u64 \<Rightarrow> u64) \<Rightarrow> u64 \<Rightarrow> u64" where
  "mapped_range a final pa perm f va =
     (if a \<le> PGROUNDDOWN va \<and> PGROUNDDOWN va \<le> final
      then PA2PTE (pa + (PGROUNDDOWN va - a)) OR perm OR PTE_V else f va)"

definition map_post :: "u64 \<Rightarrow> u64 set \<Rightarrow> u64 list \<Rightarrow> u64 \<Rightarrow> u64 \<Rightarrow> u64 \<Rightarrow> u64 \<Rightarrow> 'z kmem_scheme \<Rightarrow> int \<times> 'z kmem_scheme \<Rightarrow> bool" where
  "map_post pt P ps a final pa perm s r \<longleftrightarrow>
     (\<exists>new ps'. ps = new @ ps' \<and> pt_inv pt (P \<union> set new) ps' (snd r) \<and> kmem_frame s (snd r) \<and>
        same_except (P \<union> set new) (pmem s) (pmem (snd r)) \<and>
        (if fst r = 0 then \<forall>va < MAXVA. pte_at (pmem (snd r)) 2 pt va = mapped_range a final pa perm (pte_at (pmem s) 2 pt) va
         else fst r = -1 \<and> ps' = []))"

lemmas PGROUNDDOWN_page = page_aligned_iff [THEN iffD1]

lemma mapped_range_step:
  assumes "page_aligned a" and "page_aligned final" and "a < final"
    and "f' va = (if PGROUNDDOWN va = a then PA2PTE pa OR perm OR PTE_V else f va)"
  shows "mapped_range (a + PGSIZE) final (pa + PGSIZE) perm f' va = mapped_range a final pa perm f va"
proof (cases "PGROUNDDOWN va = a")
  case True
  have "a < a + PGSIZE" using aligned_step(1) [OF assms(1-3)] by (simp add: word_less_nat_alt)
  then have "\<not> a + PGSIZE \<le> a" by (simp add: not_le)
  moreover have "a \<le> final" using assms(3) by simp
  ultimately show ?thesis using True assms(4) by (simp add: mapped_range_def)
next
  case False
  have "a + PGSIZE \<le> PGROUNDDOWN va \<longleftrightarrow> a \<le> PGROUNDDOWN va"
  proof
    assume "a \<le> PGROUNDDOWN va"
    with False have "a < PGROUNDDOWN va" by simp
    then show "a + PGSIZE \<le> PGROUNDDOWN va" by (rule aligned_step(2) [OF assms(1) page_aligned_PGROUNDDOWN])
  next
    assume "a + PGSIZE \<le> PGROUNDDOWN va"
    moreover have "a \<le> a + PGSIZE" using aligned_step(1) [OF assms(1-3)] by (simp add: word_le_nat_alt)
    ultimately show "a \<le> PGROUNDDOWN va" by simp
  qed
  with False assms(4) show ?thesis by (simp add: mapped_range_def algebra_simps)
qed

lemma mapped_range_last:
  assumes "f' va = (if PGROUNDDOWN va = a then PA2PTE pa OR perm OR PTE_V else f va)"
  shows "f' va = mapped_range a a pa perm f va"
  using assms by (auto simp: mapped_range_def)

lemma map_post_trans:
  assumes "map_post pt (P \<union> set new) ps' (a + PGSIZE) final (pa + PGSIZE) perm s2 r" and "ps = new @ ps'"
    and "kmem_frame s s2" and "same_except (P \<union> set new) (pmem s) (pmem s2)"
    and "page_aligned a" and "page_aligned final" and "a < final"
    and "\<forall>va < MAXVA. pte_at (pmem s2) 2 pt va =
      (if PGROUNDDOWN va = a then PA2PTE pa OR perm OR PTE_V else pte_at (pmem s) 2 pt va)"
  shows "map_post pt P ps a final pa perm s r"
proof -
  obtain new2 ps2 where n: "ps' = new2 @ ps2" "pt_inv pt (P \<union> set new \<union> set new2) ps2 (snd r)" "kmem_frame s2 (snd r)"
    "same_except (P \<union> set new \<union> set new2) (pmem s2) (pmem (snd r))"
    "if fst r = 0 then \<forall>va < MAXVA. pte_at (pmem (snd r)) 2 pt va = mapped_range (a + PGSIZE) final (pa + PGSIZE) perm (pte_at (pmem s2) 2 pt) va
     else fst r = -1 \<and> ps2 = []"
    using assms(1) by (auto simp: map_post_def)
  have "same_except (P \<union> set (new @ new2)) (pmem s) (pmem (snd r))"
    by (rule same_except_mono [OF same_except_trans [OF assms(4) n(4)]]) auto
  moreover have "mapped_range (a + PGSIZE) final (pa + PGSIZE) perm (pte_at (pmem s2) 2 pt) va =
      mapped_range a final pa perm (pte_at (pmem s) 2 pt) va" if "va < MAXVA" for va
    using assms(5-8) that by (intro mapped_range_step) simp_all
  ultimately show ?thesis
    unfolding map_post_def using n assms(2,3) kmem_frame_trans [OF assms(3) n(3)]
    by (intro exI [of _ "new @ new2"] exI [of _ ps2]) (auto simp: Un_assoc split: if_splits)
qed

lemma mappages_loop_correct:
  assumes "pt_inv pt P ps s" and "page_aligned a" and "page_aligned final" and "a \<le> final" and "final < MAXVA"
    and "unat final - unat a < 4096 * k"
    and "\<forall>va < MAXVA. a \<le> PGROUNDDOWN va \<longrightarrow> PGROUNDDOWN va \<le> final \<longrightarrow> \<not> pte_valid (pte_at (pmem s) 2 pt va)"
  shows "returns (mappages_loop k pt a final pa perm s) (map_post pt P ps a final pa perm s)"
  using assms
proof (induction k arbitrary: P ps s a pa)
  case 0
  then show ?case by simp
next
  case (Suc k)
  have a: "a < MAXVA" using Suc.prems(4,5) by simp
  obtain pte s1 new ps' where w: "walk pt a True s = Ret (pte, s1)" "walk_post 2 pt P ps a s pte s1 new ps'"
    and i1: "pt_inv pt (P \<union> set new) ps' s1"
    using walk_alloc_pt_inv [OF Suc.prems(1) a] by (auto simp: returns_def split: res.splits)
  have f1: "ps = new @ ps'" "kmem_frame s s1" "same_except (P \<union> set new) (pmem s) (pmem s1)"
    "\<And>va. pte_at (pmem s1) 2 pt va = pte_at (pmem s) 2 pt va"
    using w(2) by (simp_all add: walk_post_def)
  show ?case
  proof (cases "pte = 0")
    case True
    with w i1 f1 have "map_post pt P ps a final pa perm s (-1, s1)" by (auto simp: map_post_def walk_post_def)
    with True w(1) show ?thesis by simp
  next
    case False
    let ?v = "PA2PTE pa OR perm OR PTE_V"
    define s2 where "s2 = s1\<lparr>pmem := store64 pte ?v (pmem s1)\<rparr>"
    have pw: "pt_walk (pmem s1) 2 pt a = Some pte" using w(2) False by (simp add: walk_post_def)
    have "load64 pte (pmem s1) = pte_at (pmem s) 2 pt a" using pw f1(4) [of a] by (simp add: pte_at_def)
    then have nv: "\<not> pte_valid (load64 pte (pmem s1))"
      using Suc.prems(2,4,7) a by (simp add: PGROUNDDOWN_page)
    have i2: "pt_inv pt (P \<union> set new) ps' s2" unfolding s2_def by (rule store_pt_inv(1) [OF i1 pw a])
    have e2: "\<forall>va < MAXVA. pte_at (pmem s2) 2 pt va = (if PGROUNDDOWN va = a then ?v else pte_at (pmem s) 2 pt va)"
      using store_pt_inv(2) [OF i1 pw a] Suc.prems(2) f1(4) by (simp add: s2_def PGROUNDDOWN_page)
    obtain q where q: "q \<in> P \<union> set new" "page_aligned q" "pte = slot q (PX 0 a)"
      using pt_walk_slot [OF _ pw] i1 by (auto simp: pt_inv_def)
    have "same_except (P \<union> set new) (pmem s1) (pmem s2)"
      unfolding s2_def q(3) using q(1,2) by (auto intro!: store64_outside)
    then have se: "same_except (P \<union> set new) (pmem s) (pmem s2)"
      using same_except_trans [OF f1(3)] by force
    have fr: "kmem_frame s s2" by (rule kmem_frame_trans [OF f1(2)]) (simp add: s2_def)
    show ?thesis
    proof (cases "a = final")
      case True
      have "map_post pt P ps a final pa perm s (0, s2)"
        unfolding map_post_def using f1(1) i2 fr se e2 True mapped_range_last [of "pte_at (pmem s2) 2 pt" _ a pa perm "pte_at (pmem s) 2 pt"]
        by auto
      with True False nv w(1) show ?thesis by (simp add: s2_def)
    next
      case neq: False
      then have lt: "a < final" using Suc.prems(4) by simp
      note st = aligned_step [OF Suc.prems(2,3) lt]
      have "returns (mappages_loop k pt (a + PGSIZE) final (pa + PGSIZE) perm s2)
          (map_post pt (P \<union> set new) ps' (a + PGSIZE) final (pa + PGSIZE) perm s2)"
      proof (rule Suc.IH [OF i2 st(3) Suc.prems(3) st(2) Suc.prems(5)])
        show "unat final - unat (a + PGSIZE) < 4096 * k"
          using Suc.prems(6) lt st by (simp add: word_less_nat_alt word_le_nat_alt)
        have "a < a + PGSIZE" using st(1) by (simp add: word_less_nat_alt)
        then have "PGROUNDDOWN va \<noteq> a \<and> a \<le> PGROUNDDOWN va" if "a + PGSIZE \<le> PGROUNDDOWN va" for va
          using that by auto
        then show "\<forall>va < MAXVA. a + PGSIZE \<le> PGROUNDDOWN va \<longrightarrow> PGROUNDDOWN va \<le> final \<longrightarrow> \<not> pte_valid (pte_at (pmem s2) 2 pt va)"
          using e2 Suc.prems(7) by simp
      qed
      then have "returns (mappages_loop k pt (a + PGSIZE) final (pa + PGSIZE) perm s2) (map_post pt P ps a final pa perm s)"
        by (rule returns_mono) (rule map_post_trans [OF _ f1(1) fr se Suc.prems(2,3) lt e2])
      with neq False nv w(1) show ?thesis by (simp add: s2_def)
    qed
  qed
qed

lemma PGROUNDDOWN_mono: "a \<le> b \<Longrightarrow> PGROUNDDOWN a \<le> PGROUNDDOWN b"
proof -
  have u: "unat (PGROUNDDOWN x) = unat x div 4096 * 4096" for x
  proof -
    have "unat x < 2 ^ 64" using unsigned_less [of x] by simp
    then have "unat x div 4096 * 4096 < 2 ^ 64" by (rule le_less_trans [rotated]) simp
    then show ?thesis
      by (simp add: PGROUNDDOWN_bits push_bit_eq_mult drop_bit_eq_div unat_word_ariths(2) unat_div)
  qed
  assume "a \<le> b"
  then show ?thesis unfolding word_le_nat_alt u by (intro mult_le_mono1 div_le_mono)
qed

text \<open>
  C18. Mapping a range installs exactly that range. In a tree of page-table pages disjoint from the
  free list, when no page of the range \<open>[va, va + sz)\<close> is mapped and the range lies below MAXVA,
  \<open>mappages\<close> returns. If it returns 0, every virtual page of the range translates to its offset
  in the physical range, with the given permissions, and the translation of every other virtual
  address below MAXVA is the one it had. It returns -1 only when the free list is exhausted. In
  both cases the pages the tree gained come from the free list, and nothing outside the tree's
  pages is written.
\<close>

theorem mappages_refines_map:
  assumes "pt_inv pt P ps s" and "sz \<noteq> 0" and "va \<le> va + (sz - 1)" and "va + (sz - 1) < MAXVA"
    and "\<forall>va' < MAXVA. PGROUNDDOWN va \<le> PGROUNDDOWN va' \<longrightarrow> PGROUNDDOWN va' \<le> PGROUNDDOWN (va + sz - 1) \<longrightarrow>
      \<not> pte_valid (pte_at (pmem s) 2 pt va')"
  shows "\<exists>r s' new ps'. mappages pt va sz pa perm s = Ret (r, s') \<and> ps = new @ ps' \<and>
    pt_inv pt (P \<union> set new) ps' s' \<and> same_except (P \<union> set new) (pmem s) (pmem s') \<and>
    (if r = 0 then \<forall>va' < MAXVA. pte_at (pmem s') 2 pt va' =
        mapped_range (PGROUNDDOWN va) (PGROUNDDOWN (va + sz - 1)) pa perm (pte_at (pmem s) 2 pt) va'
     else r = -1 \<and> ps' = [])"
proof -
  let ?a = "PGROUNDDOWN va" and ?f = "PGROUNDDOWN (va + sz - 1)"
  have le: "?a \<le> ?f" using assms(3) by (simp add: PGROUNDDOWN_mono add_diff_eq)
  have mx: "?f < MAXVA" using assms(4) by (simp add: PGROUNDDOWN_less_MAXVA add_diff_eq)
  have "unat ((?f - ?a) div PGSIZE) = (unat ?f - unat ?a) div 4096"
    using le by (simp add: unat_div PGSIZE_def unat_sub word_le_nat_alt)
  then have "unat ?f - unat ?a < 4096 * (unat ((?f - ?a) div PGSIZE) + 1)" by simp
  then have "returns (mappages pt va sz pa perm s) (map_post pt P ps ?a ?f pa perm s)"
    unfolding mappages_def Let_def by (intro mappages_loop_correct assms(1,5) le mx) simp_all
  then show ?thesis by (fastforce simp: returns_def map_post_def)
qed

definition demo_root :: u64 where "demo_root = 0x80024000"

lemma demo_root_table: "i < 512 \<Longrightarrow> load64 (slot demo_root i) (pmem demo_kmem) = 0"
proof -
  assume i: "i < 512"
  have r: "page_aligned demo_root" "demo_root \<noteq> demo_page1"
    by (simp_all add: demo_root_def demo_page1_def page_aligned_def PGSIZE_def)
  have "load64 (slot demo_root i) (store64 demo_page1 demo_page2 (\<lambda>_. 0)) = load64 (slot demo_root i) (\<lambda>_. 0)"
    using r i demo_pages by (intro load64_cong_page) (auto simp: store64_outside0)
  then show ?thesis using load64_fill_zero [OF r(1) i, of "\<lambda>_. 0"] by (simp add: fill_page_def demo_kmem_def)
qed

lemma demo_root_inv:
  "pt_inv demo_root {demo_root} [demo_page1, demo_page2] demo_kmem" "pte_at (pmem demo_kmem) 2 demo_root va = 0"
proof -
  have "page_aligned demo_root" by (simp add: demo_root_def page_aligned_def PGSIZE_def)
  note z = zero_table [OF this demo_root_table, of 2]
  show "pte_at (pmem demo_kmem) 2 demo_root va = 0" using z by blast
  show "pt_inv demo_root {demo_root} [demo_page1, demo_page2] demo_kmem"
    using z demo_kmem_inv
    by (simp add: pt_inv_def phys_page_def demo_root_def demo_page1_def demo_page2_def page_aligned_def PGSIZE_def PHYSTOP_def KERNBASE_def)
qed

theorem mappages_refines_map_witness:
  "\<exists>r s' new ps'. mappages demo_root 0x1000 0x1000 0x80100000 PTE_R demo_kmem = Ret (r, s') \<and>
    [demo_page1, demo_page2] = new @ ps' \<and>
    pt_inv demo_root ({demo_root} \<union> set new) ps' s' \<and> same_except ({demo_root} \<union> set new) (pmem demo_kmem) (pmem s') \<and>
    (if r = 0 then \<forall>va' < MAXVA. pte_at (pmem s') 2 demo_root va' =
        mapped_range (PGROUNDDOWN 0x1000) (PGROUNDDOWN (0x1000 + 0x1000 - 1)) 0x80100000 PTE_R (pte_at (pmem demo_kmem) 2 demo_root) va'
     else r = -1 \<and> ps' = [])"
  by (rule mappages_refines_map [OF demo_root_inv(1)])
    (simp_all add: demo_root_inv(2) MAXVA_eq pte_valid_def)

end
