(* ===== verification/Usermem.thy ===== *)
theory Usermem
  imports Page_Table
begin

text \<open>
  \<open>either_copyout\<close> and \<open>either_copyin\<close> of kernel/proc.c: copying to and from a user address of
  the running process or a kernel address. Kernel addresses are physical ones, the kernel being
  mapped one to one.
\<close>

definition either_copyout :: "bool \<Rightarrow> u64 \<Rightarrow> byte list \<Rightarrow> 'z kmem_scheme \<Rightarrow> (int \<times> 'z kmem_scheme) res" where
  "either_copyout user_dst dst src s =
     (if user_dst then copyout (pr_pagetable (cur s)) dst src s
      else Ret (0, s\<lparr>pmem := write_bytes dst src (pmem s)\<rparr>))"

definition either_copyin :: "bool \<Rightarrow> u64 \<Rightarrow> nat \<Rightarrow> 'z kmem_scheme \<Rightarrow> (int \<times> byte list) res" where
  "either_copyin user_src src len s =
     (if user_src then copyin (pr_pagetable (cur s)) src len s
      else Ret (0, read_bytes src len (pmem s)))"

section \<open>Single bytes\<close>

text \<open>The physical page of a user virtual page, 0 when the user may not access it.\<close>

definition user_pa :: "pmem \<Rightarrow> u64 \<Rightarrow> u64 \<Rightarrow> u64" where
  "user_pa m pt va =
     (if va \<ge> MAXVA then 0
      else case pt_walk m 2 pt va of None \<Rightarrow> 0
           | Some a \<Rightarrow> let v = load64 a m in if a \<noteq> 0 \<and> pte_valid v \<and> v AND PTE_U \<noteq> 0 then PTE2PA v else 0)"

lemma walkaddr_user_pa: "walkaddr pt va s = Ret (user_pa (pmem s) pt va)"
  by (auto simp: walkaddr_def walk_def walk_loop_lookup user_pa_def Let_def split: option.split)

text \<open>The physical address of a user byte.\<close>

definition user_addr :: "pmem \<Rightarrow> u64 \<Rightarrow> u64 \<Rightarrow> u64" where
  "user_addr m pt va = user_pa m pt (PGROUNDDOWN va) + (va - PGROUNDDOWN va)"

lemma in_page_count_one [simp]: "in_page_count va (Suc 0) = Suc 0"
  using in_page_count_pos [of 1 va] by (simp add: in_page_count_def)

lemma copyin_one:
  "copyin pt va (Suc 0) s =
     (if user_pa (pmem s) pt (PGROUNDDOWN va) = 0 then Ret (-1, []) else Ret (0, [pmem s (user_addr (pmem s) pt va)]))"
  by (simp add: copyin.simps [of pt va "Suc 0"] copyin.simps [of pt _ 0] Let_def walkaddr_user_pa user_addr_def read_bytes_def)

lemma write_bytes_one: "write_bytes a [c] m = m(a := c)"
  by (auto simp: write_bytes_def fun_eq_iff unat_eq_zero)

lemma copyout_one:
  "copyout pt va [c] s =
     (if user_pa (pmem s) pt (PGROUNDDOWN va) = 0 then Ret (-1, s)
      else Ret (0, s\<lparr>pmem := (pmem s)(user_addr (pmem s) pt va := c)\<rparr>))"
  by (simp add: copyout.simps [of pt va "[c]"] copyout.simps [of pt _ "[]"] Let_def walkaddr_user_pa user_addr_def write_bytes_one)

text \<open>The byte of the running process at a user address, when it may access the page.\<close>

definition user_byte :: "'z kmem_scheme \<Rightarrow> u64 \<Rightarrow> byte option" where
  "user_byte s va =
     (let pt = pr_pagetable (cur s) in
      if user_pa (pmem s) pt (PGROUNDDOWN va) = 0 then None else Some (pmem s (user_addr (pmem s) pt va)))"

lemma user_byte_cong: "pmem s = pmem s' \<Longrightarrow> cur s = cur s' \<Longrightarrow> user_byte s va = user_byte s' va"
  by (simp add: user_byte_def Let_def)

text \<open>Storing bytes at consecutive user addresses, one at a time.\<close>

fun deliver :: "u64 \<Rightarrow> u64 \<Rightarrow> byte list \<Rightarrow> pmem \<Rightarrow> pmem" where
  "deliver pt va [] m = m"
| "deliver pt va (c # cs) m = deliver pt (va + 1) cs (m(user_addr m pt va := c))"

end
