(* ===== verification/Ring.thy ===== *)
theory Ring
  imports Prelude
begin

text \<open>
  Ring buffers with free-running indices, as the UART transmit buffer, the console input buffer
  and pipes use them: a buffer of \<open>N\<close> cells, a read and a write index that only grow and wrap
  around at their word width, and cell \<open>i mod N\<close> for index \<open>i\<close>. \<open>ring_list\<close> is the queue
  such a buffer holds. It is the right one across the wrap-around because \<open>N\<close> divides the
  number of index values.
\<close>

definition ring_ok :: "nat \<Rightarrow> 'b list \<Rightarrow> 'a::len word \<Rightarrow> 'a word \<Rightarrow> bool" where
  "ring_ok N buf r w \<longleftrightarrow> 0 < N \<and> N dvd 2 ^ LENGTH('a) \<and> N < 2 ^ LENGTH('a) \<and> length buf = N \<and> unat (w - r) \<le> N"

definition ring_list :: "nat \<Rightarrow> 'b list \<Rightarrow> 'a::len word \<Rightarrow> 'a word \<Rightarrow> 'b list" where
  "ring_list N buf r w = map (\<lambda>k. buf ! (unat (r + of_nat k) mod N)) [0..<unat (w - r)]"

lemma ring_list_empty [simp]: "ring_list N buf r r = []"
  by (simp add: ring_list_def)

lemma length_ring_list [simp]: "length (ring_list N buf r w) = unat (w - r)"
  by (simp add: ring_list_def)

lemma ring_list_nth: "k < unat (w - r) \<Longrightarrow> ring_list N buf r w ! k = buf ! (unat (r + of_nat k) mod N)"
  by (simp add: ring_list_def)

lemma ring_index:
  fixes r :: "'a::len word"
  assumes "N dvd 2 ^ LENGTH('a)"
  shows "unat (r + of_nat k) mod N = (unat r + k) mod N"
proof -
  have "unat (r + of_nat k) = (unat r + k) mod 2 ^ LENGTH('a)"
    by (simp add: unat_word_ariths unsigned_of_nat take_bit_eq_mod mod_add_right_eq)
  then show ?thesis using assms by (simp add: mod_mod_cancel)
qed

lemma unat_Suc_diff:
  fixes r w :: "'a::len word"
  assumes "unat (w - r) < N" and "N < 2 ^ LENGTH('a)"
  shows "unat (w + 1 - r) = Suc (unat (w - r))"
proof -
  have e: "w + 1 - r = (w - r) + 1" by simp
  have "unat (w - r) + unat (1 :: 'a word) < 2 ^ LENGTH('a)" using assms by simp
  then have "unat ((w - r) + 1) = unat (w - r) + unat (1 :: 'a word)" by (rule unat_add_lem [THEN iffD1])
  then show ?thesis unfolding e by simp
qed

lemma ring_ok_push:
  "ring_ok N buf r w \<Longrightarrow> unat (w - r) < N \<Longrightarrow> ring_ok N (buf[i := x]) r (w + 1)"
  by (simp add: ring_ok_def unat_Suc_diff)

lemma ring_list_push:
  fixes r w :: "'a::len word"
  assumes ok: "ring_ok N buf r w" and room: "unat (w - r) < N"
  shows "ring_list N (buf[unat w mod N := x]) r (w + 1) = ring_list N buf r w @ [x]"
proof (rule nth_equalityI)
  have N: "N dvd 2 ^ LENGTH('a)" "length buf = N" "0 < N" and u: "unat (w + 1 - r) = Suc (unat (w - r))"
    using ok room by (simp_all add: ring_ok_def unat_Suc_diff)
  show "length (ring_list N (buf[unat w mod N := x]) r (w + 1)) = length (ring_list N buf r w @ [x])"
    using u by simp
  fix k assume "k < length (ring_list N (buf[unat w mod N := x]) r (w + 1))"
  then have k: "k \<le> unat (w - r)" using u by simp
  have w: "unat w mod N = (unat r + unat (w - r)) mod N" using ring_index [OF N(1), of r "unat (w - r)"] by simp
  show "ring_list N (buf[unat w mod N := x]) r (w + 1) ! k = (ring_list N buf r w @ [x]) ! k"
  proof (cases "k = unat (w - r)")
    case True
    then show ?thesis using N u w by (simp add: ring_list_nth nth_append ring_index)
  next
    case False
    with k have k': "k < unat (w - r)" by simp
    have "(unat r + k) mod N \<noteq> (unat r + unat (w - r)) mod N"
    proof
      assume "(unat r + k) mod N = (unat r + unat (w - r)) mod N"
      then have "N dvd unat r + unat (w - r) - (unat r + k)" 
        using k' mod_eq_dvd_iff_nat [of "unat r + k" "unat r + unat (w - r)" N] by simp
      then have "N dvd unat (w - r) - k" by simp
      then show False using k' room by (auto dest: dvd_imp_le)
    qed
    then show ?thesis using k' N u w by (simp add: ring_list_nth nth_append ring_index)
  qed
qed

lemma unat_diff_Suc:
  fixes r w :: "'a::len word"
  assumes "w \<noteq> r"
  shows "unat (w - r) = Suc (unat (w - (r + 1)))"
proof -
  have e: "w - (r + 1) = (w - r) - 1" by simp
  have "w - r \<noteq> 0" using assms by simp
  then have "unat ((w - r) - 1) = unat (w - r) - 1" "0 < unat (w - r)" by (rule unat_minus_one, simp add: unat_gt_0)
  then show ?thesis unfolding e by simp
qed

lemma ring_list_pop:
  fixes r w :: "'a::len word"
  assumes ok: "ring_ok N buf r w" and ne: "w \<noteq> r"
  shows "ring_list N buf r w = buf ! (unat r mod N) # ring_list N buf (r + 1) w" and "ring_ok N buf (r + 1) w"
proof -
  have N: "N dvd 2 ^ LENGTH('a)" using ok by (simp add: ring_ok_def)
  have "map (\<lambda>k. buf ! (unat (r + of_nat k) mod N)) [1..<unat (w - r)] = ring_list N buf (r + 1) w"
    using unat_diff_Suc [OF ne] by (simp add: ring_list_def map_Suc_upt [symmetric] add.assoc del: upt_Suc)
  moreover have "[0..<unat (w - r)] = 0 # [1..<unat (w - r)]"
    using unat_diff_Suc [OF ne] by (simp add: upt_conv_Cons del: upt_Suc)
  ultimately show "ring_list N buf r w = buf ! (unat r mod N) # ring_list N buf (r + 1) w"
    unfolding ring_list_def [of N buf r w] by (simp del: upt_Suc)
  show "ring_ok N buf (r + 1) w" using ok unat_diff_Suc [OF ne] by (simp add: ring_ok_def)
qed

text \<open>The last cell written can be taken back, as editing the input line does.\<close>

lemma ring_list_unpush:
  fixes r w :: "'a::len word"
  assumes ok: "ring_ok N buf r w" and ne: "w \<noteq> r"
  shows "ring_list N buf r w = ring_list N buf r (w - 1) @ [buf ! (unat (w - 1) mod N)]" and "ring_ok N buf r (w - 1)"
proof -
  have "w - 1 - r = w - (r + 1)" by simp
  then have u: "unat (w - r) = Suc (unat (w - 1 - r))" using unat_diff_Suc [OF ne] by (simp only:)
  have "r + of_nat (unat (w - 1 - r)) = w - 1" by simp
  then show "ring_list N buf r w = ring_list N buf r (w - 1) @ [buf ! (unat (w - 1) mod N)]"
    unfolding ring_list_def u by simp
  show "ring_ok N buf r (w - 1)" using ok u by (simp add: ring_ok_def)
qed

lemma ring_list_split:
  fixes r w e :: "'a::len word"
  assumes "unat (w - r) \<le> unat (e - r)"
  shows "ring_list N buf r e = ring_list N buf r w @ ring_list N buf w e"
proof -
  have "unat (e - w) = unat (e - r) - unat (w - r)"
  proof -
    have e: "e - w = (e - r) - (w - r)" by simp
    show ?thesis unfolding e using assms by (intro unat_sub) (simp add: word_le_nat_alt)
  qed
  then have u: "unat (e - r) = unat (w - r) + unat (e - w)" using assms by simp
  have "r + of_nat (k + unat (w - r)) = w + of_nat k" for k by simp
  then have "map (\<lambda>k. buf ! (unat (r + of_nat k) mod N)) [unat (w - r)..<unat (e - r)] = ring_list N buf w e"
    unfolding u ring_list_def by (subst add.commute, subst map_add_upt [symmetric]) (simp del: of_nat_add upt_Suc)
  moreover have "[0..<unat (e - r)] = [0..<unat (w - r)] @ [unat (w - r)..<unat (e - r)]"
    unfolding u by (rule upt_add_eq_append) simp
  ultimately show ?thesis by (simp add: ring_list_def)
qed

lemma ring_ok_mid:
  fixes r w e :: "'a::len word"
  assumes "ring_ok N buf r e" and "unat (w - r) \<le> unat (e - r)"
  shows "ring_ok N buf r w" and "ring_ok N buf w e" and "unat (e - w) = unat (e - r) - unat (w - r)"
proof -
  have e: "e - w = (e - r) - (w - r)" by simp
  show u: "unat (e - w) = unat (e - r) - unat (w - r)"
    unfolding e using assms(2) by (intro unat_sub) (simp add: word_le_nat_alt)
  have "unat (w - r) \<le> N" "unat (e - w) \<le> N" using assms u by (simp_all add: ring_ok_def le_trans [OF diff_le_self])
  with assms show "ring_ok N buf r w" "ring_ok N buf w e" by (simp_all add: ring_ok_def)
qed

text \<open>Adding at the end leaves the part up to an index in the middle as it is.\<close>

lemma ring_list_push_mid:
  fixes r w e :: "'a::len word"
  assumes "ring_ok N buf r e" and "unat (w - r) \<le> unat (e - r)" and "unat (e - r) < N"
  shows "ring_list N (buf[unat e mod N := x]) r w = ring_list N buf r w"
    and "ring_list N (buf[unat e mod N := x]) w (e + 1) = ring_list N buf w e @ [x]"
proof -
  let ?b = "buf[unat e mod N := x]"
  have u: "unat (e + 1 - r) = Suc (unat (e - r))" using assms by (simp add: ring_ok_def unat_Suc_diff)
  have "ring_list N ?b r w @ ring_list N ?b w (e + 1) = ring_list N ?b r (e + 1)"
    using assms(2) u by (intro ring_list_split [symmetric]) simp
  also have "\<dots> = ring_list N buf r w @ ring_list N buf w e @ [x]"
    using ring_list_push [OF assms(1,3)] ring_list_split [OF assms(2)] by simp
  finally show "ring_list N ?b r w = ring_list N buf r w" "ring_list N ?b w (e + 1) = ring_list N buf w e @ [x]"
    by (simp_all add: append_eq_append_conv)
qed

section \<open>The queue interface\<close>

text \<open>
  What the users of a ring buffer rely on: adding appends, taking gives the oldest. Over any
  sequence of operations, what has been taken followed by what is still queued is what was
  queued followed by what has been added: a first-in first-out channel that loses nothing.
\<close>

locale fifo =
  fixes items :: "'s \<Rightarrow> 'b list" and put :: "'b \<Rightarrow> 's \<Rightarrow> 's" and take1 :: "'s \<Rightarrow> 'b \<times> 's"
    and ok :: "'s \<Rightarrow> bool" and room :: "'s \<Rightarrow> bool"
  assumes put_items: "ok s \<Longrightarrow> room s \<Longrightarrow> items (put x s) = items s @ [x]"
    and put_ok: "ok s \<Longrightarrow> room s \<Longrightarrow> ok (put x s)"
    and take_items: "ok s \<Longrightarrow> items s \<noteq> [] \<Longrightarrow> items s = fst (take1 s) # items (snd (take1 s))"
    and take_ok: "ok s \<Longrightarrow> items s \<noteq> [] \<Longrightarrow> ok (snd (take1 s))"
begin

fun run :: "'b option list \<Rightarrow> 's \<Rightarrow> 'b list \<Rightarrow> 'b list \<times> 's" where
  "run [] s out = (out, s)"
| "run (Some x # ops) s out = (if room s then run ops (put x s) out else run ops s out)"
| "run (None # ops) s out = (if items s = [] then run ops s out else run ops (snd (take1 s)) (out @ [fst (take1 s)]))"

fun added :: "'b option list \<Rightarrow> 's \<Rightarrow> 'b list" where
  "added [] s = []"
| "added (Some x # ops) s = (if room s then x # added ops (put x s) else added ops s)"
| "added (None # ops) s = (if items s = [] then added ops s else added ops (snd (take1 s)))"

lemma first_in_first_out:
  "ok s \<Longrightarrow> fst (run ops s out) @ items (snd (run ops s out)) = out @ items s @ added ops s"
proof (induction ops s out rule: run.induct)
  case (1 s out)
  then show ?case by simp
next
  case (2 x ops s out)
  then show ?case by (simp add: put_items put_ok)
next
  case (3 ops s out)
  show ?case
  proof (cases "items s = []")
    case True
    with 3 show ?thesis by simp
  next
    case False
    from 3(2) [OF False take_ok [OF 3(3) False]] take_items [OF 3(3) False] False
    show ?thesis by (metis (no_types, lifting) added.simps(3) append.assoc append_Cons append_Nil run.simps(3))
  qed
qed

end

end
