(* ===== verification/Uart.thy ===== *)
theory Uart
  imports Usermem Ring
begin

unbundle bit_operations_syntax

text \<open>
  The UART driver (kernel/uart.c). The device is what its registers answer: the values of the
  successive reads of the line status register LSR and of the receive holding register RHR, and
  the log of the register writes, in order. A busy wait for the transmitter that never finds it
  idle does not return. \<open>push_off\<close> and \<open>pop_off\<close> around the synchronous output only move the
  interrupt nesting of the CPU, which this view leaves out.
\<close>

definition RHR :: nat where "RHR = 0"
definition THR :: nat where "THR = 0"
definition IER :: nat where "IER = 1"
definition IER_RX_ENABLE :: byte where "IER_RX_ENABLE = 1"
definition IER_TX_ENABLE :: byte where "IER_TX_ENABLE = 2"
definition FCR :: nat where "FCR = 2"
definition FCR_FIFO_ENABLE :: byte where "FCR_FIFO_ENABLE = 1"
definition FCR_FIFO_CLEAR :: byte where "FCR_FIFO_CLEAR = 6"
definition LCR :: nat where "LCR = 3"
definition LCR_EIGHT_BITS :: byte where "LCR_EIGHT_BITS = 3"
definition LCR_BAUD_LATCH :: byte where "LCR_BAUD_LATCH = 128"
definition LSR_RX_READY :: byte where "LSR_RX_READY = 1"
definition LSR_TX_IDLE :: byte where "LSR_TX_IDLE = 32"

definition UART_TX_BUF_SIZE :: nat where "UART_TX_BUF_SIZE = 32"

record uart = kmem +
  uart_tx_buf :: "byte list"
  uart_tx_w :: u64
  uart_tx_r :: u64
  panicked :: bool
  lsr :: "nat \<Rightarrow> byte"
  lsr_n :: nat
  rhr :: "nat \<Rightarrow> byte"
  rhr_n :: nat
  reg_writes :: "(nat \<times> byte) list"

definition ReadLSR :: "'z uart_scheme \<Rightarrow> byte \<times> 'z uart_scheme" where
  "ReadLSR s = (lsr s (lsr_n s), s\<lparr>lsr_n := Suc (lsr_n s)\<rparr>)"

definition ReadRHR :: "'z uart_scheme \<Rightarrow> byte \<times> 'z uart_scheme" where
  "ReadRHR s = (rhr s (rhr_n s), s\<lparr>rhr_n := Suc (rhr_n s)\<rparr>)"

definition WriteReg :: "nat \<Rightarrow> byte \<Rightarrow> 'z uart_scheme \<Rightarrow> 'z uart_scheme" where
  "WriteReg reg v s = s\<lparr>reg_writes := reg_writes s @ [(reg, v)]\<rparr>"

definition uartinit :: "'z uart_scheme \<Rightarrow> 'z uart_scheme" where
  "uartinit s =
     (let s1 = WriteReg IER 0 s;
          s2 = WriteReg LCR LCR_BAUD_LATCH s1;
          s3 = WriteReg 0 3 s2;
          s4 = WriteReg 1 0 s3;
          s5 = WriteReg LCR LCR_EIGHT_BITS s4;
          s6 = WriteReg FCR (FCR_FIFO_ENABLE OR FCR_FIFO_CLEAR) s5
      in WriteReg IER (IER_TX_ENABLE OR IER_RX_ENABLE) s6)"

text \<open>The two ends of the transmit buffer: lines 102-103 of \<open>uartputc\<close>, 153-154 of \<open>uartstart\<close>.\<close>

definition tx_put :: "byte \<Rightarrow> 'z uart_scheme \<Rightarrow> 'z uart_scheme" where
  "tx_put c s = s\<lparr>uart_tx_buf := (uart_tx_buf s)[unat (uart_tx_w s) mod UART_TX_BUF_SIZE := c], uart_tx_w := uart_tx_w s + 1\<rparr>"

definition tx_take :: "'z uart_scheme \<Rightarrow> byte \<times> 'z uart_scheme" where
  "tx_take s = (uart_tx_buf s ! (unat (uart_tx_r s) mod UART_TX_BUF_SIZE), s\<lparr>uart_tx_r := uart_tx_r s + 1\<rparr>)"

function uartstart :: "'z uart_scheme \<Rightarrow> 'z uart_scheme" where
  "uartstart s =
     (if uart_tx_w s = uart_tx_r s then s
      else let (v, s1) = ReadLSR s in
        if v AND LSR_TX_IDLE = 0 then s1
        else let (c, s2) = tx_take s1 in uartstart (WriteReg THR c (wakeup_ev ChUartTx s2)))"
  by pat_completeness auto
termination
proof (relation "measure (\<lambda>s. unat (uart_tx_w s - uart_tx_r s))", goal_cases)
  case (2 s p v s1 q c s2)
  then show ?case
    using unat_diff_Suc [of "uart_tx_w s" "uart_tx_r s"]
    by (simp add: ReadLSR_def tx_take_def WriteReg_def wakeup_ev_def)
qed simp

declare uartstart.simps [simp del]

text \<open>
  \<open>uartputc\<close> from the head of its loop, the lock held. When the buffer is full it sleeps, and
  goes on from here when woken up and the lock is taken again (\<open>uartputc_resume\<close>).
\<close>

definition uartputc_loop :: "byte \<Rightarrow> 'z uart_scheme \<Rightarrow> ((unit, unit) call \<times> 'z uart_scheme) res" where
  "uartputc_loop c s =
     (if uart_tx_w s = uart_tx_r s + of_nat UART_TX_BUF_SIZE then
        bind_res (lock_release L_uart s) (\<lambda>s1. Ret (Asleep ChUartTx (), s1))
      else bind_res (lock_release L_uart (uartstart (tx_put c s))) (\<lambda>s1. Ret (Done (), s1)))"

definition uartputc_resume :: "byte \<Rightarrow> 'z uart_scheme \<Rightarrow> ((unit, unit) call \<times> 'z uart_scheme) res" where
  "uartputc_resume c s = bind_res (lock_acquire L_uart s) (uartputc_loop c)"

definition uartputc :: "byte \<Rightarrow> 'z uart_scheme \<Rightarrow> ((unit, unit) call \<times> 'z uart_scheme) res" where
  "uartputc c s =
     bind_res (lock_acquire L_uart s) (\<lambda>s1.
       if panicked s1 then NoReturn else uartputc_loop c s1)"

text \<open>The wait of \<open>uartputc_sync\<close> for the transmitter.\<close>

partial_function (option) wait_tx_idle :: "'z uart_scheme \<Rightarrow> 'z uart_scheme option" where
  "wait_tx_idle s =
     (let (v, s1) = ReadLSR s in if v AND LSR_TX_IDLE = 0 then wait_tx_idle s1 else Some s1)"

definition uartputc_sync :: "byte \<Rightarrow> 'z uart_scheme \<Rightarrow> 'z uart_scheme res" where
  "uartputc_sync c s =
     (if panicked s then NoReturn
      else case wait_tx_idle s of None \<Rightarrow> NoReturn | Some s1 \<Rightarrow> Ret (WriteReg THR c s1))"

definition uartgetc :: "'z uart_scheme \<Rightarrow> int \<times> 'z uart_scheme" where
  "uartgetc s =
     (let (v, s1) = ReadLSR s in
      if v AND 1 \<noteq> 0 then let (c, s2) = ReadRHR s1 in (uint c, s2) else (-1, s1))"

text \<open>
  \<open>uartintr\<close>, for a handler \<open>consoleintr\<close>; the input loop ends when the device has no more input.
\<close>

partial_function (option) uartintr_loop :: "(int \<Rightarrow> 'z uart_scheme \<Rightarrow> 'z uart_scheme res) \<Rightarrow> 'z uart_scheme \<Rightarrow> 'z uart_scheme res option" where
  "uartintr_loop consoleintr s =
     (let (c, s1) = uartgetc s in
      if c = -1 then Some (Ret s1)
      else case consoleintr c s1 of
        Ret s2 \<Rightarrow> uartintr_loop consoleintr s2
      | Panic m \<Rightarrow> Some (Panic m) | Block ch \<Rightarrow> Some (Block ch) | Fault \<Rightarrow> Some Fault | NoReturn \<Rightarrow> Some NoReturn)"

definition uartintr :: "(int \<Rightarrow> 'z uart_scheme \<Rightarrow> 'z uart_scheme res) \<Rightarrow> 'z uart_scheme \<Rightarrow> 'z uart_scheme res" where
  "uartintr consoleintr s =
     bind_res (from_loop (uartintr_loop consoleintr s)) (\<lambda>s1.
     bind_res (lock_acquire L_uart s1) (\<lambda>s2.
     lock_release L_uart (uartstart s2)))"

section \<open>The transmit buffer is a queue\<close>

definition tx_queue :: "'z uart_scheme \<Rightarrow> byte list" where
  "tx_queue s = ring_list UART_TX_BUF_SIZE (uart_tx_buf s) (uart_tx_r s) (uart_tx_w s)"

definition tx_ok :: "'z uart_scheme \<Rightarrow> bool" where
  "tx_ok s \<longleftrightarrow> ring_ok UART_TX_BUF_SIZE (uart_tx_buf s) (uart_tx_r s) (uart_tx_w s)"

definition tx_room :: "'z uart_scheme \<Rightarrow> bool" where
  "tx_room s \<longleftrightarrow> uart_tx_w s \<noteq> uart_tx_r s + of_nat UART_TX_BUF_SIZE"

lemma tx_frame [simp]:
  "tx_queue (WriteReg r c s) = tx_queue s" "tx_queue (wakeup_ev ch s) = tx_queue s"
  "tx_ok (WriteReg r c s) = tx_ok s" "tx_ok (wakeup_ev ch s) = tx_ok s"
  by (simp_all add: tx_queue_def tx_ok_def WriteReg_def wakeup_ev_def)

text \<open>The bytes handed to the transmitter so far.\<close>

definition sent :: "'z uart_scheme \<Rightarrow> byte list" where
  "sent s = map snd (filter (\<lambda>(r, v). r = THR) (reg_writes s))"

lemma tx_room_iff: "tx_ok s \<Longrightarrow> tx_room s \<longleftrightarrow> unat (uart_tx_w s - uart_tx_r s) < UART_TX_BUF_SIZE"
proof -
  assume "tx_ok s"
  then have "unat (uart_tx_w s - uart_tx_r s) \<le> 32" by (simp add: tx_ok_def ring_ok_def UART_TX_BUF_SIZE_def)
  moreover have "uart_tx_w s = uart_tx_r s + 32 \<longleftrightarrow> uart_tx_w s - uart_tx_r s = 32" by (simp add: diff_eq_eq add.commute)
  moreover have "uart_tx_w s - uart_tx_r s = 32 \<longleftrightarrow> unat (uart_tx_w s - uart_tx_r s) = 32"
    by (simp add: word_unat_eq_iff)
  ultimately show ?thesis by (auto simp: tx_room_def UART_TX_BUF_SIZE_def)
qed

lemma tx_put_queue: "tx_ok s \<Longrightarrow> tx_room s \<Longrightarrow> tx_queue (tx_put c s) = tx_queue s @ [c]"
  using tx_room_iff [of s] by (simp add: tx_queue_def tx_put_def tx_ok_def ring_list_push)

lemma tx_put_ok: "tx_ok s \<Longrightarrow> tx_room s \<Longrightarrow> tx_ok (tx_put c s)"
  using tx_room_iff [of s] by (simp add: tx_put_def tx_ok_def ring_ok_push)

lemma tx_queue_nil_iff: "tx_queue s = [] \<longleftrightarrow> uart_tx_w s = uart_tx_r s"
  unfolding tx_queue_def length_0_conv [symmetric] length_ring_list by (auto simp: unat_eq_zero)

lemma tx_take_queue:
  "tx_ok s \<Longrightarrow> tx_queue s \<noteq> [] \<Longrightarrow> tx_queue s = fst (tx_take s) # tx_queue (snd (tx_take s)) \<and> tx_ok (snd (tx_take s))"
  using ring_list_pop [of UART_TX_BUF_SIZE "uart_tx_buf s" "uart_tx_r s" "uart_tx_w s"]
  by (simp add: tx_queue_nil_iff) (simp add: tx_take_def tx_queue_def tx_ok_def)

interpretation uart_tx: fifo tx_queue tx_put tx_take tx_ok tx_room
  using tx_take_queue by unfold_locales (blast intro: tx_put_queue tx_put_ok)+

section \<open>Output\<close>

text \<open>What \<open>uartstart\<close> may change, and what it sends: a prefix of the queue, one wakeup per byte.\<close>

definition uart_sends :: "byte list \<Rightarrow> 'z uart_scheme \<Rightarrow> 'z uart_scheme \<Rightarrow> bool" where
  "uart_sends out s s' \<longleftrightarrow>
     s' = s\<lparr>wakes := wakes s @ replicate (length out) ChUartTx, uart_tx_r := uart_tx_r s', lsr_n := lsr_n s', reg_writes := reg_writes s @ map (Pair THR) out\<rparr>"

lemma uart_sends_fields:
  assumes "uart_sends out s s'"
  shows "held s' = held s" "cur s' = cur s" "pmem s' = pmem s" "panicked s' = panicked s" "sent s' = sent s @ out"
proof -
  let ?t = "s\<lparr>wakes := wakes s @ replicate (length out) ChUartTx, uart_tx_r := uart_tx_r s', lsr_n := lsr_n s', reg_writes := reg_writes s @ map (Pair THR) out\<rparr>"
  have e: "s' = ?t" using assms by (simp add: uart_sends_def)
  show "held s' = held s" "cur s' = cur s" "pmem s' = pmem s" "panicked s' = panicked s"
    by (subst e, simp)+
  show "sent s' = sent s @ out" by (subst e) (simp add: sent_def o_def)
qed

lemma uart_sends_step:
  assumes "uart_sends out (WriteReg THR c (wakeup_ev ChUartTx (snd (tx_take (snd (ReadLSR s)))))) s'"
  shows "uart_sends (c # out) s s'"
  using assms unfolding uart_sends_def WriteReg_def wakeup_ev_def tx_take_def ReadLSR_def by simp

lemma uartstart_sends:
  "tx_ok s \<Longrightarrow> \<exists>out. uart_sends out s (uartstart s) \<and> tx_queue s = out @ tx_queue (uartstart s) \<and> tx_ok (uartstart s)"
proof (induction s rule: uartstart.induct)
  case (1 s)
  define s1 where "s1 = snd (ReadLSR s)"
  define s3 where "s3 = WriteReg THR (fst (tx_take s1)) (wakeup_ev ChUartTx (snd (tx_take s1)))"
  have s1: "tx_queue s1 = tx_queue s" "tx_ok s1" using 1(2) by (simp_all add: s1_def ReadLSR_def tx_queue_def tx_ok_def)
  have keep: "uart_sends [] s s" "uart_sends [] s s1" by (simp_all add: uart_sends_def s1_def ReadLSR_def)
  show ?case
  proof (cases "uart_tx_w s = uart_tx_r s \<or> fst (ReadLSR s) AND LSR_TX_IDLE = 0")
    case True
    then have "uartstart s = s \<or> uartstart s = s1" by (auto simp: uartstart.simps [of s] s1_def split: prod.split)
    with keep s1 1(2) show ?thesis by auto
  next
    case False
    then have step: "uartstart s = uartstart s3"
      by (auto simp: uartstart.simps [of s] s1_def s3_def split: prod.split)
    have ne: "tx_queue s1 \<noteq> []" using False s1(1) by (simp add: tx_queue_nil_iff)
    from tx_take_queue [OF s1(2) ne] have s3: "tx_queue s = fst (tx_take s1) # tx_queue s3" "tx_ok s3"
      unfolding s3_def by (simp_all add: s1(1))
    have "\<exists>out. uart_sends out s3 (uartstart s3) \<and> tx_queue s3 = out @ tx_queue (uartstart s3) \<and> tx_ok (uartstart s3)"
      using False s3(2) unfolding s3_def s1_def by (intro 1(1) [OF _ refl prod.collapse _ refl prod.collapse]) simp_all
    then obtain out where "uart_sends out s3 (uartstart s3)" "tx_queue s3 = out @ tx_queue (uartstart s3)" "tx_ok (uartstart s3)"
      by blast
    with uart_sends_step [of out "fst (tx_take s1)" s] s3(1) step show ?thesis
      unfolding s3_def s1_def by (intro exI [of _ "fst (tx_take s1) # out"]) (simp add: s1_def)
  qed
qed

text \<open>
  C36. Buffered UART output is first in, first out, for every behaviour of the device and across the
  wrap-around of the 64-bit indices. \<open>uartputc\<close>, called without the transmit lock and with the
  kernel not panicked, returns: either the byte has joined the end of the stream of bytes sent
  and still queued, or the buffer holds 32 bytes and the caller sleeps on \<open>uart_tx_r\<close> with the
  state unchanged. It never overwrites a queued byte and releases the lock in both cases. After a
  panic it never returns.
\<close>

theorem uartputc_fifo:
  assumes "tx_ok s" and "L_uart \<notin> set (held s)"
  shows "if panicked s then uartputc c s = NoReturn
    else \<exists>r s'. uartputc c s = Ret (r, s') \<and> tx_ok s' \<and> held s' = held s \<and>
      (case r of Done _ \<Rightarrow> sent s' @ tx_queue s' = sent s @ tx_queue s @ [c] \<and> length (tx_queue s) < UART_TX_BUF_SIZE
       | Asleep ch _ \<Rightarrow> ch = ChUartTx \<and> s' = s \<and> length (tx_queue s) = UART_TX_BUF_SIZE)"
proof -
  define s1 where "s1 = s\<lparr>held := L_uart # held s\<rparr>"
  have s1: "tx_ok s1" "tx_queue s1 = tx_queue s" "sent s1 = sent s" "tx_room s1 = tx_room s" "panicked s1 = panicked s"
    using assms(1) by (simp_all add: s1_def tx_ok_def tx_queue_def sent_def tx_room_def)
  have len: "tx_room s \<longleftrightarrow> length (tx_queue s) < UART_TX_BUF_SIZE" "length (tx_queue s) \<le> UART_TX_BUF_SIZE"
    using tx_room_iff [OF assms(1)] assms(1) by (simp_all add: tx_queue_def tx_ok_def ring_ok_def)
  have call: "uartputc c s = (if panicked s then NoReturn else uartputc_loop c s1)"
    using assms(2) by (simp add: uartputc_def s1_def)
  show ?thesis
  proof (cases "tx_room s")
    case False
    then have "uartputc_loop c s1 = Ret (Asleep ChUartTx (), s)"
      by (simp add: uartputc_loop_def tx_room_def s1_def)
    with False len assms(1) show ?thesis by (auto simp: call)
  next
    case True
    let ?t = "uartstart (tx_put c s1)"
    from uartstart_sends [OF tx_put_ok [OF s1(1)], of c] True s1(4) obtain out where
      out: "uart_sends out (tx_put c s1) ?t" "tx_queue (tx_put c s1) = out @ tx_queue ?t" "tx_ok ?t" by auto
    have p: "held (tx_put c s1) = L_uart # held s" "sent (tx_put c s1) = sent s"
      by (simp_all add: tx_put_def s1_def sent_def)
    have f: "held ?t = L_uart # held s" "sent ?t = sent s @ out"
      using uart_sends_fields [OF out(1)] p by simp_all
    have "uartputc_loop c s1 = Ret (Done (), ?t\<lparr>held := held s\<rparr>)"
      using True s1(4) f(1) by (simp add: uartputc_loop_def tx_room_def)
    moreover have "sent ?t @ tx_queue ?t = sent s @ tx_queue s @ [c]"
      using f(2) out(2) tx_put_queue [OF s1(1), of c] True s1 by simp
    ultimately show ?thesis using len True out(3)
      by (simp add: call) (simp add: tx_ok_def tx_queue_def sent_def)
  qed
qed

definition demo_uart :: uart where
  "demo_uart = \<lparr>held = [], wakes = [], cur = zero_proc, pmem = (\<lambda>_. 0), freelist = 0, kend = 0x80021a40,
     uart_tx_buf = replicate 32 0, uart_tx_w = 0xffffffffffffffff, uart_tx_r = 0xfffffffffffffffe, panicked = False,
     lsr = (\<lambda>_. 0), lsr_n = 0, rhr = (\<lambda>_. 0), rhr_n = 0, reg_writes = []\<rparr>"

lemma demo_uart_ok: "tx_ok demo_uart" "held demo_uart = []" "\<not> panicked demo_uart"
  by (simp_all add: tx_ok_def ring_ok_def demo_uart_def UART_TX_BUF_SIZE_def)

theorem uartputc_fifo_witness:
  "\<exists>r s'. uartputc 65 demo_uart = Ret (r, s') \<and> tx_ok s' \<and> held s' = [] \<and>
      (case r of Done _ \<Rightarrow> sent s' @ tx_queue s' = sent demo_uart @ tx_queue demo_uart @ [65] \<and> length (tx_queue demo_uart) < UART_TX_BUF_SIZE
       | Asleep ch _ \<Rightarrow> ch = ChUartTx \<and> s' = demo_uart \<and> length (tx_queue demo_uart) = UART_TX_BUF_SIZE)"
  using uartputc_fifo [OF demo_uart_ok(1), of 65] demo_uart_ok by simp

end
