(* ===== verification/Console.thy ===== *)
theory Console
  imports Uart
begin

text \<open>
  The console (kernel/console.c): echo, the line discipline of the input interrupt handler, and
  the blocking reads and writes. \<open>procdump\<close>, which control-P runs, prints the process list; it
  is a parameter of the handler.

  Specification: the console holds a queue of committed characters and the line being edited.
\<close>

definition BACKSPACE :: int where "BACKSPACE = 0x100"
definition Ctrl :: "char \<Rightarrow> byte" where "Ctrl x = of_char x - of_char (CHR ''@'')"
definition newline :: byte where "newline = 10"
definition INPUT_BUF :: nat where "INPUT_BUF = 128"

record cons = uart +
  cons_buf :: "byte list"
  cons_r :: u32
  cons_w :: u32
  cons_e :: u32
  devsw :: "nat \<Rightarrow> bool"

text \<open>
  \<open>devsw m\<close>: entry \<open>m\<close> of the device table has its read and write functions. The console's
  are the only ones the kernel ever installs.
\<close>

definition CONSOLE :: nat where "CONSOLE = 1"

definition consputc :: "int \<Rightarrow> 'z uart_scheme \<Rightarrow> 'z uart_scheme res" where
  "consputc c s =
     (if c = BACKSPACE then
        bind_res (uartputc_sync 8 s) (\<lambda>s1. bind_res (uartputc_sync 32 s1) (uartputc_sync 8))
      else uartputc_sync (of_int c) s)"

section \<open>Writing\<close>

text \<open>
  \<open>consolewrite\<close> with \<open>k\<close> bytes to go. Asleep in \<open>uartputc\<close>, it goes on with the index and the
  byte it was writing.
\<close>

fun consolewrite_loop :: "bool \<Rightarrow> u64 \<Rightarrow> nat \<Rightarrow> nat \<Rightarrow> 'z uart_scheme \<Rightarrow> ((int, nat \<times> byte) call \<times> 'z uart_scheme) res" where
  "consolewrite_loop user_src src 0 i s = Ret (Done (int i), s)"
| "consolewrite_loop user_src src (Suc k) i s =
     bind_res (either_copyin user_src (src + of_nat i) 1 s) (\<lambda>(r, bs).
       if r = -1 then Ret (Done (int i), s)
       else bind_res (uartputc (hd bs) s) (\<lambda>(o1, s1).
         case o1 of Done _ \<Rightarrow> consolewrite_loop user_src src k (Suc i) s1
         | Asleep ch _ \<Rightarrow> Ret (Asleep ch (i, hd bs), s1)))"

definition consolewrite :: "bool \<Rightarrow> u64 \<Rightarrow> int \<Rightarrow> 'z uart_scheme \<Rightarrow> ((int, nat \<times> byte) call \<times> 'z uart_scheme) res" where
  "consolewrite user_src src n s = consolewrite_loop user_src src (nat n) 0 s"

definition consolewrite_resume :: "bool \<Rightarrow> u64 \<Rightarrow> int \<Rightarrow> nat \<times> byte \<Rightarrow> 'z uart_scheme \<Rightarrow> ((int, nat \<times> byte) call \<times> 'z uart_scheme) res" where
  "consolewrite_resume user_src src n k s =
     bind_res (uartputc_resume (snd k) s) (\<lambda>(o1, s1).
       case o1 of Done _ \<Rightarrow> consolewrite_loop user_src src (nat n - Suc (fst k)) (Suc (fst k)) s1
       | Asleep ch _ \<Rightarrow> Ret (Asleep ch k, s1))"

section \<open>Reading\<close>

definition leave :: "int \<Rightarrow> 'z cons_scheme \<Rightarrow> ((int, nat \<times> u64) call \<times> 'z cons_scheme) res" where
  "leave r s = bind_res (lock_release L_cons s) (\<lambda>s1. Ret (Done r, s1))"

text \<open>
  \<open>consoleread\<close> from the head of its loop, with \<open>n\<close> bytes to go and the lock held. Asleep, it
  goes on with the count and the destination it has reached.
\<close>

fun consoleread_loop :: "bool \<Rightarrow> nat \<Rightarrow> nat \<Rightarrow> u64 \<Rightarrow> 'z cons_scheme \<Rightarrow> ((int, nat \<times> u64) call \<times> 'z cons_scheme) res" where
  "consoleread_loop user_dst target 0 dst s = leave (int target) s"
| "consoleread_loop user_dst target (Suc n) dst s =
     (if cons_r s = cons_w s then
        (if pr_killed (cur s) then leave (-1) s
         else bind_res (lock_release L_cons s) (\<lambda>s1. Ret (Asleep ChCons (Suc n, dst), s1)))
      else let c = cons_buf s ! (unat (cons_r s) mod INPUT_BUF); s1 = s\<lparr>cons_r := cons_r s + 1\<rparr> in
        if c = Ctrl (CHR ''D'') then
          leave (int target - int (Suc n)) (if Suc n < target then s1\<lparr>cons_r := cons_r s1 - 1\<rparr> else s1)
        else bind_res (either_copyout user_dst dst [c] s1) (\<lambda>(r, s2).
          if r = -1 then leave (int target - int (Suc n)) s2
          else if c = newline then leave (int target - int n) s2
          else consoleread_loop user_dst target n (dst + 1) s2))"

definition consoleread :: "bool \<Rightarrow> u64 \<Rightarrow> int \<Rightarrow> 'z cons_scheme \<Rightarrow> ((int, nat \<times> u64) call \<times> 'z cons_scheme) res" where
  "consoleread user_dst dst n s =
     bind_res (lock_acquire L_cons s) (consoleread_loop user_dst (nat n) (nat n) dst)"

definition consoleread_resume :: "bool \<Rightarrow> int \<Rightarrow> nat \<times> u64 \<Rightarrow> 'z cons_scheme \<Rightarrow> ((int, nat \<times> u64) call \<times> 'z cons_scheme) res" where
  "consoleread_resume user_dst n k s =
     bind_res (lock_acquire L_cons s) (consoleread_loop user_dst (nat n) (fst k) (snd k))"

section \<open>The input interrupt handler\<close>

fun kill_line :: "nat \<Rightarrow> 'z cons_scheme \<Rightarrow> 'z cons_scheme res" where
  "kill_line 0 s = Ret s"
| "kill_line (Suc k) s =
     (if cons_e s \<noteq> cons_w s \<and> cons_buf s ! (unat (cons_e s - 1) mod INPUT_BUF) \<noteq> newline then
        bind_res (consputc BACKSPACE (s\<lparr>cons_e := cons_e s - 1\<rparr>)) (kill_line k)
      else Ret s)"

text \<open>Storing a character in the buffer, and committing the line when it is complete.\<close>

definition cons_store :: "byte \<Rightarrow> 'z cons_scheme \<Rightarrow> 'z cons_scheme" where
  "cons_store c s =
     (let s1 = s\<lparr>cons_buf := (cons_buf s)[unat (cons_e s) mod INPUT_BUF := c], cons_e := cons_e s + 1\<rparr> in
      if c = newline \<or> c = Ctrl (CHR ''D'') \<or> cons_e s1 = cons_r s1 + of_nat INPUT_BUF
      then wakeup_ev ChCons (s1\<lparr>cons_w := cons_e s1\<rparr>) else s1)"

definition consoleintr_body :: "('z cons_scheme \<Rightarrow> 'z cons_scheme res) \<Rightarrow> byte \<Rightarrow> 'z cons_scheme \<Rightarrow> 'z cons_scheme res" where
  "consoleintr_body procdump c s =
     (if c = Ctrl (CHR ''P'') then procdump s
      else if c = Ctrl (CHR ''U'') then kill_line (unat (cons_e s - cons_w s)) s
      else if c = Ctrl (CHR ''H'') \<or> c = 0x7f then
        (if cons_e s \<noteq> cons_w s then consputc BACKSPACE (s\<lparr>cons_e := cons_e s - 1\<rparr>) else Ret s)
      else if c \<noteq> 0 \<and> unat (cons_e s - cons_r s) < INPUT_BUF then
        let c1 = (if c = 13 then newline else c) in
        bind_res (consputc (uint c1) s) (\<lambda>s1. Ret (cons_store c1 s1))
      else Ret s)"

definition consoleintr :: "('z cons_scheme \<Rightarrow> 'z cons_scheme res) \<Rightarrow> byte \<Rightarrow> 'z cons_scheme \<Rightarrow> 'z cons_scheme res" where
  "consoleintr procdump c s =
     bind_res (lock_acquire L_cons s) (\<lambda>s1.
     bind_res (consoleintr_body procdump c s1) (lock_release L_cons))"

text \<open>The UART interrupt, with the console as the handler of its input.\<close>

definition uart_interrupt :: "('z cons_scheme \<Rightarrow> 'z cons_scheme res) \<Rightarrow> 'z cons_scheme \<Rightarrow> 'z cons_scheme res" where
  "uart_interrupt procdump s = uartintr (\<lambda>c. consoleintr procdump (of_int c)) s"

definition consoleinit :: "'z cons_scheme \<Rightarrow> 'z cons_scheme" where
  "consoleinit s = (uartinit s)\<lparr>devsw := (devsw s)(CONSOLE := True)\<rparr>"

section \<open>Specification: committed characters and the line being edited\<close>

definition committed :: "'z cons_scheme \<Rightarrow> byte list" where
  "committed s = ring_list INPUT_BUF (cons_buf s) (cons_r s) (cons_w s)"

definition editing :: "'z cons_scheme \<Rightarrow> byte list" where
  "editing s = ring_list INPUT_BUF (cons_buf s) (cons_w s) (cons_e s)"

definition line_end :: "byte \<Rightarrow> bool" where
  "line_end c \<longleftrightarrow> c = newline \<or> c = Ctrl (CHR ''D'')"

definition cons_ok :: "'z cons_scheme \<Rightarrow> bool" where
  "cons_ok s \<longleftrightarrow> ring_ok INPUT_BUF (cons_buf s) (cons_r s) (cons_e s) \<and>
     unat (cons_w s - cons_r s) \<le> unat (cons_e s - cons_r s) \<and> (\<forall>c \<in> set (editing s). \<not> line_end c)"

fun input_char :: "byte \<Rightarrow> byte list \<times> byte list \<Rightarrow> byte list \<times> byte list" where
  "input_char c (cm, ed) =
     (if c = Ctrl (CHR ''U'') then (cm, [])
      else if c = Ctrl (CHR ''H'') \<or> c = 0x7f then (cm, butlast ed)
      else if c = 0 \<or> INPUT_BUF \<le> length cm + length ed then (cm, ed)
      else let c1 = (if c = 13 then newline else c) in
        if line_end c1 \<or> length cm + length ed + 1 = INPUT_BUF then (cm @ ed @ [c1], []) else (cm, ed @ [c1]))"

text \<open>The transmitter never stays busy for ever.\<close>

definition tx_live :: "'z uart_scheme \<Rightarrow> bool" where
  "tx_live s \<longleftrightarrow> \<not> panicked s \<and> (\<forall>k. \<exists>j \<ge> k. lsr s j AND LSR_TX_IDLE \<noteq> 0)"

text \<open>Echo writes to the device and leaves everything else as it is.\<close>

definition echoes :: "'z uart_scheme \<Rightarrow> 'z uart_scheme \<Rightarrow> bool" where
  "echoes s s' \<longleftrightarrow> s' = s\<lparr>lsr_n := lsr_n s', reg_writes := reg_writes s'\<rparr>"

lemma echoes_refl [simp]: "echoes s s"
  by (simp add: echoes_def)

lemma echoes_trans: "echoes s s' \<Longrightarrow> echoes s' s'' \<Longrightarrow> echoes s s''"
  unfolding echoes_def by (metis (no_types, lifting) uart.surjective uart.update_convs(6,9))

lemma echoes_fields:
  assumes "echoes s s'"
  shows "held s' = held s" "wakes s' = wakes s" "cur s' = cur s" "uart.more s' = uart.more s" "tx_live s' = tx_live s"
proof -
  have e: "s' = s\<lparr>lsr_n := lsr_n s', reg_writes := reg_writes s'\<rparr>" using assms by (simp add: echoes_def)
  show "held s' = held s" "wakes s' = wakes s" "cur s' = cur s" "uart.more s' = uart.more s" by (subst e, simp)+
  show "tx_live s' = tx_live s" by (subst e) (simp add: tx_live_def)
qed

lemma wait_tx_idle_live:
  assumes "lsr_n s \<le> j" and "lsr s j AND LSR_TX_IDLE \<noteq> 0"
  shows "\<exists>s'. wait_tx_idle s = Some s' \<and> echoes s s'"
  using assms
proof (induction "j - lsr_n s" arbitrary: s rule: less_induct)
  case less
  let ?s1 = "s\<lparr>lsr_n := Suc (lsr_n s)\<rparr>"
  have e: "echoes s ?s1" by (simp add: echoes_def)
  show ?case
  proof (cases "lsr s (lsr_n s) AND LSR_TX_IDLE = 0")
    case True
    then have "lsr_n s \<noteq> j" using less.prems by auto
    with less.prems have "\<exists>s'. wait_tx_idle ?s1 = Some s' \<and> echoes ?s1 s'" by (intro less.hyps) simp_all
    with True e show ?thesis by (auto simp: wait_tx_idle.simps [of s] ReadLSR_def intro: echoes_trans)
  next
    case False
    with e show ?thesis by (simp add: wait_tx_idle.simps [of s] ReadLSR_def)
  qed
qed

lemma uartputc_sync_live: "tx_live s \<Longrightarrow> returns (uartputc_sync c s) (echoes s)"
proof -
  assume l: "tx_live s"
  then obtain j where "lsr_n s \<le> j" "lsr s j AND LSR_TX_IDLE \<noteq> 0" by (auto simp: tx_live_def)
  from wait_tx_idle_live [OF this] obtain s' where s': "wait_tx_idle s = Some s'" "echoes s s'" by blast
  have "echoes s' (WriteReg THR c s')" by (simp add: echoes_def WriteReg_def)
  with l s' show ?thesis by (auto simp: uartputc_sync_def tx_live_def intro: echoes_trans)
qed

lemma consputc_live: "tx_live s \<Longrightarrow> returns (consputc c s) (echoes s)"
proof -
  assume l: "tx_live s"
  have step: "returns (uartputc_sync b s') (echoes s)" if "echoes s s'" for b s'
    using uartputc_sync_live [of s' b] that l echoes_fields(5) [OF that] by (auto elim!: returns_mono intro: echoes_trans)
  show ?thesis
    by (cases "c = BACKSPACE") (auto simp: consputc_def intro!: returns_bind [OF step] step)
qed

lemma echoes_cons:
  assumes "echoes s s'"
  shows "cons_buf s' = cons_buf s" "cons_r s' = cons_r s" "cons_w s' = cons_w s" "cons_e s' = cons_e s"
proof -
  have e: "s' = s\<lparr>lsr_n := lsr_n s', reg_writes := reg_writes s'\<rparr>" using assms by (simp add: echoes_def)
  show "cons_buf s' = cons_buf s" "cons_r s' = cons_r s" "cons_w s' = cons_w s" "cons_e s' = cons_e s" by (subst e, simp)+
qed

text \<open>The console state reads the same after echoing and after a change of locks.\<close>

definition cons_view :: "'z cons_scheme \<Rightarrow> byte list \<times> u32 \<times> u32 \<times> u32" where
  "cons_view s = (cons_buf s, cons_r s, cons_w s, cons_e s)"

lemma cons_view_cong:
  assumes "cons_view s' = cons_view s"
  shows "committed s' = committed s" "editing s' = editing s" "cons_ok s' = cons_ok s"
  using assms by (simp_all add: cons_view_def committed_def editing_def cons_ok_def)

lemma echoes_view: "echoes s s' \<Longrightarrow> cons_view s' = cons_view s"
  by (simp add: cons_view_def echoes_cons)

lemma cons_ok_rings:
  assumes "cons_ok s"
  shows "ring_ok INPUT_BUF (cons_buf s) (cons_w s) (cons_e s)" "ring_ok INPUT_BUF (cons_buf s) (cons_r s) (cons_w s)"
    "length (committed s) + length (editing s) = unat (cons_e s - cons_r s)"
proof -
  have a: "ring_ok INPUT_BUF (cons_buf s) (cons_r s) (cons_e s)" "unat (cons_w s - cons_r s) \<le> unat (cons_e s - cons_r s)"
    using assms by (simp_all add: cons_ok_def)
  note m = ring_ok_mid [OF a]
  show "ring_ok INPUT_BUF (cons_buf s) (cons_w s) (cons_e s)" "ring_ok INPUT_BUF (cons_buf s) (cons_r s) (cons_w s)"
    by (rule m(2), rule m(1))
  show "length (committed s) + length (editing s) = unat (cons_e s - cons_r s)"
    using m(3) a(2) by (simp add: committed_def editing_def)
qed

lemma editing_nil_iff: "editing s = [] \<longleftrightarrow> cons_e s = cons_w s"
  unfolding editing_def length_0_conv [symmetric] length_ring_list by (auto simp: unat_eq_zero)

lemma erase_char:
  assumes "cons_ok s" and "cons_e s \<noteq> cons_w s"
  shows "cons_ok (s\<lparr>cons_e := cons_e s - 1\<rparr>)" "committed (s\<lparr>cons_e := cons_e s - 1\<rparr>) = committed s"
    "editing s = editing (s\<lparr>cons_e := cons_e s - 1\<rparr>) @ [cons_buf s ! (unat (cons_e s - 1) mod INPUT_BUF)]"
proof -
  let ?s = "s\<lparr>cons_e := cons_e s - 1\<rparr>"
  note r = cons_ok_rings [OF assms(1)]
  show e: "editing s = editing ?s @ [cons_buf s ! (unat (cons_e s - 1) mod INPUT_BUF)]"
    unfolding editing_def using ring_list_unpush(1) [OF r(1) assms(2)] by simp
  show "committed ?s = committed s" by (simp add: committed_def)
  have u: "unat (cons_e s - cons_w s) = unat (cons_e s - cons_r s) - unat (cons_w s - cons_r s)"
    and ro: "ring_ok INPUT_BUF (cons_buf s) (cons_r s) (cons_e s)" "unat (cons_w s - cons_r s) \<le> unat (cons_e s - cons_r s)"
    using assms(1) ring_ok_mid(3) by (auto simp: cons_ok_def)
  have "0 < unat (cons_e s - cons_w s)" using assms(2) by (simp add: unat_gt_0)
  with u have lt: "unat (cons_w s - cons_r s) < unat (cons_e s - cons_r s)" by simp
  then have ne: "cons_e s \<noteq> cons_r s" by auto
  have "cons_e s - 1 - cons_r s = cons_e s - (cons_r s + 1)" by simp
  then have "unat (cons_w s - cons_r s) \<le> unat (cons_e s - 1 - cons_r s)"
    using lt unat_diff_Suc [OF ne] by (simp only:)
  with ring_list_unpush(2) [OF ro(1) ne] e assms(1) show "cons_ok ?s" by (auto simp: cons_ok_def)
qed

lemma kill_line_clears:
  assumes "cons_ok s" and "tx_live s" and "k = unat (cons_e s - cons_w s)"
  shows "returns (kill_line k s) (\<lambda>s'. cons_ok s' \<and> committed s' = committed s \<and> editing s' = [] \<and> held s' = held s)"
  using assms
proof (induction k arbitrary: s)
  case 0
  then have "cons_e s = cons_w s" by (simp add: unat_eq_zero)
  with 0 show ?case by (simp add: editing_nil_iff)
next
  case (Suc k)
  let ?s = "s\<lparr>cons_e := cons_e s - 1\<rparr>"
  have ne: "cons_e s \<noteq> cons_w s" using Suc.prems(3) by auto
  note er = erase_char [OF Suc.prems(1) ne]
  have "cons_buf s ! (unat (cons_e s - 1) mod INPUT_BUF) \<in> set (editing s)" using er(3) by simp
  then have nl: "cons_buf s ! (unat (cons_e s - 1) mod INPUT_BUF) \<noteq> newline"
    using Suc.prems(1) by (auto simp: cons_ok_def line_end_def)
  have live: "tx_live ?s" using Suc.prems(2) by (simp add: tx_live_def)
  have k: "k = unat (cons_e s - 1 - cons_w s)"
    using Suc.prems(3) unat_diff_Suc [OF ne] by (simp add: diff_diff_eq add.commute)
  have "returns (bind_res (consputc BACKSPACE ?s) (kill_line k)) (\<lambda>s'. cons_ok s' \<and> committed s' = committed s \<and> editing s' = [] \<and> held s' = held s)"
  proof (rule returns_bind [OF consputc_live [OF live]])
    fix s1 assume e: "echoes ?s s1"
    note v = cons_view_cong [OF echoes_view [OF e]] echoes_cons [OF e] echoes_fields [OF e]
    have "returns (kill_line k s1) (\<lambda>s'. cons_ok s' \<and> committed s' = committed s1 \<and> editing s' = [] \<and> held s' = held s1)"
      using er live k v by (intro Suc.IH) simp_all
    then show "returns (kill_line k s1) (\<lambda>s'. cons_ok s' \<and> committed s' = committed s \<and> editing s' = [] \<and> held s' = held s)"
      using v er(2) by simp
  qed
  with ne nl show ?case by simp
qed

lemma cons_store_spec:
  assumes "cons_ok s" and "unat (cons_e s - cons_r s) < INPUT_BUF"
  shows "cons_ok (cons_store c s) \<and> (committed (cons_store c s), editing (cons_store c s)) =
    (if line_end c \<or> length (committed s) + length (editing s) + 1 = INPUT_BUF
     then (committed s @ editing s @ [c], []) else (committed s, editing s @ [c]))"
proof -
  let ?e = "cons_e s" and ?r = "cons_r s" and ?w = "cons_w s"
  let ?b = "(cons_buf s)[unat ?e mod INPUT_BUF := c]"
  have ok: "ring_ok INPUT_BUF (cons_buf s) ?r ?e" "unat (?w - ?r) \<le> unat (?e - ?r)"
    using assms(1) by (simp_all add: cons_ok_def)
  have push: "ring_list INPUT_BUF ?b ?r ?w = committed s" "ring_list INPUT_BUF ?b ?w (?e + 1) = editing s @ [c]"
    using ring_list_push_mid [OF ok assms(2)] by (simp_all add: committed_def editing_def)
  have all: "ring_list INPUT_BUF ?b ?r (?e + 1) = committed s @ editing s @ [c]"
    using ring_list_push [OF ok(1) assms(2)] ring_list_split [OF ok(2)] by (simp add: committed_def editing_def)
  have ok2: "ring_ok INPUT_BUF ?b ?r (?e + 1)" by (rule ring_ok_push [OF ok(1) assms(2)])
  have u: "unat (?e + 1 - ?r) = Suc (unat (?e - ?r))" using ok(1) assms(2) by (auto simp: ring_ok_def intro: unat_Suc_diff)
  have "?e + 1 = ?r + of_nat INPUT_BUF \<longleftrightarrow> ?e + 1 - ?r = of_nat INPUT_BUF" by (simp add: diff_eq_eq add.commute)
  also have "\<dots> \<longleftrightarrow> Suc (unat (?e - ?r)) = INPUT_BUF" unfolding u [symmetric] by (simp add: word_unat_eq_iff INPUT_BUF_def)
  finally have full: "?e + 1 = ?r + of_nat INPUT_BUF \<longleftrightarrow> length (committed s) + length (editing s) + 1 = INPUT_BUF"
    using cons_ok_rings(3) [OF assms(1)] by simp
  define t where "t = s\<lparr>cons_buf := ?b, cons_e := ?e + 1\<rparr>"
  show ?thesis
  proof (cases "line_end c \<or> length (committed s) + length (editing s) + 1 = INPUT_BUF")
    case True
    then have "cons_store c s = wakeup_ev ChCons (t\<lparr>cons_w := ?e + 1\<rparr>)"
      using full by (auto simp: cons_store_def t_def line_end_def Let_def)
    with True all ok2 show ?thesis
      by (simp add: t_def cons_ok_def committed_def editing_def wakeup_ev_def)
  next
    case False
    then have "cons_store c s = t" using full by (auto simp: cons_store_def t_def line_end_def Let_def)
    moreover have "cons_ok t" using False ok2 ok(2) u push(2) assms(1)
      by (auto simp: t_def cons_ok_def editing_def)
    ultimately show ?thesis using False push by (simp add: t_def committed_def editing_def)
  qed
qed

lemma consoleintr_body_spec:
  assumes "cons_ok s" and "tx_live s" and "c \<noteq> Ctrl (CHR ''P'')"
  shows "returns (consoleintr_body pd c s) (\<lambda>s'. cons_ok s' \<and> held s' = held s \<and>
    (committed s', editing s') = input_char c (committed s, editing s))"
proof -
  let ?Q = "\<lambda>s'. cons_ok s' \<and> held s' = held s \<and> (committed s', editing s') = input_char c (committed s, editing s)"
  consider (U) "c = Ctrl (CHR ''U'')" | (H) "c \<noteq> Ctrl (CHR ''U'')" "c = Ctrl (CHR ''H'') \<or> c = 0x7f"
    | (skip) "c \<noteq> Ctrl (CHR ''U'')" "c \<noteq> Ctrl (CHR ''H'')" "c \<noteq> 0x7f" "c = 0 \<or> INPUT_BUF \<le> unat (cons_e s - cons_r s)"
    | (store) "c \<noteq> Ctrl (CHR ''U'')" "c \<noteq> Ctrl (CHR ''H'')" "c \<noteq> 0x7f" "c \<noteq> 0" "unat (cons_e s - cons_r s) < INPUT_BUF"
    by fastforce
  then show ?thesis
  proof cases
    case U
    then have "consoleintr_body pd c s = kill_line (unat (cons_e s - cons_w s)) s"
      using assms(3) by (simp add: consoleintr_body_def)
    with kill_line_clears [OF assms(1,2) refl] U show ?thesis by (auto elim!: returns_mono)
  next
    case H
    then have body: "consoleintr_body pd c s = (if cons_e s \<noteq> cons_w s then consputc BACKSPACE (s\<lparr>cons_e := cons_e s - 1\<rparr>) else Ret s)"
      using assms(3) by (auto simp: consoleintr_body_def)
    show ?thesis
    proof (cases "cons_e s = cons_w s")
      case True
      with H body assms(1) show ?thesis by (auto simp: editing_nil_iff [symmetric])
    next
      case False
      let ?s = "s\<lparr>cons_e := cons_e s - 1\<rparr>"
      note er = erase_char [OF assms(1) False]
      have "tx_live ?s" using assms(2) by (simp add: tx_live_def)
      then have "returns (consputc BACKSPACE ?s) ?Q"
        using H er by (intro returns_mono [OF consputc_live]) (auto simp: cons_view_cong [OF echoes_view] echoes_fields(1))
      with False body show ?thesis by simp
    qed
  next
    case skip
    then have "consoleintr_body pd c s = Ret s" using assms(3) by (auto simp: consoleintr_body_def)
    with skip assms(1) cons_ok_rings(3) [OF assms(1)] show ?thesis by auto
  next
    case store
    define c1 where "c1 = (if c = 13 then newline else c)"
    have "returns (bind_res (consputc (uint c1) s) (\<lambda>s1. Ret (cons_store c1 s1))) ?Q"
    proof (rule returns_bind [OF consputc_live [OF assms(2)]])
      fix s1 assume e: "echoes s s1"
      note v = cons_view_cong [OF echoes_view [OF e]] echoes_cons [OF e] echoes_fields(1) [OF e]
      have "held (cons_store c1 s1) = held s1" by (simp add: cons_store_def Let_def)
      with cons_store_spec [of s1 c1] v assms(1) store cons_ok_rings(3) [OF assms(1)]
      show "returns (Ret (cons_store c1 s1)) ?Q" by (simp add: c1_def Let_def)
    qed
    moreover have "consoleintr_body pd c s = bind_res (consputc (uint c1) s) (\<lambda>s1. Ret (cons_store c1 s1))"
      using store assms(3) by (simp add: consoleintr_body_def c1_def)
    ultimately show ?thesis by (simp only:)
  qed
qed

text \<open>
  C34. The console input handler implements the line discipline. When the transmitter does not stay
  busy for ever and the console lock is free, \<open>consoleintr\<close> returns for every character but
  control-P, and its effect on the ring buffer is the specified one: erase and kill act on the line
  being edited only, a full buffer drops input, carriage return becomes newline, and newline,
  control-D or the 128th character commits the line to the readers. The buffer invariant is kept,
  whatever the values of the wrapping 32-bit indices.
\<close>

theorem consoleintr_line_discipline:
  assumes "cons_ok s" and "tx_live s" and "L_cons \<notin> set (held s)" and "c \<noteq> Ctrl (CHR ''P'')"
  shows "\<exists>s'. consoleintr pd c s = Ret s' \<and> cons_ok s' \<and> held s' = held s \<and>
    (committed s', editing s') = input_char c (committed s, editing s)"
proof -
  define s1 where "s1 = s\<lparr>held := L_cons # held s\<rparr>"
  have v: "cons_view s1 = cons_view s" "tx_live s1" "held s1 = L_cons # held s"
    using assms(2) by (simp_all add: s1_def cons_view_def tx_live_def)
  have "cons_ok s1" using cons_view_cong(3) [OF v(1)] assms(1) by simp
  from consoleintr_body_spec [OF this v(2) assms(4), of pd] obtain s2 where
    s2: "consoleintr_body pd c s1 = Ret s2" "cons_ok s2" "held s2 = L_cons # held s"
      "(committed s2, editing s2) = input_char c (committed s, editing s)"
    unfolding cons_view_cong [OF v(1)] v(3) by (auto simp: returns_def)
  have "cons_view (s2\<lparr>held := held s\<rparr>) = cons_view s2" by (simp add: cons_view_def)
  note w = cons_view_cong [OF this]
  have "consoleintr pd c s = Ret (s2\<lparr>held := held s\<rparr>)"
    using assms(3) s2(1,3) by (simp add: consoleintr_def s1_def)
  with s2(2,4) w show ?thesis by simp
qed

definition demo_cons :: cons where
  "demo_cons = uart.extend (demo_uart\<lparr>lsr := \<lambda>_. LSR_TX_IDLE\<rparr>)
     \<lparr>cons_buf = replicate 128 0, cons_r = 0xffffffff, cons_w = 0xffffffff, cons_e = 0, devsw = (\<lambda>_. False)\<rparr>"

lemma demo_cons_ok: "cons_ok demo_cons" "tx_live demo_cons" "held demo_cons = []"
  by (auto simp: demo_cons_def demo_uart_def uart.defs cons_ok_def ring_ok_def INPUT_BUF_def editing_def ring_list_def
      line_end_def newline_def Ctrl_def tx_live_def LSR_TX_IDLE_def)

theorem consoleintr_line_discipline_witness:
  "\<exists>s'. consoleintr Ret 10 demo_cons = Ret s' \<and> cons_ok s' \<and> held s' = [] \<and>
    (committed s', editing s') = input_char 10 (committed demo_cons, editing demo_cons)"
proof -
  have "(10 :: byte) \<noteq> Ctrl (CHR ''P'')" by (simp add: Ctrl_def)
  from consoleintr_line_discipline [OF demo_cons_ok(1,2) _ this, of Ret] demo_cons_ok(3) show ?thesis by simp
qed

section \<open>Reads\<close>

text \<open>Storing one byte for the reader, at a user or at a kernel address, and storing several.\<close>

definition dst_addr :: "bool \<Rightarrow> u64 \<Rightarrow> u64 \<Rightarrow> pmem \<Rightarrow> u64" where
  "dst_addr u pt va m = (if u then user_addr m pt va else va)"

definition dst_bad :: "bool \<Rightarrow> u64 \<Rightarrow> u64 \<Rightarrow> pmem \<Rightarrow> bool" where
  "dst_bad u pt va m \<longleftrightarrow> u \<and> user_pa m pt (PGROUNDDOWN va) = 0"

fun deliver_to :: "bool \<Rightarrow> u64 \<Rightarrow> u64 \<Rightarrow> byte list \<Rightarrow> pmem \<Rightarrow> pmem" where
  "deliver_to u pt va [] m = m"
| "deliver_to u pt va (c # cs) m = deliver_to u pt (va + 1) cs (m(dst_addr u pt va m := c))"

lemma either_copyout_one:
  "either_copyout u dst [c] s =
     (if dst_bad u (pr_pagetable (cur s)) dst (pmem s) then Ret (-1, s)
      else Ret (0, s\<lparr>pmem := (pmem s)(dst_addr u (pr_pagetable (cur s)) dst (pmem s) := c)\<rparr>))"
  by (simp add: either_copyout_def copyout_one write_bytes_one dst_bad_def dst_addr_def)

text \<open>
  How a read ends that has handed over \<open>out\<close> and finds \<open>rest\<close> still committed: \<open>left\<close> is what it leaves
  committed, \<open>m\<close> the memory.
\<close>

definition read_end :: "bool \<Rightarrow> proc \<Rightarrow> nat \<Rightarrow> nat \<Rightarrow> u64 \<Rightarrow> byte list \<Rightarrow> byte list \<Rightarrow> pmem \<Rightarrow> (int, nat \<times> u64) call \<Rightarrow> byte list \<Rightarrow> bool" where
  "read_end u p target n dst out rest m r left \<longleftrightarrow>
     (let got = Done (int target - int n + int (length out)) in
      if length out = n \<or> newline \<in> set out then r = got \<and> left = rest
      else case rest of
        [] \<Rightarrow> r = (if pr_killed p then Done (-1) else Asleep ChCons (n - length out, dst + of_nat (length out))) \<and> left = []
      | c # cs \<Rightarrow> r = got \<and>
          (if c = Ctrl (CHR ''D'') then left = (if n - length out < target then rest else cs)
           else dst_bad u (pr_pagetable p) (dst + of_nat (length out)) m \<and> left = cs))"

definition read_post :: "bool \<Rightarrow> nat \<Rightarrow> nat \<Rightarrow> u64 \<Rightarrow> 'z cons_scheme \<Rightarrow> (int, nat \<times> u64) call \<times> 'z cons_scheme \<Rightarrow> bool" where
  "read_post u target n dst s r \<longleftrightarrow>
     cons_ok (snd r) \<and> editing (snd r) = editing s \<and> held (snd r) = remove1 L_cons (held s) \<and>
     (\<exists>out rest. committed s = out @ rest \<and> length out \<le> n \<and> newline \<notin> set (butlast out) \<and> Ctrl (CHR ''D'') \<notin> set out \<and>
       pmem (snd r) = deliver_to u (pr_pagetable (cur s)) dst out (pmem s) \<and>
       read_end u (cur s) target n dst out rest (pmem (snd r)) (fst r) (committed (snd r)))"

lemma committed_pop:
  assumes "cons_ok s" and "cons_r s \<noteq> cons_w s"
  shows "committed s = cons_buf s ! (unat (cons_r s) mod INPUT_BUF) # committed (s\<lparr>cons_r := cons_r s + 1\<rparr>)"
    "cons_ok (s\<lparr>cons_r := cons_r s + 1\<rparr>)" "editing (s\<lparr>cons_r := cons_r s + 1\<rparr>) = editing s"
proof -
  have ok: "ring_ok INPUT_BUF (cons_buf s) (cons_r s) (cons_e s)" "unat (cons_w s - cons_r s) \<le> unat (cons_e s - cons_r s)"
    using assms(1) by (simp_all add: cons_ok_def)
  have we: "cons_w s \<noteq> cons_r s" using assms(2) by simp
  then have "0 < unat (cons_w s - cons_r s)" by (simp add: unat_gt_0)
  then have ee: "cons_e s \<noteq> cons_r s" using ok(2) by auto
  show "committed s = cons_buf s ! (unat (cons_r s) mod INPUT_BUF) # committed (s\<lparr>cons_r := cons_r s + 1\<rparr>)"
    using ring_list_pop(1) [OF cons_ok_rings(2) [OF assms(1)] we] by (simp add: committed_def)
  show "editing (s\<lparr>cons_r := cons_r s + 1\<rparr>) = editing s" by (simp add: editing_def)
  show "cons_ok (s\<lparr>cons_r := cons_r s + 1\<rparr>)"
    using ring_list_pop(2) [OF ok(1) ee] unat_diff_Suc [OF we] unat_diff_Suc [OF ee] ok(2) assms(1)
    by (simp add: cons_ok_def editing_def)
qed

lemma cons_view_held [simp]: "cons_view (s\<lparr>held := h\<rparr>) = cons_view s"
  by (simp add: cons_view_def)

lemmas held_view [simp] = cons_view_cong [OF cons_view_held]

lemma leave_held: "held s = L_cons # h \<Longrightarrow> leave v s = Ret (Done v, s\<lparr>held := h\<rparr>)"
  by (simp add: leave_def)

lemma cons_view_pmem [simp]: "cons_view (s\<lparr>pmem := m\<rparr>) = cons_view s"
  by (simp add: cons_view_def)

lemmas pmem_view [simp] = cons_view_cong [OF cons_view_pmem]

lemma read_post_Cons:
  assumes "read_post u target n (dst + 1) s2 r" and "committed s = c # committed s2" and "\<not> line_end c"
    and "editing s2 = editing s" and "held s2 = held s" and "cur s2 = cur s"
    and "pmem s2 = (pmem s)(dst_addr u (pr_pagetable (cur s)) dst (pmem s) := c)"
  shows "read_post u target (Suc n) dst s r"
proof -
  obtain out rest where out: "cons_ok (snd r)" "editing (snd r) = editing s" "held (snd r) = remove1 L_cons (held s)"
    "committed s2 = out @ rest" "length out \<le> n" "newline \<notin> set (butlast out)" "Ctrl (CHR ''D'') \<notin> set out"
    "pmem (snd r) = deliver_to u (pr_pagetable (cur s)) (dst + 1) out (pmem s2)"
    and e: "read_end u (cur s) target n (dst + 1) out rest (pmem (snd r)) (fst r) (committed (snd r))"
    using assms(1,4-6) unfolding read_post_def by auto
  have "read_end u (cur s) target (Suc n) dst (c # out) rest (pmem (snd r)) (fst r) (committed (snd r))"
    using e assms(3) by (auto simp: read_end_def Let_def line_end_def algebra_simps split: list.splits)
  with out assms(2,3,7) show ?thesis
    unfolding read_post_def by (intro conjI exI [of _ "c # out"] exI [of _ rest]) (auto simp: line_end_def)
qed

lemma consoleread_loop_spec:
  assumes "cons_ok s" and "held s = L_cons # h" and "n \<le> target"
  shows "returns (consoleread_loop u target n dst s) (read_post u target n dst s)"
  using assms
proof (induction n arbitrary: dst s)
  case 0
  then show ?case by (simp add: leave_held read_post_def read_end_def Let_def)
next
  case (Suc n)
  show ?case
  proof (cases "cons_r s = cons_w s")
    case True
    then have "committed s = []" by (simp add: committed_def)
    with True Suc.prems show ?thesis by (simp add: leave_def read_post_def read_end_def)
  next
    case False
    let ?c = "cons_buf s ! (unat (cons_r s) mod INPUT_BUF)" and ?s1 = "s\<lparr>cons_r := cons_r s + 1\<rparr>"
    let ?bad = "dst_bad u (pr_pagetable (cur s)) dst (pmem s)"
    define s2 where "s2 = ?s1\<lparr>pmem := (pmem s)(dst_addr u (pr_pagetable (cur s)) dst (pmem s) := ?c)\<rparr>"
    note pop = committed_pop [OF Suc.prems(1) False]
    have s2: "committed s2 = committed ?s1" "editing s2 = editing s" "cons_ok s2" "held s2 = L_cons # h" "cur s2 = cur s"
      "pmem s2 = (pmem s)(dst_addr u (pr_pagetable (cur s)) dst (pmem s) := ?c)"
      using pop Suc.prems(2) by (simp_all add: s2_def)
    have copy: "either_copyout u dst [?c] ?s1 = (if ?bad then Ret (-1, ?s1) else Ret (0, s2))"
      by (simp add: either_copyout_one s2_def)
    consider "?c = Ctrl (CHR ''D'')" | "?c \<noteq> Ctrl (CHR ''D'')" "?bad" | "?c = newline" "?c \<noteq> Ctrl (CHR ''D'')" "\<not> ?bad"
      | "\<not> line_end ?c" "\<not> ?bad" unfolding line_end_def by blast
    then show ?thesis
    proof cases
      case 1
      have "read_post u target (Suc n) dst s (Done (int target - int (Suc n)), t\<lparr>held := h\<rparr>)"
        if "t = (if Suc n < target then s else ?s1)" for t
        unfolding read_post_def that using 1 pop Suc.prems
        by (intro conjI exI [of _ "[]"] exI [of _ "committed s"]) (simp_all add: read_end_def)
      with 1 False Suc.prems(2) show ?thesis by (cases "Suc n < target") (simp_all add: leave_held Let_def)
    next
      case 2
      have "read_post u target (Suc n) dst s (Done (int target - int (Suc n)), ?s1\<lparr>held := h\<rparr>)"
        unfolding read_post_def using 2 pop Suc.prems(2)
        by (intro conjI exI [of _ "[]"] exI [of _ "committed s"]) (simp_all add: read_end_def)
      with 2 False copy Suc.prems(2) show ?thesis by (simp add: leave_held Let_def)
    next
      case 3
      have "read_post u target (Suc n) dst s (Done (int target - int n), s2\<lparr>held := h\<rparr>)"
        unfolding read_post_def using 3 s2 pop Suc.prems(2)
        by (intro conjI exI [of _ "[?c]"] exI [of _ "committed s2"]) (simp_all add: read_end_def)
      with 3 False copy s2(4) show ?thesis by (simp add: leave_held Let_def)
    next
      case 4
      have "returns (consoleread_loop u target n (dst + 1) s2) (read_post u target n (dst + 1) s2)"
        using s2 Suc.prems by (intro Suc.IH) simp_all
      then have "returns (consoleread_loop u target n (dst + 1) s2) (read_post u target (Suc n) dst s)"
        by (rule returns_mono) (use pop s2 Suc.prems 4 in \<open>auto intro: read_post_Cons\<close>)
      with 4 False copy show ?thesis by (simp add: Let_def line_end_def)
    qed
  qed
qed

text \<open>
  C35. Console reads are line at a time. With the console lock free, \<open>consoleread\<close> of \<open>n\<close> bytes hands
  over a prefix \<open>out\<close> of the committed characters, with no newline before its last character and no
  control-D, at most \<open>n\<close> of them, and stores exactly these at the destination, in order. It ends
  exactly as follows. If \<open>out\<close> has \<open>n\<close> characters or ends in a newline, it returns their number and the rest
  stays committed. If nothing more is committed, it goes to sleep on the console, to continue
  with the missing number of bytes at the next address, or returns -1 if the process is killed. At a
  control-D it returns the number of characters handed over; the control-D is taken if there were
  none and stays committed otherwise. At a character whose destination the process may not
  write, it returns the number handed over before, and the character is lost. The line being
  edited is not touched.
\<close>

theorem consoleread_line_at_a_time:
  assumes "cons_ok s" and "L_cons \<notin> set (held s)"
  shows "\<exists>r s' out rest. consoleread u dst n s = Ret (r, s') \<and> cons_ok s' \<and> editing s' = editing s \<and> held s' = held s \<and>
    committed s = out @ rest \<and> length out \<le> nat n \<and> newline \<notin> set (butlast out) \<and> Ctrl (CHR ''D'') \<notin> set out \<and>
    pmem s' = deliver_to u (pr_pagetable (cur s)) dst out (pmem s) \<and>
    (if length out = nat n \<or> newline \<in> set out then r = Done (int (length out)) \<and> committed s' = rest
     else case rest of
       [] \<Rightarrow> r = (if pr_killed (cur s) then Done (-1) else Asleep ChCons (nat n - length out, dst + of_nat (length out))) \<and>
         committed s' = []
     | c # cs \<Rightarrow> r = Done (int (length out)) \<and>
         (if c = Ctrl (CHR ''D'') then committed s' = (if out = [] then cs else rest)
          else dst_bad u (pr_pagetable (cur s)) (dst + of_nat (length out)) (pmem s') \<and> committed s' = cs))"
proof -
  define s1 where "s1 = s\<lparr>held := L_cons # held s\<rparr>"
  have "returns (consoleread_loop u (nat n) (nat n) dst s1) (read_post u (nat n) (nat n) dst s1)"
    using assms(1) by (intro consoleread_loop_spec) (simp_all add: s1_def)
  moreover have "consoleread u dst n s = consoleread_loop u (nat n) (nat n) dst s1"
    using assms(2) by (simp add: consoleread_def s1_def)
  ultimately obtain r s' where r: "consoleread u dst n s = Ret (r, s')" "read_post u (nat n) (nat n) dst s1 (r, s')"
    by (auto simp: returns_def)
  have v: "committed s1 = committed s" "editing s1 = editing s" "cur s1 = cur s" "remove1 L_cons (held s1) = held s" "pmem s1 = pmem s"
    by (simp_all add: s1_def)
  obtain out rest where o: "cons_ok s'" "editing s' = editing s" "held s' = held s"
    "committed s = out @ rest" "length out \<le> nat n" "newline \<notin> set (butlast out)" "Ctrl (CHR ''D'') \<notin> set out"
    "pmem s' = deliver_to u (pr_pagetable (cur s)) dst out (pmem s)"
    and e: "read_end u (cur s) (nat n) (nat n) dst out rest (pmem s') r (committed s')"
    using r(2) unfolding read_post_def v fst_conv snd_conv by blast
  have "nat n - length out < nat n \<longleftrightarrow> out \<noteq> []" if "length out \<noteq> nat n" using that o(5) by (cases out) auto
  with e r(1) o show ?thesis
    by (intro exI [of _ r] exI [of _ s'] exI [of _ out] exI [of _ rest])
      (auto simp: read_end_def Let_def split: list.splits)
qed

text \<open>A console with a line and the start of the next one committed: \<open>ab\<close>, newline, \<open>c\<close>.\<close>

definition demo_typed :: cons where
  "demo_typed = demo_cons\<lparr>cons_buf := (replicate 128 0)[127 := 97, 0 := 98, 1 := 10, 2 := 99], cons_w := 3, cons_e := 3\<rparr>"

lemma demo_typed_ok: "cons_ok demo_typed" "held demo_typed = []" "committed demo_typed = [97, 98, 10, 99]" "pmem demo_typed = (\<lambda>_. 0)"
  by (simp_all add: demo_typed_def demo_cons_def demo_uart_def uart.defs cons_ok_def ring_ok_def INPUT_BUF_def editing_def
      committed_def ring_list_def upt_rec nth_list_update)

theorem consoleread_line_at_a_time_witness:
  "\<exists>s'. consoleread False 0x80030000 16 demo_typed = Ret (Done 3, s') \<and> committed s' = [99] \<and>
    pmem s' 0x80030000 = 97 \<and> pmem s' 0x80030001 = 98 \<and> pmem s' 0x80030002 = 10 \<and> pmem s' 0x80030003 = 0"
proof -
  obtain r s' out rest where o: "consoleread False 0x80030000 16 demo_typed = Ret (r, s')" "[97, 98, 10, 99] = out @ rest"
    "newline \<notin> set (butlast out)" "pmem s' = deliver_to False (pr_pagetable (cur demo_typed)) 0x80030000 out (\<lambda>_. 0)"
    "if length out = nat 16 \<or> newline \<in> set out then r = Done (int (length out)) \<and> committed s' = rest
     else case rest of
       [] \<Rightarrow> r = (if pr_killed (cur demo_typed) then Done (-1) else Asleep ChCons (nat 16 - length out, 0x80030000 + of_nat (length out))) \<and>
         committed s' = []
     | c # cs \<Rightarrow> r = Done (int (length out)) \<and>
         (if c = Ctrl (CHR ''D'') then committed s' = (if out = [] then cs else rest)
          else dst_bad False (pr_pagetable (cur demo_typed)) (0x80030000 + of_nat (length out)) (pmem s') \<and> committed s' = cs)"
    using consoleread_line_at_a_time [OF demo_typed_ok(1), of False "0x80030000" 16] demo_typed_ok(2)
    unfolding demo_typed_ok(3,4) by simp blast
  have "out = [97, 98, 10]"
    using o(2,3,5) by (auto simp: Cons_eq_append_conv newline_def Ctrl_def dst_bad_def)
  with o show ?thesis by (auto simp: newline_def dst_addr_def)
qed

end
