(* ===== verification/Kstring.thy ===== *)
theory Kstring
  imports Prelude
begin

text \<open>
  The string and memory routines of the kernel (kernel/string.c) and of the user library
  (user/ulib.c), on a byte memory \<open>mem\<close> from addresses to bytes, so that overlapping
  source and destination are what they are in C. \<open>char\<close> is unsigned on RISC-V. A loop
  that runs to a terminating zero is a partial function: \<open>None\<close> when there is no zero.

  Where both files define a routine of one name, the user library's carries the prefix
  \<open>u\<close>. \<open>cstr m p xs\<close> says that the C string at \<open>p\<close> has the characters \<open>xs\<close>.
\<close>

type_synonym mem = "nat \<Rightarrow> byte"

section \<open>kernel/string.c\<close>

text \<open>The loop of \<open>memset\<close>, from index \<open>i\<close> with \<open>k\<close> iterations to go.\<close>

fun memset_loop :: "nat \<Rightarrow> byte \<Rightarrow> nat \<Rightarrow> nat \<Rightarrow> mem \<Rightarrow> mem" where
  "memset_loop cdst c i 0 m = m"
| "memset_loop cdst c i (Suc k) m = memset_loop cdst c (Suc i) k (m(cdst + i := c))"

definition memset :: "nat \<Rightarrow> int \<Rightarrow> nat \<Rightarrow> mem \<Rightarrow> mem" where
  "memset dst c n m = memset_loop dst (word_of_int c) 0 n m"

fun memcmp :: "nat \<Rightarrow> nat \<Rightarrow> nat \<Rightarrow> mem \<Rightarrow> int" where
  "memcmp s1 s2 0 m = 0"
| "memcmp s1 s2 (Suc n) m =
     (if m s1 \<noteq> m s2 then uint (m s1) - uint (m s2) else memcmp (s1 + 1) (s2 + 1) n m)"

fun copy_up :: "nat \<Rightarrow> nat \<Rightarrow> nat \<Rightarrow> mem \<Rightarrow> mem" where
  "copy_up d s 0 m = m"
| "copy_up d s (Suc n) m = copy_up (d + 1) (s + 1) n (m(d := m s))"

fun copy_down :: "nat \<Rightarrow> nat \<Rightarrow> nat \<Rightarrow> mem \<Rightarrow> mem" where
  "copy_down d s 0 m = m"
| "copy_down d s (Suc n) m = copy_down (d - 1) (s - 1) n (m(d - 1 := m (s - 1)))"

definition memmove :: "nat \<Rightarrow> nat \<Rightarrow> nat \<Rightarrow> mem \<Rightarrow> mem" where
  "memmove dst src n m =
     (if src < dst \<and> src + n > dst then copy_down (dst + n) (src + n) n m
      else copy_up dst src n m)"

definition memcpy :: "nat \<Rightarrow> nat \<Rightarrow> nat \<Rightarrow> mem \<Rightarrow> mem" where
  "memcpy dst src n m = memmove dst src n m"

fun strncmp :: "nat \<Rightarrow> nat \<Rightarrow> nat \<Rightarrow> mem \<Rightarrow> int" where
  "strncmp p q 0 m = 0"
| "strncmp p q (Suc n) m =
     (if m p \<noteq> 0 \<and> m p = m q then strncmp (p + 1) (q + 1) n m
      else uint (m p) - uint (m q))"

text \<open>\<open>strncpy\<close>: the copying loop, then the loop that fills with zeros.\<close>

fun strncpy_fill :: "nat \<Rightarrow> nat \<Rightarrow> mem \<Rightarrow> mem" where
  "strncpy_fill s 0 m = m"
| "strncpy_fill s (Suc n) m = strncpy_fill (s + 1) n (m(s := 0))"

fun strncpy_loop :: "nat \<Rightarrow> nat \<Rightarrow> nat \<Rightarrow> mem \<Rightarrow> mem" where
  "strncpy_loop s t 0 m = m"
| "strncpy_loop s t (Suc n) m =
     (let c = m t; m1 = m(s := c)
      in if c \<noteq> 0 then strncpy_loop (s + 1) (t + 1) n m1 else strncpy_fill (s + 1) n m1)"

definition strncpy :: "nat \<Rightarrow> nat \<Rightarrow> int \<Rightarrow> mem \<Rightarrow> mem" where
  "strncpy s t n m = strncpy_loop s t (nat n) m"

fun safestrcpy_loop :: "nat \<Rightarrow> nat \<Rightarrow> nat \<Rightarrow> mem \<Rightarrow> mem" where
  "safestrcpy_loop s t 0 m = m(s := 0)"
| "safestrcpy_loop s t (Suc n) m =
     (let c = m t; m1 = m(s := c)
      in if c \<noteq> 0 then safestrcpy_loop (s + 1) (t + 1) n m1 else m1(s + 1 := 0))"

definition safestrcpy :: "nat \<Rightarrow> nat \<Rightarrow> int \<Rightarrow> mem \<Rightarrow> mem" where
  "safestrcpy s t n m = (if n \<le> 0 then m else safestrcpy_loop s t (nat (n - 1)) m)"

partial_function (option) strlen_loop :: "nat \<Rightarrow> nat \<Rightarrow> mem \<Rightarrow> nat option" where
  "strlen_loop s n m = (if m (s + n) \<noteq> 0 then strlen_loop s (n + 1) m else Some n)"

definition strlen :: "nat \<Rightarrow> mem \<Rightarrow> nat option" where
  "strlen s m = strlen_loop s 0 m"

section \<open>user/ulib.c\<close>

partial_function (option) strcpy_loop :: "nat \<Rightarrow> nat \<Rightarrow> mem \<Rightarrow> mem option" where
  "strcpy_loop s t m =
     (let c = m t; m1 = m(s := c) in if c \<noteq> 0 then strcpy_loop (s + 1) (t + 1) m1 else Some m1)"

definition strcpy :: "nat \<Rightarrow> nat \<Rightarrow> mem \<Rightarrow> mem option" where
  "strcpy s t m = strcpy_loop s t m"

partial_function (option) strcmp :: "nat \<Rightarrow> nat \<Rightarrow> mem \<Rightarrow> int option" where
  "strcmp p q m =
     (if m p \<noteq> 0 \<and> m p = m q then strcmp (p + 1) (q + 1) m else Some (uint (m p) - uint (m q)))"

definition ustrlen :: "nat \<Rightarrow> mem \<Rightarrow> nat option" where
  "ustrlen s m = strlen_loop s 0 m"

definition umemset :: "nat \<Rightarrow> int \<Rightarrow> nat \<Rightarrow> mem \<Rightarrow> mem" where
  "umemset dst c n m = memset_loop dst (word_of_int c) 0 n m"

text \<open>\<open>Some None\<close>: the character is not in the string, a null pointer is returned.\<close>

partial_function (option) strchr :: "nat \<Rightarrow> byte \<Rightarrow> mem \<Rightarrow> nat option option" where
  "strchr s c m = (if m s = 0 then Some None else if m s = c then Some (Some s) else strchr (s + 1) c m)"

text \<open>The C \<open>int\<close> that \<open>atoi\<close> builds up is 32 bits wide and wraps around.\<close>

partial_function (option) atoi_loop :: "nat \<Rightarrow> u32 \<Rightarrow> mem \<Rightarrow> u32 option" where
  "atoi_loop s n m =
     (if 48 \<le> m s \<and> m s \<le> 57 then atoi_loop (s + 1) (n * 10 + ucast (m s) - 48) m else Some n)"

definition atoi :: "nat \<Rightarrow> mem \<Rightarrow> int option" where
  "atoi s m = map_option sint (atoi_loop s 0 m)"

definition umemmove :: "nat \<Rightarrow> nat \<Rightarrow> int \<Rightarrow> mem \<Rightarrow> mem" where
  "umemmove vdst vsrc n m =
     (if vsrc > vdst then copy_up vdst vsrc (nat n) m
      else copy_down (vdst + nat n) (vsrc + nat n) (nat n) m)"

definition umemcmp :: "nat \<Rightarrow> nat \<Rightarrow> nat \<Rightarrow> mem \<Rightarrow> int" where
  "umemcmp s1 s2 n m = memcmp s1 s2 n m"

definition umemcpy :: "nat \<Rightarrow> nat \<Rightarrow> nat \<Rightarrow> mem \<Rightarrow> mem" where
  "umemcpy dst src n m = umemmove dst src (int n) m"

text \<open>
  \<open>gets\<close> reads with the system call \<open>read(0, &c, 1)\<close>, a parameter: from the state of the
  input it gives the count, the character and the state after.
\<close>

fun gets_loop :: "('r \<Rightarrow> int \<times> byte \<times> 'r) \<Rightarrow> nat \<Rightarrow> nat \<Rightarrow> nat \<Rightarrow> 'r \<Rightarrow> mem \<Rightarrow> nat \<times> 'r \<times> mem" where
  "gets_loop rd buf i 0 r m = (i, r, m)"
| "gets_loop rd buf i (Suc k) r m =
     (let (cc, c, r1) = rd r
      in if cc < 1 then (i, r1, m)
         else let m1 = m(buf + i := c)
              in if c = 10 \<or> c = 13 then (i + 1, r1, m1) else gets_loop rd buf (i + 1) k r1 m1)"

definition gets :: "('r \<Rightarrow> int \<times> byte \<times> 'r) \<Rightarrow> nat \<Rightarrow> int \<Rightarrow> 'r \<Rightarrow> mem \<Rightarrow> 'r \<times> mem" where
  "gets rd buf mx r m =
     (let (i, r1, m1) = gets_loop rd buf 0 (nat (mx - 1)) r m in (r1, m1(buf + i := 0)))"

text \<open>\<open>stat\<close> over the system calls \<open>open\<close>, \<open>fstat\<close> and \<open>close\<close>.\<close>

definition ustat ::
    "('n \<Rightarrow> 's \<Rightarrow> int \<times> 's) \<Rightarrow> (int \<Rightarrow> 's \<Rightarrow> int \<times> 's) \<Rightarrow> (int \<Rightarrow> 's \<Rightarrow> 's) \<Rightarrow> 'n \<Rightarrow> 's \<Rightarrow> int \<times> 's" where
  "ustat open_rdonly fstat close n s =
     (let (fd, s1) = open_rdonly n s
      in if fd < 0 then (-1, s1)
         else let (r, s2) = fstat fd s1 in (r, close fd s2))"

section \<open>Memory blocks\<close>

lemma memset_loop_apply: "memset_loop d c i k m a = (if d + i \<le> a \<and> a < d + i + k then c else m a)"
proof (induction k arbitrary: i m)
  case (Suc k)
  show ?case by (simp only: memset_loop.simps Suc.IH) auto
qed auto

lemma memset_apply: "memset d c n m a = (if d \<le> a \<and> a < d + n then word_of_int c else m a)"
  by (simp add: memset_def memset_loop_apply)

lemma copy_up_apply:
  "d \<le> s \<or> s + n \<le> d \<Longrightarrow> copy_up d s n m a = (if d \<le> a \<and> a < d + n then m (s + (a - d)) else m a)"
proof (induction n arbitrary: d s m)
  case (Suc n)
  have *: "copy_up d s (Suc n) m a =
      (if d + 1 \<le> a \<and> a < d + 1 + n then (m(d := m s)) (s + 1 + (a - (d + 1))) else (m(d := m s)) a)"
    unfolding copy_up.simps using Suc.prems by (intro Suc.IH) auto
  have idx: "Suc d \<le> a \<Longrightarrow> s + 1 + (a - (d + 1)) = s + (a - d)" by arith
  show ?case unfolding * using Suc.prems idx by (cases "a = d") (auto simp: idx)
qed auto

lemma copy_down_apply:
  "s \<le> d \<Longrightarrow> n \<le> s \<Longrightarrow> copy_down d s n m a = (if d - n \<le> a \<and> a < d then m (a + s - d) else m a)"
proof (induction n arbitrary: d s m)
  case (Suc n)
  have *: "copy_down d s (Suc n) m a =
      (if d - 1 - n \<le> a \<and> a < d - 1 then (m(d - 1 := m (s - 1))) (a + (s - 1) - (d - 1)) else (m(d - 1 := m (s - 1))) a)"
    unfolding copy_down.simps using Suc.prems by (intro Suc.IH) auto
  show ?case unfolding * using Suc.prems by (cases "a = d - 1") auto
qed auto

section \<open>C strings\<close>

fun cstr :: "mem \<Rightarrow> nat \<Rightarrow> byte list \<Rightarrow> bool" where
  "cstr m p [] \<longleftrightarrow> m p = 0"
| "cstr m p (x # xs) \<longleftrightarrow> m p = x \<and> x \<noteq> 0 \<and> cstr m (p + 1) xs"

lemma cstr_cong: "(\<And>a. p \<le> a \<Longrightarrow> a \<le> p + length xs \<Longrightarrow> m a = m' a) \<Longrightarrow> cstr m p xs = cstr m' p xs"
  by (induction xs arbitrary: p) auto

lemma cstr_nth: "cstr m p xs \<Longrightarrow> i < length xs \<Longrightarrow> m (p + i) = xs ! i \<and> xs ! i \<noteq> 0"
proof (induction xs arbitrary: p i)
  case (Cons x xs)
  then show ?case using Cons.IH [of "p + 1" "i - 1"] by (cases i) auto
qed simp

lemma cstr_end: "cstr m p xs \<Longrightarrow> m (p + length xs) = 0"
proof (induction xs arbitrary: p)
  case (Cons x xs)
  then show ?case using Cons.IH [of "p + 1"] by simp
qed simp

lemma strlen_loop_cstr: "cstr m (s + n) xs \<Longrightarrow> strlen_loop s n m = Some (n + length xs)"
proof (induction xs arbitrary: n)
  case Nil
  then show ?case by (subst strlen_loop.simps) simp
next
  case (Cons x xs)
  then show ?case by (subst strlen_loop.simps) simp
qed

lemma strlen_cstr: "cstr m s xs \<Longrightarrow> strlen s m = Some (length xs)"
  using strlen_loop_cstr [of m s 0 xs] by (simp add: strlen_def)

lemma strcmp_cstr:
  "cstr m p xs \<Longrightarrow> cstr m q ys \<Longrightarrow> \<exists>v. strcmp p q m = Some v \<and> (v = 0 \<longleftrightarrow> xs = ys) \<and>
     (v < 0 \<longleftrightarrow> (xs, ys) \<in> lexord {(a, b). a < b})"
proof (induction xs arbitrary: p q ys)
  case Nil
  then show ?case
    by (cases ys) (subst strcmp.simps, auto simp: word_less_def)+
next
  case (Cons x xs)
  show ?case
  proof (cases "\<exists>zs. ys = x # zs")
    case True
    with Cons.prems Cons.IH [of "p + 1" "q + 1"] show ?thesis
      by (subst strcmp.simps) auto
  next
    case False
    with Cons.prems show ?thesis
      by (cases ys) (subst strcmp.simps, auto simp: word_less_def)+
  qed
qed

lemma strncmp_cstr:
  "cstr m p xs \<Longrightarrow> cstr m q ys \<Longrightarrow> (strncmp p q n m = 0 \<longleftrightarrow> take n xs = take n ys) \<and>
     (strncmp p q n m < 0 \<longleftrightarrow> (take n xs, take n ys) \<in> lexord {(a, b). a < b})"
proof (induction n arbitrary: p q xs ys)
  case (Suc n)
  show ?case
  proof (cases "\<exists>x xs' ys'. xs = x # xs' \<and> ys = x # ys'")
    case True
    with Suc.prems Suc.IH [of "p + 1" _ "q + 1"] show ?thesis by auto
  next
    case False
    with Suc.prems show ?thesis
      by (cases xs; cases ys) (auto simp: word_less_def)
  qed
qed simp

lemma strncpy_fill_apply: "strncpy_fill s n m a = (if s \<le> a \<and> a < s + n then 0 else m a)"
proof (induction n arbitrary: s m)
  case (Suc n)
  show ?case by (simp only: strncpy_fill.simps Suc.IH) auto
qed auto

text \<open>\<open>s\<close> with room for \<open>n\<close> bytes does not overlap the string \<open>xs\<close> at \<open>t\<close>.\<close>

definition no_overlap :: "nat \<Rightarrow> nat \<Rightarrow> nat \<Rightarrow> byte list \<Rightarrow> bool" where
  "no_overlap s n t xs \<longleftrightarrow> s + n \<le> t \<or> t + length xs < s"

lemma no_overlap_Cons: "no_overlap s (Suc n) t (x # xs) \<Longrightarrow> no_overlap (s + 1) n (t + 1) xs"
  by (auto simp: no_overlap_def)

lemma cstr_copied:
  assumes "cstr m t (x # xs)" and "no_overlap s (Suc n) t (x # xs)"
  shows "cstr (m(s := x)) (t + 1) xs"
proof -
  have "cstr (m(s := x)) (t + 1) xs = cstr m (t + 1) xs"
    using assms(2) by (intro cstr_cong) (auto simp: no_overlap_def)
  with assms(1) show ?thesis by simp
qed

lemma strncpy_loop_apply:
  "cstr m t xs \<Longrightarrow> no_overlap s n t xs \<Longrightarrow>
     strncpy_loop s t n m a = (if s \<le> a \<and> a < s + n then (if a - s < length xs then xs ! (a - s) else 0) else m a)"
proof (induction n arbitrary: s t xs m)
  case (Suc n)
  show ?case
  proof (cases xs)
    case Nil
    with Suc.prems show ?thesis by (auto simp: strncpy_fill_apply)
  next
    case (Cons x ys)
    have c: "cstr (m(s := x)) (t + 1) ys" and o: "no_overlap (s + 1) n (t + 1) ys"
      using Suc.prems Cons cstr_copied no_overlap_Cons by auto
    have "strncpy_loop s t (Suc n) m a = strncpy_loop (s + 1) (t + 1) n (m(s := x)) a"
      using Suc.prems Cons by simp
    also have "\<dots> = (if s + 1 \<le> a \<and> a < s + 1 + n
        then if a - (s + 1) < length ys then ys ! (a - (s + 1)) else 0 else (m(s := x)) a)"
      by (rule Suc.IH [OF c o])
    finally show ?thesis using Cons by (cases "a = s") (auto simp: nth_Cons' Suc_diff_Suc)
  qed
qed auto

lemma safestrcpy_loop_cstr:
  "cstr m t xs \<Longrightarrow> no_overlap s (Suc n) t xs \<Longrightarrow>
     cstr (safestrcpy_loop s t n m) s (take n xs) \<and>
     (\<forall>a. a < s \<or> s + n < a \<longrightarrow> safestrcpy_loop s t n m a = m a)"
proof (induction n arbitrary: s t xs m)
  case (Suc n)
  show ?case
  proof (cases xs)
    case Nil
    with Suc.prems show ?thesis by auto
  next
    case (Cons x ys)
    define m1 where "m1 = m(s := x)"
    have c: "cstr m1 (t + 1) ys" and o: "no_overlap (s + 1) (Suc n) (t + 1) ys"
      using Suc.prems Cons cstr_copied no_overlap_Cons by (auto simp: m1_def)
    have "safestrcpy_loop s t (Suc n) m = safestrcpy_loop (s + 1) (t + 1) n m1"
      "m1 s = x" "x \<noteq> 0" "\<And>a. a \<noteq> s \<Longrightarrow> m1 a = m a"
      using Suc.prems Cons by (simp_all add: m1_def)
    with Suc.IH [OF c o] Suc.prems Cons show ?thesis by auto
  qed
qed simp

lemma strcpy_loop_cstr:
  "cstr m t xs \<Longrightarrow> no_overlap s (length xs + 1) t xs \<Longrightarrow>
     \<exists>m'. strcpy_loop s t m = Some m' \<and> cstr m' s xs \<and> (\<forall>a. a < s \<or> s + length xs < a \<longrightarrow> m' a = m a)"
proof (induction xs arbitrary: s t m)
  case Nil
  then show ?case by (subst strcpy_loop.simps) simp
next
  case (Cons x xs)
  define m1 where "m1 = m(s := x)"
  have c: "cstr m1 (t + 1) xs" and o: "no_overlap (s + 1) (length xs + 1) (t + 1) xs"
    using Cons.prems cstr_copied [of m t x xs s "length xs + 1"] no_overlap_Cons [of s "length xs + 1" t x xs]
    by (auto simp: m1_def)
  have "strcpy_loop s t m = strcpy_loop (s + 1) (t + 1) m1" "m1 s = x" "x \<noteq> 0" "\<And>a. a \<noteq> s \<Longrightarrow> m1 a = m a"
    using Cons.prems by (subst strcpy_loop.simps, simp_all add: m1_def)
  with Cons.IH [OF c o] Cons.prems show ?case by auto
qed

lemma strchr_cstr:
  "cstr m s xs \<Longrightarrow> c \<noteq> 0 \<Longrightarrow>
     strchr s c m = Some (if c \<in> set xs then Some (s + length (takeWhile (\<lambda>x. x \<noteq> c) xs)) else None)"
proof (induction xs arbitrary: s)
  case Nil
  then show ?case by (subst strchr.simps) simp
next
  case (Cons x xs)
  then show ?case by (subst strchr.simps) auto
qed

text \<open>What \<open>atoi\<close> gives for decimal digits.\<close>

lemma atoi_loop_digits:
  assumes "cstr m s (ds @ rest)" and "\<forall>d \<in> set ds. 48 \<le> d \<and> d \<le> 57"
    and "rest = [] \<or> \<not> (48 \<le> hd rest \<and> hd rest \<le> 57)"
  shows "atoi_loop s v m = Some (foldl (\<lambda>v d. v * 10 + (ucast d - 48)) v ds)"
  using assms
proof (induction ds arbitrary: s v)
  case Nil
  then show ?case by (cases rest) (subst atoi_loop.simps, auto)+
next
  case (Cons d ds)
  have "atoi_loop s v m = atoi_loop (s + 1) (v * 10 + ucast d - 48) m"
    using Cons.prems by (subst atoi_loop.simps) simp
  also have "\<dots> = Some (foldl (\<lambda>v d. v * 10 + (ucast d - 48)) (v * 10 + ucast d - 48) ds)"
    using Cons.prems by (intro Cons.IH) auto
  finally show ?case by (simp add: algebra_simps)
qed

text \<open>The same digits as an unbounded integer.\<close>

lemma digits_word:
  "foldl (\<lambda>v d. v * 10 + (ucast d - 48)) (of_int v) ds = (of_int (foldl (\<lambda>v d. v * 10 + (uint d - 48)) v ds) :: u32)"
  for ds :: "byte list"
proof (induction ds arbitrary: v)
  case (Cons d ds)
  have "(of_int v * 10 + (ucast d - 48) :: u32) = of_int (v * 10 + (uint d - 48))" by simp
  with Cons show ?case by (simp only: foldl_Cons)
qed simp

lemma atoi_digits:
  assumes "cstr m s (ds @ rest)" and "\<forall>d \<in> set ds. 48 \<le> d \<and> d \<le> 57"
    and "rest = [] \<or> \<not> (48 \<le> hd rest \<and> hd rest \<le> 57)"
  shows "atoi s m = Some (sint (of_int (foldl (\<lambda>v d. v * 10 + (uint d - 48)) 0 ds) :: u32))"
  using atoi_loop_digits [OF assms, of 0] digits_word [of 0 ds] by (simp add: atoi_def)

section \<open>Properties of the memory routines\<close>

text \<open>
  C27. \<open>memmove\<close>, the kernel's and the user library's, copies the source block as it was
  before the call, however source and destination overlap, and changes nothing else.
\<close>

theorem memmove_overlap:
  "memmove dst src n m a = (if dst \<le> a \<and> a < dst + n then m (src + (a - dst)) else m a) \<and>
   umemmove dst src (int n) m a = (if dst \<le> a \<and> a < dst + n then m (src + (a - dst)) else m a)"
proof -
  have idx: "dst \<le> a \<Longrightarrow> a + (src + n) - (dst + n) = src + (a - dst)" by arith
  show ?thesis
    by (auto simp: memmove_def umemmove_def copy_up_apply copy_down_apply idx)
qed

text \<open>
  C28. \<open>safestrcpy\<close> with room for \<open>n > 0\<close> bytes leaves at the destination a terminated C
  string, the first \<open>n - 1\<close> characters of the source, and writes nothing outside the
  \<open>n\<close> bytes; \<open>strncpy\<close> fills its \<open>n\<close> bytes with the source and then zeros, and
  terminates it only when the source is shorter than \<open>n\<close>.
\<close>

theorem safestrcpy_terminated:
  assumes "cstr m t xs" and "no_overlap s (nat n) t xs" and "0 < n"
  shows "cstr (safestrcpy s t n m) s (take (nat n - 1) xs) \<and>
    (\<forall>a. a < s \<or> s + nat n \<le> a \<longrightarrow> safestrcpy s t n m a = m a) \<and>
    (\<forall>a. strncpy s t n m a =
      (if s \<le> a \<and> a < s + nat n then (if a - s < length xs then xs ! (a - s) else 0) else m a))"
proof -
  have "nat n = Suc (nat (n - 1))" using assms(3) by simp
  with safestrcpy_loop_cstr [OF assms(1), of s "nat (n - 1)"] assms(2,3)
  have "cstr (safestrcpy s t n m) s (take (nat n - 1) xs) \<and>
      (\<forall>a. a < s \<or> s + nat n \<le> a \<longrightarrow> safestrcpy s t n m a = m a)"
    by (auto simp: safestrcpy_def)
  moreover have "\<forall>a. strncpy s t n m a =
      (if s \<le> a \<and> a < s + nat n then (if a - s < length xs then xs ! (a - s) else 0) else m a)"
    unfolding strncpy_def using strncpy_loop_apply [OF assms(1,2)] by blast
  ultimately show ?thesis by blast
qed

definition demo_mem :: mem where
  "demo_mem a = (if a = 100 then 105 else if a = 101 then 110 else if a = 102 then 105 else if a = 103 then 116 else 0)"

theorem safestrcpy_terminated_witness:
  "cstr demo_mem 100 [105, 110, 105, 116] \<and> cstr (safestrcpy 200 100 3 demo_mem) 200 [105, 110]"
proof -
  have c: "cstr demo_mem 100 [105, 110, 105, 116]" by (simp add: demo_mem_def)
  moreover have "no_overlap 200 (nat 3) 100 [105, 110, 105, 116]" by (simp add: no_overlap_def)
  ultimately show ?thesis
    using safestrcpy_terminated [OF c, of 200 3] by simp
qed

end
