(* ===== verification/Printf.thy ===== *)
theory Printf
  imports Console Kstring
begin

text \<open>
  Formatted output: kernel/printf.c, to the console, and user/printf.c, through \<open>write\<close>.

  A format is a C string without its terminating zero, the variable arguments are a list; taking
  an argument that is not there, or of another type, is \<open>Fault\<close>. \<open>write\<close> is the system call, a
  parameter. \<open>printint\<close> is called with base 10 and 16 only; the digit loop stops at once for a
  base below 2, for which the code would not end.
\<close>

datatype vararg = VInt u32 | VLong u64 | VStr "string option"

section \<open>Digits\<close>

definition kdigits :: string where "kdigits = ''0123456789abcdef''"
definition udigits :: string where "udigits = ''0123456789ABCDEF''"

text \<open>The digits from the least significant on, as the loop stores them in \<open>buf\<close>.\<close>

function digit_loop :: "string \<Rightarrow> u32 \<Rightarrow> u32 \<Rightarrow> string" where
  "digit_loop digits base x =
     (if base < 2 then []
      else digits ! unat (x mod base) # (if x div base = 0 then [] else digit_loop digits base (x div base)))"
  by pat_completeness auto
termination
proof (relation "measure (\<lambda>(digits, base, x). unat x)", goal_cases)
  case (2 digits base x)
  have "2 \<le> unat base" using 2(1) by (simp add: word_less_nat_alt)
  moreover have "0 < unat x" using 2(2) by (metis div_0 gr_zeroI unat_eq_zero)
  ultimately show ?case by (simp add: unat_div)
qed simp

declare digit_loop.simps [simp del]

text \<open>\<open>buf\<close> when the digits and the sign are in it; it is printed from its end.\<close>

definition printint_buf :: "string \<Rightarrow> u32 \<Rightarrow> u32 \<Rightarrow> bool \<Rightarrow> string" where
  "printint_buf digits xx base sign =
     (let neg = sign \<and> sint xx < 0; x = (if neg then - xx else xx)
      in digit_loop digits base x @ (if neg then ''-'' else []))"

fun printptr_loop :: "string \<Rightarrow> nat \<Rightarrow> u64 \<Rightarrow> string" where
  "printptr_loop digits 0 x = []"
| "printptr_loop digits (Suc k) x = digits ! unat (drop_bit 60 x) # printptr_loop digits k (push_bit 4 x)"

section \<open>The kernel's printf\<close>

record printer = cons +
  pr_locking :: bool

fun consputs :: "string \<Rightarrow> 'z uart_scheme \<Rightarrow> 'z uart_scheme res" where
  "consputs [] s = Ret s"
| "consputs (c # cs) s = bind_res (consputc (of_char c) s) (consputs cs)"

definition printint :: "u32 \<Rightarrow> u32 \<Rightarrow> bool \<Rightarrow> 'z uart_scheme \<Rightarrow> 'z uart_scheme res" where
  "printint xx base sign s = consputs (rev (printint_buf kdigits xx base sign)) s"

definition printptr :: "u64 \<Rightarrow> 'z uart_scheme \<Rightarrow> 'z uart_scheme res" where
  "printptr x s = consputs (''0x'' @ printptr_loop kdigits 16 x) s"

text \<open>One conversion: the action and the arguments left.\<close>

definition printf_conv :: "char \<Rightarrow> vararg list \<Rightarrow> 'z uart_scheme \<Rightarrow> ('z uart_scheme \<times> vararg list) res" where
  "printf_conv c ap s =
     (if c = CHR ''d'' then (case ap of VInt x # r \<Rightarrow> bind_res (printint x 10 True s) (\<lambda>t. Ret (t, r)) | _ \<Rightarrow> Fault)
      else if c = CHR ''x'' then (case ap of VInt x # r \<Rightarrow> bind_res (printint x 16 True s) (\<lambda>t. Ret (t, r)) | _ \<Rightarrow> Fault)
      else if c = CHR ''p'' then (case ap of VLong x # r \<Rightarrow> bind_res (printptr x s) (\<lambda>t. Ret (t, r)) | _ \<Rightarrow> Fault)
      else if c = CHR ''s'' then
        (case ap of VStr x # r \<Rightarrow> bind_res (consputs (case x of None \<Rightarrow> ''(null)'' | Some cs \<Rightarrow> cs) s) (\<lambda>t. Ret (t, r)) | _ \<Rightarrow> Fault)
      else if c = CHR ''%'' then bind_res (consputs ''%'' s) (\<lambda>t. Ret (t, ap))
      else bind_res (consputs [CHR ''%'', c] s) (\<lambda>t. Ret (t, ap)))"

fun printf_loop :: "string \<Rightarrow> vararg list \<Rightarrow> 'z uart_scheme \<Rightarrow> 'z uart_scheme res" where
  "printf_loop [] ap s = Ret s"
| "printf_loop [c] ap s = (if c \<noteq> CHR ''%'' then consputs [c] s else Ret s)"
| "printf_loop (c # d # fmt) ap s =
     (if c \<noteq> CHR ''%'' then bind_res (consputs [c] s) (printf_loop (d # fmt) ap)
      else bind_res (printf_conv d ap s) (\<lambda>(t, r). printf_loop fmt r t))"

definition printf :: "string option \<Rightarrow> vararg list \<Rightarrow> 'z printer_scheme \<Rightarrow> 'z printer_scheme res" where
  "printf fmt ap s =
     (let locking = pr_locking s in
      bind_res (if locking then lock_acquire L_pr s else Ret s) (\<lambda>s1.
      case fmt of None \<Rightarrow> Panic ''null fmt''
      | Some f \<Rightarrow> bind_res (printf_loop f ap s1) (\<lambda>s2. if locking then lock_release L_pr s2 else Ret s2)))"

text \<open>The state in which \<open>panic\<close> spins for ever.\<close>

definition panic :: "string \<Rightarrow> 'z printer_scheme \<Rightarrow> 'z printer_scheme res" where
  "panic msg s =
     bind_res (printf (Some ''panic: '') [] (s\<lparr>pr_locking := False\<rparr>)) (\<lambda>s1.
     bind_res (printf (Some msg) [] s1) (\<lambda>s2.
     bind_res (printf (Some [CHR 0x0A]) [] s2) (\<lambda>s3. Ret (s3\<lparr>panicked := True\<rparr>))))"

definition printfinit :: "'z printer_scheme \<Rightarrow> 'z printer_scheme" where
  "printfinit s = s\<lparr>pr_locking := True\<rparr>"

section \<open>The user library's printf\<close>

definition putc :: "(int \<Rightarrow> string \<Rightarrow> 'w \<Rightarrow> 'w) \<Rightarrow> int \<Rightarrow> char \<Rightarrow> 'w \<Rightarrow> 'w" where
  "putc write fd c w = write fd [c] w"

fun putcs :: "(int \<Rightarrow> string \<Rightarrow> 'w \<Rightarrow> 'w) \<Rightarrow> int \<Rightarrow> string \<Rightarrow> 'w \<Rightarrow> 'w" where
  "putcs write fd [] w = w"
| "putcs write fd (c # cs) w = putcs write fd cs (putc write fd c w)"

definition uprintint :: "(int \<Rightarrow> string \<Rightarrow> 'w \<Rightarrow> 'w) \<Rightarrow> int \<Rightarrow> u32 \<Rightarrow> u32 \<Rightarrow> bool \<Rightarrow> 'w \<Rightarrow> 'w" where
  "uprintint write fd xx base sign w = putcs write fd (rev (printint_buf udigits xx base sign)) w"

definition uprintptr :: "(int \<Rightarrow> string \<Rightarrow> 'w \<Rightarrow> 'w) \<Rightarrow> int \<Rightarrow> u64 \<Rightarrow> 'w \<Rightarrow> 'w" where
  "uprintptr write fd x w = putcs write fd (''0x'' @ printptr_loop udigits 16 x) w"

definition vprintf_conv :: "(int \<Rightarrow> string \<Rightarrow> 'w \<Rightarrow> 'w) \<Rightarrow> int \<Rightarrow> char \<Rightarrow> vararg list \<Rightarrow> 'w \<Rightarrow> ('w \<times> vararg list) res" where
  "vprintf_conv write fd c ap w =
     (if c = CHR ''d'' then (case ap of VInt x # r \<Rightarrow> Ret (uprintint write fd x 10 True w, r) | _ \<Rightarrow> Fault)
      else if c = CHR ''l'' then (case ap of VLong x # r \<Rightarrow> Ret (uprintint write fd (ucast x) 10 False w, r) | _ \<Rightarrow> Fault)
      else if c = CHR ''x'' then (case ap of VInt x # r \<Rightarrow> Ret (uprintint write fd x 16 False w, r) | _ \<Rightarrow> Fault)
      else if c = CHR ''p'' then (case ap of VLong x # r \<Rightarrow> Ret (uprintptr write fd x w, r) | _ \<Rightarrow> Fault)
      else if c = CHR ''s'' then
        (case ap of VStr x # r \<Rightarrow> Ret (putcs write fd (case x of None \<Rightarrow> ''(null)'' | Some cs \<Rightarrow> cs) w, r) | _ \<Rightarrow> Fault)
      else if c = CHR ''c'' then (case ap of VInt x # r \<Rightarrow> Ret (putc write fd (char_of (unat x)) w, r) | _ \<Rightarrow> Fault)
      else if c = CHR ''%'' then Ret (putc write fd c w, ap)
      else Ret (putcs write fd [CHR ''%'', c] w, ap))"

text \<open>\<open>pct\<close>: the variable \<open>state\<close> is \<open>'%'\<close>.\<close>

fun vprintf_loop :: "(int \<Rightarrow> string \<Rightarrow> 'w \<Rightarrow> 'w) \<Rightarrow> int \<Rightarrow> bool \<Rightarrow> string \<Rightarrow> vararg list \<Rightarrow> 'w \<Rightarrow> 'w res" where
  "vprintf_loop write fd pct [] ap w = Ret w"
| "vprintf_loop write fd pct (c # fmt) ap w =
     (if \<not> pct then
        (if c = CHR ''%'' then vprintf_loop write fd True fmt ap w
         else vprintf_loop write fd False fmt ap (putc write fd c w))
      else bind_res (vprintf_conv write fd c ap w) (\<lambda>(w1, r). vprintf_loop write fd False fmt r w1))"

definition vprintf :: "(int \<Rightarrow> string \<Rightarrow> 'w \<Rightarrow> 'w) \<Rightarrow> int \<Rightarrow> string \<Rightarrow> vararg list \<Rightarrow> 'w \<Rightarrow> 'w res" where
  "vprintf write fd fmt ap w = vprintf_loop write fd False fmt ap w"

definition fprintf :: "(int \<Rightarrow> string \<Rightarrow> 'w \<Rightarrow> 'w) \<Rightarrow> int \<Rightarrow> string \<Rightarrow> vararg list \<Rightarrow> 'w \<Rightarrow> 'w res" where
  "fprintf write fd fmt ap w = vprintf write fd fmt ap w"

definition uprintf :: "(int \<Rightarrow> string \<Rightarrow> 'w \<Rightarrow> 'w) \<Rightarrow> string \<Rightarrow> vararg list \<Rightarrow> 'w \<Rightarrow> 'w res" where
  "uprintf write fmt ap w = vprintf write 1 fmt ap w"

section \<open>Printed numbers\<close>

lemma digit_loop_length:
  assumes "unat x < unat base ^ k" and "0 < k"
  shows "length (digit_loop digits base x) \<le> k"
  using assms
proof (induction digits base x arbitrary: k rule: digit_loop.induct)
  case (1 digits base x)
  show ?case
  proof (cases "base < 2 \<or> x div base = 0")
    case True
    with 1(3) show ?thesis by (auto simp: digit_loop.simps [of digits base x])
  next
    case False
    then have "unat x div unat base \<noteq> 0" by (simp add: unat_div word_unat_eq_iff)
    then have "\<not> unat x < unat base" by (auto simp: div_eq_0_iff)
    then have "k \<noteq> 1" using 1(2) by auto
    with 1(3) obtain j where j: "k = Suc j" "0 < j" by (cases k) auto
    have "unat (x div base) < unat base ^ j"
      using 1(2) j(1) by (simp add: unat_div less_mult_imp_div_less mult.commute)
    with 1(1) [OF _ _ _ j(2)] False j(1) show ?thesis by (simp add: digit_loop.simps [of digits base x])
  qed
qed

lemma decimal_cases: "d < 10 \<Longrightarrow> d \<in> {0, 1, 2, 3, 4, 5, 6, 7, 8, 9 :: nat}"
  by auto

lemma decimal_digit:
  assumes "d < 10"
  shows "uint (of_char (kdigits ! d) :: byte) = 48 + int d" and "uint (of_char (udigits ! d) :: byte) = 48 + int d"
  using decimal_cases [OF assms] by (auto simp: kdigits_def udigits_def)

lemma decimal_value:
  assumes "base = 10" and "\<And>d. d < 10 \<Longrightarrow> uint (of_char (digits ! d) :: byte) = 48 + int d"
  shows "foldr (\<lambda>d v. v * 10 + (uint (d :: byte) - 48)) (map of_char (digit_loop digits base x)) 0 = int (unat x) \<and>
    (\<forall>d \<in> set (map of_char (digit_loop digits base x)). (48 :: byte) \<le> d \<and> d \<le> 57)"
  using assms
proof (induction digits base x rule: digit_loop.induct)
  case (1 digits base x)
  have d: "unat (x mod base) = unat x mod 10" "unat (x div base) = unat x div 10" "unat x mod 10 < 10"
    using 1(2) by (simp_all add: unat_mod unat_div)
  have dig: "uint (of_char (digits ! (unat x mod 10)) :: byte) = 48 + int (unat x mod 10)" by (rule 1(3)) simp
  then have rng: "(48 :: byte) \<le> of_char (digits ! (unat x mod 10)) \<and> of_char (digits ! (unat x mod 10)) \<le> (57 :: byte)"
    using d(3) by (simp add: word_le_def)
  show ?case
  proof (cases "x div base = 0")
    case True
    then have "unat x div 10 = 0" using d(2) by simp
    then have "digit_loop digits base x = [digits ! unat x]" "unat x mod 10 = unat x"
      using True 1(2) d by (simp_all add: digit_loop.simps [of digits 10 x])
    with dig rng show ?thesis by simp
  next
    case False
    have "\<not> base < 2" using 1(2) by simp
    note ih = 1(1) [OF this False 1(2,3)]
    have "int (unat x div 10) * 10 + int (unat x mod 10) = int (unat x)"
      by (metis div_mult_mod_eq of_nat_add of_nat_mult of_nat_numeral)
    with False dig rng ih d \<open>\<not> base < 2\<close> show ?thesis by (simp add: digit_loop.simps [of digits base x])
  qed
qed

lemma abs_word_value: "int (unat (if sint xx < 0 then - xx else xx)) = \<bar>sint xx\<bar>" for xx :: u32
proof -
  have r: "- (2 ^ 31) \<le> sint xx" "sint xx < 2 ^ 31" using sint_range_size [of xx] by (simp_all add: word_size)
  have w: "- xx = of_int (- sint xx)" "xx = of_int (sint xx)" by simp_all
  show ?thesis
  proof (cases "sint xx < 0")
    case True
    have "uint (- xx) = take_bit 32 (- sint xx)" by (subst w(1)) (simp only: uint_word_of_int_eq, simp)
    with True r show ?thesis by (simp add: take_bit_int_eq_self)
  next
    case False
    have "uint xx = take_bit 32 (sint xx)" by (subst w(2)) (simp only: uint_word_of_int_eq, simp)
    with False r show ?thesis by (simp add: take_bit_int_eq_self)
  qed
qed

lemma digits_same: "d < 10 \<Longrightarrow> kdigits ! d = udigits ! d"
  using decimal_cases [of d] by (auto simp: kdigits_def udigits_def)

lemma digit_loop_cong:
  "(\<And>d. d < unat base \<Longrightarrow> ds ! d = ds' ! d) \<Longrightarrow> digit_loop ds base x = digit_loop ds' base x"
proof (induction ds base x rule: digit_loop.induct)
  case (1 ds base x)
  show ?case
  proof (cases "base < 2")
    case False
    then have "unat (x mod base) < unat base" by (simp add: unat_mod word_less_nat_alt)
    with False 1 show ?thesis by (auto simp: digit_loop.simps [of ds base x] digit_loop.simps [of ds' base x])
  qed (simp add: digit_loop.simps)
qed

lemma neg_word_value: "sint (- xx) = (if sint xx = - 2147483648 then sint xx else - sint xx)" if "sint xx < 0" for xx :: u32
proof (cases "sint xx = - 2147483648")
  case True
  have "xx = of_int (sint xx)" by simp
  also have "\<dots> = 0x80000000" unfolding True by simp
  finally have "xx = 0x80000000" .
  then have "- xx = xx" by (simp only:) simp
  with True show ?thesis by (simp only:) simp
next
  case False
  have r: "- (2 ^ 31) \<le> sint xx" using sint_range_size [of xx] by (simp add: word_size)
  have "int (unat (- xx)) = - sint xx" using abs_word_value [of xx] that by simp
  moreover from this r False have "int (unat (- xx)) < 2 ^ 31" by (simp del: of_nat_unat)
  then have "unat (- xx) < 2 ^ 31" by (metis of_nat_less_iff of_nat_numeral of_nat_power)
  ultimately show ?thesis using False sint_of_nat_small [of "unat (- xx)"] by simp
qed

text \<open>
  C37. Numbers printed in decimal read back. The characters that the user library's \<open>%d\<close> prints for a
  32-bit value, read by its \<open>atoi\<close>, whose arithmetic is 32 bits wide too, give the value when it is not
  negative. For a negative value \<open>atoi\<close>, which knows no sign, gives 0; from the character after
  the sign on it gives the absolute value, except that for the least integer, whose absolute value
  is out of range, it gives that integer again. The kernel's \<open>%d\<close> prints the same
  characters, and neither overruns the 16 bytes of \<open>buf\<close>, in base 10 or 16.
\<close>

theorem printint_atoi_roundtrip:
  assumes "cstr m a (map of_char (rev (printint_buf udigits xx 10 True)))"
  shows "atoi a m = Some (if sint xx < 0 then 0 else sint xx) \<and>
    (sint xx < 0 \<longrightarrow> atoi (a + 1) m = Some (if sint xx = - 2147483648 then sint xx else - sint xx)) \<and>
    printint_buf kdigits xx 10 True = printint_buf udigits xx 10 True \<and>
    length (printint_buf digits xx 10 sign) \<le> 16 \<and> length (printint_buf digits xx 16 sign) \<le> 16"
proof -
  define x where "x = (if sint xx < 0 then - xx else xx)"
  let ?ds = "map of_char (rev (digit_loop udigits 10 x)) :: byte list"
  have dv: "foldr (\<lambda>d v. v * 10 + (uint (d :: byte) - 48)) (map of_char (digit_loop udigits 10 x)) 0 = int (unat x) \<and>
      (\<forall>d \<in> set (map of_char (digit_loop udigits 10 x)). (48 :: byte) \<le> d \<and> d \<le> 57)"
    by (rule decimal_value) (simp_all add: decimal_digit)
  have read: "atoi p m = Some (sint x)" if "cstr m p ?ds" for p
  proof -
    have "atoi p m = Some (sint (of_int (foldl (\<lambda>v d. v * 10 + (uint d - 48)) 0 ?ds) :: u32))"
      using that dv by (intro atoi_digits [of m p ?ds "[]"]) simp_all
    then show ?thesis using dv by (simp add: rev_map foldr_conv_foldl)
  qed
  have 1: "atoi a m = Some (if sint xx < 0 then 0 else sint xx) \<and>
    (sint xx < 0 \<longrightarrow> atoi (a + 1) m = Some (if sint xx = - 2147483648 then sint xx else - sint xx))"
  proof (cases "sint xx < 0")
    case True
    then have "cstr m a (of_char CHR ''-'' # ?ds)" using assms by (simp add: printint_buf_def x_def rev_map)
    then have "m a = 45" "cstr m (a + 1) ?ds" by simp_all
    with True read [of "a + 1"] neg_word_value [of xx] show ?thesis
      by (simp add: atoi_def atoi_loop.simps [of a] x_def)
  next
    case False
    then show ?thesis using assms read [of a] by (simp add: printint_buf_def x_def rev_map)
  qed
  have same: "digit_loop kdigits 10 y = digit_loop udigits 10 y" for y
    by (rule digit_loop_cong) (simp add: digits_same)
  have len: "length (digit_loop digits 10 y) \<le> 10" "length (digit_loop digits 16 y) \<le> 8" for y
  proof -
    have "unat y < 2 ^ 32" using unsigned_less [of y] by simp
    then show "length (digit_loop digits 10 y) \<le> 10" "length (digit_loop digits 16 y) \<le> 8"
      by (auto intro!: digit_loop_length)
  qed
  have "length (printint_buf digits xx 10 sign) \<le> 16" "length (printint_buf digits xx 16 sign) \<le> 16"
    using len [of xx] len [of "- xx"] by (simp_all add: printint_buf_def Let_def)
  with 1 same show ?thesis by (simp add: printint_buf_def)
qed

definition demo_number :: mem where
  "demo_number i = (if i = 100 then 45 else if i = 101 then 52 else if i = 102 then 50 else 0)"

theorem printint_atoi_roundtrip_witness:
  "atoi 100 demo_number = Some 0 \<and> atoi 101 demo_number = Some 42 \<and>
    printint_buf kdigits (- 42) 10 True = printint_buf udigits (- 42) 10 True"
proof -
  have "cstr demo_number 100 (map of_char (rev (printint_buf udigits (- 42) 10 True)))"
    by (simp add: printint_buf_def digit_loop.simps udigits_def demo_number_def)
  from printint_atoi_roundtrip [OF this, of kdigits True] show ?thesis by simp
qed

end
