(* ===== verification/Pipe.thy ===== *)
theory Pipe
  imports Printf
begin

text \<open>
  Pipes (kernel/pipe.c; \<open>pipealloc\<close> is in theory File). The pipes in use are objects at the
  addresses of the pages \<open>kalloc\<close> gave for them. Reading and writing copy byte by byte from and
  to the memory of the running process. A call that sleeps gives the lock back and goes on, when
  woken up, from the head of its loop: \<open>pipewrite\<close> with the number of bytes written so far.
\<close>

definition PIPESIZE :: nat where "PIPESIZE = 512"

record pipe =
  pi_data :: "byte list"
  pi_nread :: u32
  pi_nwrite :: u32
  pi_readopen :: bool
  pi_writeopen :: bool

record pipes = printer +
  pipe_at :: "u64 \<Rightarrow> pipe option"

abbreviation pi_lock :: "u64 \<Rightarrow> lockid" where "pi_lock pi \<equiv> L_pipe (unat pi)"
abbreviation ch_nread :: "u64 \<Rightarrow> chan" where "ch_nread pi \<equiv> ChPipeRead (unat pi)"
abbreviation ch_nwrite :: "u64 \<Rightarrow> chan" where "ch_nwrite pi \<equiv> ChPipeWrite (unat pi)"

definition get_pipe :: "u64 \<Rightarrow> 'z pipes_scheme \<Rightarrow> pipe res" where
  "get_pipe pi s = (case pipe_at s pi of None \<Rightarrow> Fault | Some p \<Rightarrow> Ret p)"

definition set_pipe :: "u64 \<Rightarrow> pipe \<Rightarrow> 'z pipes_scheme \<Rightarrow> 'z pipes_scheme" where
  "set_pipe pi p s = s\<lparr>pipe_at := (pipe_at s)(pi := Some p)\<rparr>"

lemma set_pipe_simps [simp]:
  "pipe_at (set_pipe pi p s) = (pipe_at s)(pi := Some p)" "held (set_pipe pi p s) = held s"
  "cur (set_pipe pi p s) = cur s" "pmem (set_pipe pi p s) = pmem s"
  by (simp_all add: set_pipe_def)

text \<open>The two ends of the buffer: line 95 of \<open>pipewrite\<close>, line 123 of \<open>piperead\<close>.\<close>

definition pipe_put :: "byte \<Rightarrow> pipe \<Rightarrow> pipe" where
  "pipe_put ch p = p\<lparr>pi_data := (pi_data p)[unat (pi_nwrite p) mod PIPESIZE := ch], pi_nwrite := pi_nwrite p + 1\<rparr>"

definition pipe_take :: "pipe \<Rightarrow> byte \<times> pipe" where
  "pipe_take p = (pi_data p ! (unat (pi_nread p) mod PIPESIZE), p\<lparr>pi_nread := pi_nread p + 1\<rparr>)"

definition pipeclose :: "u64 \<Rightarrow> bool \<Rightarrow> 'z pipes_scheme \<Rightarrow> 'z pipes_scheme res" where
  "pipeclose pi writable s =
     bind_res (lock_acquire (pi_lock pi) s) (\<lambda>s1.
     bind_res (get_pipe pi s1) (\<lambda>p.
     let p1 = (if writable then p\<lparr>pi_writeopen := False\<rparr> else p\<lparr>pi_readopen := False\<rparr>);
         s2 = wakeup_ev (if writable then ch_nread pi else ch_nwrite pi) (set_pipe pi p1 s1) in
     bind_res (lock_release (pi_lock pi) s2) (\<lambda>s3.
     if \<not> pi_readopen p1 \<and> \<not> pi_writeopen p1 then kfree pi (s3\<lparr>pipe_at := (pipe_at s3)(pi := None)\<rparr>)
     else Ret s3)))"

section \<open>Writing\<close>

definition pipewrite_end :: "u64 \<Rightarrow> nat \<Rightarrow> 'z pipes_scheme \<Rightarrow> ((int, nat) call \<times> 'z pipes_scheme) res" where
  "pipewrite_end pi i s = bind_res (lock_release (pi_lock pi) (wakeup_ev (ch_nread pi) s)) (\<lambda>s1. Ret (Done (int i), s1))"

fun pipewrite_loop :: "u64 \<Rightarrow> u64 \<Rightarrow> nat \<Rightarrow> nat \<Rightarrow> 'z pipes_scheme \<Rightarrow> ((int, nat) call \<times> 'z pipes_scheme) res" where
  "pipewrite_loop pi addr 0 i s = pipewrite_end pi i s"
| "pipewrite_loop pi addr (Suc k) i s =
     bind_res (get_pipe pi s) (\<lambda>p.
       if \<not> pi_readopen p \<or> pr_killed (cur s) then bind_res (lock_release (pi_lock pi) s) (\<lambda>s1. Ret (Done (-1), s1))
       else if pi_nwrite p = pi_nread p + of_nat PIPESIZE then
         bind_res (lock_release (pi_lock pi) (wakeup_ev (ch_nread pi) s)) (\<lambda>s1. Ret (Asleep (ch_nwrite pi) i, s1))
       else bind_res (copyin (pr_pagetable (cur s)) (addr + of_nat i) 1 s) (\<lambda>(r, bs).
         if r = -1 then pipewrite_end pi i s
         else pipewrite_loop pi addr k (Suc i) (set_pipe pi (pipe_put (hd bs) p) s)))"

definition pipewrite_from :: "u64 \<Rightarrow> u64 \<Rightarrow> int \<Rightarrow> nat \<Rightarrow> 'z pipes_scheme \<Rightarrow> ((int, nat) call \<times> 'z pipes_scheme) res" where
  "pipewrite_from pi addr n i s = bind_res (lock_acquire (pi_lock pi) s) (pipewrite_loop pi addr (nat n - i) i)"

definition pipewrite :: "u64 \<Rightarrow> u64 \<Rightarrow> int \<Rightarrow> 'z pipes_scheme \<Rightarrow> ((int, nat) call \<times> 'z pipes_scheme) res" where
  "pipewrite pi addr n s = pipewrite_from pi addr n 0 s"

section \<open>Reading\<close>

definition piperead_end :: "u64 \<Rightarrow> nat \<Rightarrow> 'z pipes_scheme \<Rightarrow> ((int, unit) call \<times> 'z pipes_scheme) res" where
  "piperead_end pi i s = bind_res (lock_release (pi_lock pi) (wakeup_ev (ch_nwrite pi) s)) (\<lambda>s1. Ret (Done (int i), s1))"

fun piperead_loop :: "u64 \<Rightarrow> u64 \<Rightarrow> nat \<Rightarrow> nat \<Rightarrow> 'z pipes_scheme \<Rightarrow> ((int, unit) call \<times> 'z pipes_scheme) res" where
  "piperead_loop pi addr 0 i s = piperead_end pi i s"
| "piperead_loop pi addr (Suc k) i s =
     bind_res (get_pipe pi s) (\<lambda>p.
       if pi_nread p = pi_nwrite p then piperead_end pi i s
       else let (ch, p1) = pipe_take p in
         bind_res (copyout (pr_pagetable (cur s)) (addr + of_nat i) [ch] (set_pipe pi p1 s)) (\<lambda>(r, s1).
         if r = -1 then piperead_end pi i s1 else piperead_loop pi addr k (Suc i) s1))"

definition piperead :: "u64 \<Rightarrow> u64 \<Rightarrow> int \<Rightarrow> 'z pipes_scheme \<Rightarrow> ((int, unit) call \<times> 'z pipes_scheme) res" where
  "piperead pi addr n s =
     bind_res (lock_acquire (pi_lock pi) s) (\<lambda>s1.
     bind_res (get_pipe pi s1) (\<lambda>p.
       if pi_nread p = pi_nwrite p \<and> pi_writeopen p then
         bind_res (lock_release (pi_lock pi) s1) (\<lambda>s2.
           Ret (if pr_killed (cur s1) then Done (-1) else Asleep (ch_nread pi) (), s2))
       else piperead_loop pi addr (nat n) 0 s1))"

section \<open>A pipe is a queue\<close>

definition pipe_items :: "pipe \<Rightarrow> byte list" where
  "pipe_items p = ring_list PIPESIZE (pi_data p) (pi_nread p) (pi_nwrite p)"

definition pipe_ok :: "pipe \<Rightarrow> bool" where
  "pipe_ok p \<longleftrightarrow> ring_ok PIPESIZE (pi_data p) (pi_nread p) (pi_nwrite p)"

definition pipe_room :: "pipe \<Rightarrow> bool" where
  "pipe_room p \<longleftrightarrow> pi_nwrite p \<noteq> pi_nread p + of_nat PIPESIZE"

lemma pipe_room_iff: "pipe_ok p \<Longrightarrow> pipe_room p \<longleftrightarrow> unat (pi_nwrite p - pi_nread p) < PIPESIZE"
proof -
  assume "pipe_ok p"
  then have "unat (pi_nwrite p - pi_nread p) \<le> 512" by (simp add: pipe_ok_def ring_ok_def PIPESIZE_def)
  moreover have "pi_nwrite p = pi_nread p + 512 \<longleftrightarrow> pi_nwrite p - pi_nread p = 512" by (simp add: diff_eq_eq add.commute)
  moreover have "pi_nwrite p - pi_nread p = 512 \<longleftrightarrow> unat (pi_nwrite p - pi_nread p) = 512"
    by (simp add: word_unat_eq_iff)
  ultimately show ?thesis by (auto simp: pipe_room_def PIPESIZE_def)
qed

lemma pipe_put_items: "pipe_ok p \<Longrightarrow> pipe_room p \<Longrightarrow> pipe_items (pipe_put c p) = pipe_items p @ [c]"
  using pipe_room_iff [of p] by (simp add: pipe_items_def pipe_put_def pipe_ok_def ring_list_push)

lemma pipe_put_ok: "pipe_ok p \<Longrightarrow> pipe_room p \<Longrightarrow> pipe_ok (pipe_put c p)"
  using pipe_room_iff [of p] by (simp add: pipe_put_def pipe_ok_def ring_ok_push)

lemma pipe_items_nil_iff: "pipe_items p = [] \<longleftrightarrow> pi_nread p = pi_nwrite p"
  unfolding pipe_items_def length_0_conv [symmetric] length_ring_list by (auto simp: unat_eq_zero)

lemma pipe_take_items:
  "pipe_ok p \<Longrightarrow> pipe_items p \<noteq> [] \<Longrightarrow> pipe_items p = fst (pipe_take p) # pipe_items (snd (pipe_take p)) \<and> pipe_ok (snd (pipe_take p))"
  using ring_list_pop [of PIPESIZE "pi_data p" "pi_nread p" "pi_nwrite p"]
  by (auto simp: pipe_items_nil_iff) (simp_all add: pipe_take_def pipe_items_def pipe_ok_def)

interpretation pipe_queue: fifo pipe_items pipe_put pipe_take pipe_ok pipe_room
  using pipe_take_items by unfold_locales (blast intro: pipe_put_items pipe_put_ok)+

lemma pipe_items_length: "pipe_ok p \<Longrightarrow> length (pipe_items p) \<le> PIPESIZE" "pipe_ok p \<Longrightarrow> \<not> pipe_room p \<Longrightarrow> length (pipe_items p) = PIPESIZE"
  using pipe_room_iff [of p] by (auto simp: pipe_items_def pipe_ok_def ring_ok_def)

section \<open>What writing does\<close>

definition write_post :: "u64 \<Rightarrow> u64 \<Rightarrow> nat \<Rightarrow> nat \<Rightarrow> pipe \<Rightarrow> 'z pipes_scheme \<Rightarrow> (int, nat) call \<times> 'z pipes_scheme \<Rightarrow> bool" where
  "write_post pi addr k i p s rs \<longleftrightarrow>
     (\<exists>ws p'. pipe_at (snd rs) = (pipe_at s)(pi := Some p') \<and> pipe_ok p' \<and> pipe_items p' = pipe_items p @ ws \<and>
       pi_readopen p' = pi_readopen p \<and> pi_writeopen p' = pi_writeopen p \<and>
       (\<forall>j. j < length ws \<longrightarrow> user_byte s (addr + of_nat (i + j)) = Some (ws ! j)) \<and>
       held (snd rs) = tl (held s) \<and> pmem (snd rs) = pmem s \<and> cur (snd rs) = cur s \<and>
       (case fst rs of
          Done v \<Rightarrow> v = -1 \<and> ws = [] \<and> (\<not> pi_readopen p \<or> pr_killed (cur s)) \<or>
            v = int (i + length ws) \<and> (length ws = k \<or> length ws < k \<and> user_byte s (addr + of_nat (i + length ws)) = None)
        | Asleep ch j \<Rightarrow> ch = ch_nwrite pi \<and> j = i + length ws \<and> length ws < k \<and> length (pipe_items p') = PIPESIZE))"

lemma write_post_end:
  assumes "pipe_at s pi = Some p" and "pipe_ok p" and "held s = pi_lock pi # h"
    and "k = 0 \<or> user_byte s (addr + of_nat i) = None"
  shows "returns (pipewrite_end pi i s) (write_post pi addr k i p s)"
proof -
  have "(pipe_at s)(pi := Some p) = pipe_at s" using assms(1) by (simp add: map_upd_triv)
  with assms show ?thesis
    unfolding pipewrite_end_def write_post_def
    by (simp add: wakeup_ev_def) (intro exI [of _ "[]"] exI [of _ p], auto)
qed

lemma write_post_Cons:
  assumes "write_post pi addr k (Suc i) (pipe_put c p) (set_pipe pi (pipe_put c p) s) rs"
    and "pipe_at s pi = Some p" and "pipe_ok p" and "pipe_room p" and "user_byte s (addr + of_nat i) = Some c"
    and "pi_readopen p" and "\<not> pr_killed (cur s)"
  shows "write_post pi addr (Suc k) i p s rs"
proof -
  let ?q = "pipe_put c p"
  have u: "user_byte (set_pipe pi ?q s) va = user_byte s va" for va by (rule user_byte_cong) (simp_all add: set_pipe_def)
  have q: "pipe_items ?q = pipe_items p @ [c]" "pi_readopen ?q = pi_readopen p" "pi_writeopen ?q = pi_writeopen p"
    using assms(3,4) by (simp_all add: pipe_put_items) (simp_all add: pipe_put_def)
  obtain ws p' where w: "pipe_at (snd rs) = (pipe_at s)(pi := Some p')" "pipe_ok p'" "pipe_items p' = pipe_items p @ [c] @ ws"
    "pi_readopen p' = pi_readopen p" "pi_writeopen p' = pi_writeopen p"
    "\<forall>j. j < length ws \<longrightarrow> user_byte s (addr + of_nat (Suc i + j)) = Some (ws ! j)"
    "held (snd rs) = tl (held s)" "pmem (snd rs) = pmem s" "cur (snd rs) = cur s"
    "case fst rs of
          Done v \<Rightarrow> v = -1 \<and> ws = [] \<and> (\<not> pi_readopen p \<or> pr_killed (cur s)) \<or>
            v = int (Suc i + length ws) \<and> (length ws = k \<or> length ws < k \<and> user_byte s (addr + of_nat (Suc i + length ws)) = None)
        | Asleep ch j \<Rightarrow> ch = ch_nwrite pi \<and> j = Suc i + length ws \<and> length ws < k \<and> length (pipe_items p') = PIPESIZE"
    using assms(1) unfolding write_post_def u q set_pipe_simps fun_upd_upd append_assoc
    by (elim exE conjE) (rule that, assumption+)
  have "\<forall>j. j < length (c # ws) \<longrightarrow> user_byte s (addr + of_nat (i + j)) = Some ((c # ws) ! j)"
  proof (intro allI impI)
    fix j assume "j < length (c # ws)"
    with w(6) assms(5) show "user_byte s (addr + of_nat (i + j)) = Some ((c # ws) ! j)" by (cases j) simp_all
  qed
  with w assms(6,7) show ?thesis
    unfolding write_post_def by (intro exI [of _ "c # ws"] exI [of _ p']) (auto split: call.splits)
qed

lemma pipewrite_loop_spec:
  assumes "pipe_at s pi = Some p" and "pipe_ok p" and "held s = pi_lock pi # h"
  shows "returns (pipewrite_loop pi addr k i s) (write_post pi addr k i p s)"
  using assms
proof (induction k arbitrary: i p s)
  case 0
  then show ?case by (simp add: write_post_end)
next
  case (Suc k)
  have g: "get_pipe pi s = Ret p" and same: "(pipe_at s)(pi := Some p) = pipe_at s"
    using Suc.prems(1) by (simp_all add: get_pipe_def map_upd_triv)
  consider (dead) "\<not> pi_readopen p \<or> pr_killed (cur s)" | (full) "pi_readopen p" "\<not> pr_killed (cur s)" "\<not> pipe_room p"
    | (room) "pi_readopen p" "\<not> pr_killed (cur s)" "pipe_room p" by blast
  then show ?case
  proof cases
    case dead
    with g Suc.prems show ?thesis
      by (simp add: write_post_def) (intro exI [of _ p], simp add: same)
  next
    case full
    with g Suc.prems pipe_items_length(2) [OF Suc.prems(2)] show ?thesis
      by (simp add: pipe_room_def write_post_def wakeup_ev_def) (intro exI [of _ "[]"] exI [of _ p], simp add: same)
  next
    case room
    let ?u = "user_byte s (addr + of_nat i)"
    have c: "copyin (pr_pagetable (cur s)) (addr + of_nat i) (Suc 0) s = (case ?u of None \<Rightarrow> Ret (-1, []) | Some c \<Rightarrow> Ret (0, [c]))"
      by (simp add: copyin_one user_byte_def Let_def)
    show ?thesis
    proof (cases ?u)
      case None
      with g room c write_post_end [OF Suc.prems, of "Suc k" addr i] show ?thesis by (simp add: pipe_room_def)
    next
      case (Some x)
      let ?s = "set_pipe pi (pipe_put x p) s"
      have "returns (pipewrite_loop pi addr k (Suc i) ?s) (write_post pi addr k (Suc i) (pipe_put x p) ?s)"
        using room Suc.prems by (intro Suc.IH) (simp_all add: set_pipe_def pipe_put_ok)
      then have "returns (pipewrite_loop pi addr k (Suc i) ?s) (write_post pi addr (Suc k) i p s)"
        by (rule returns_mono) (use write_post_Cons Suc.prems room Some in auto)
      with Some g room c show ?thesis by (simp add: pipe_room_def)
    qed
  qed
qed

section \<open>What reading does\<close>

text \<open>
  \<open>out\<close> is what is taken from the queue. All of it is stored in the reader's memory, except that
  a byte that cannot be stored is taken all the same and ends the read.
\<close>

definition read_bytes_post :: "u64 \<Rightarrow> u64 \<Rightarrow> nat \<Rightarrow> nat \<Rightarrow> pipe \<Rightarrow> 'z pipes_scheme \<Rightarrow> (int, unit) call \<times> 'z pipes_scheme \<Rightarrow> bool" where
  "read_bytes_post pi addr k i p s rs \<longleftrightarrow>
     (\<exists>out p'. pipe_at (snd rs) = (pipe_at s)(pi := Some p') \<and> pipe_ok p' \<and> pipe_items p = out @ pipe_items p' \<and>
       pi_readopen p' = pi_readopen p \<and> pi_writeopen p' = pi_writeopen p \<and>
       length out \<le> k \<and> held (snd rs) = tl (held s) \<and> cur (snd rs) = cur s \<and>
       (fst rs = Done (int (i + length out)) \<and> (length out = k \<or> pipe_items p' = []) \<and>
          pmem (snd rs) = deliver (pr_pagetable (cur s)) (addr + of_nat i) out (pmem s)
        \<or> out \<noteq> [] \<and> fst rs = Done (int (i + length out) - 1) \<and>
          pmem (snd rs) = deliver (pr_pagetable (cur s)) (addr + of_nat i) (butlast out) (pmem s) \<and>
          user_pa (pmem (snd rs)) (pr_pagetable (cur s)) (PGROUNDDOWN (addr + of_nat (i + length out - 1))) = 0))"

lemma read_post_end:
  assumes "pipe_at s pi = Some p" and "pipe_ok p" and "held s = pi_lock pi # h" and "k = 0 \<or> pipe_items p = []"
  shows "returns (piperead_end pi i s) (read_bytes_post pi addr k i p s)"
proof -
  have "(pipe_at s)(pi := Some p) = pipe_at s" using assms(1) by (simp add: map_upd_triv)
  with assms show ?thesis
    unfolding piperead_end_def read_bytes_post_def
    by (simp add: wakeup_ev_def) (intro exI [of _ "[]"] exI [of _ p], auto)
qed

lemma read_bytes_post_Cons:
  assumes "read_bytes_post pi addr k (Suc i) q s1 rs" and "pipe_items p = c # pipe_items q"
    and "pi_readopen q = pi_readopen p" "pi_writeopen q = pi_writeopen p"
    and "s1 = set_pipe pi q s\<lparr>pmem := (pmem s)(user_addr (pmem s) (pr_pagetable (cur s)) (addr + of_nat i) := c)\<rparr>"
  shows "read_bytes_post pi addr (Suc k) i p s rs"
proof -
  let ?pt = "pr_pagetable (cur s)"
  have f: "pipe_at s1 = (pipe_at s)(pi := Some q)" "held s1 = held s" "cur s1 = cur s"
    "pmem s1 = (pmem s)(user_addr (pmem s) ?pt (addr + of_nat i) := c)"
    by (simp_all add: assms(5) set_pipe_def)
  have d: "deliver ?pt (addr + of_nat (Suc i)) cs (pmem s1) = deliver ?pt (addr + of_nat i) (c # cs) (pmem s)" for cs
    by (simp add: f(4) algebra_simps)
  obtain out p' where o: "pipe_at (snd rs) = (pipe_at s)(pi := Some p')" "pipe_ok p'" "pipe_items q = out @ pipe_items p'"
    "pi_readopen p' = pi_readopen p" "pi_writeopen p' = pi_writeopen p"
    "length out \<le> k" "held (snd rs) = tl (held s)" "cur (snd rs) = cur s"
    "fst rs = Done (int (Suc i + length out)) \<and> (length out = k \<or> pipe_items p' = []) \<and>
          pmem (snd rs) = deliver ?pt (addr + of_nat i) (c # out) (pmem s)
        \<or> out \<noteq> [] \<and> fst rs = Done (int (Suc i + length out) - 1) \<and>
          pmem (snd rs) = deliver ?pt (addr + of_nat i) (c # butlast out) (pmem s) \<and>
          user_pa (pmem (snd rs)) ?pt (PGROUNDDOWN (addr + of_nat (Suc i + length out - 1))) = 0"
    using assms(1) unfolding read_bytes_post_def f(1-3) d assms(3,4) fun_upd_upd by (elim exE conjE) (rule that, assumption+)
  from o(9) show ?thesis
  proof (elim disjE)
    assume "fst rs = Done (int (Suc i + length out)) \<and> (length out = k \<or> pipe_items p' = []) \<and>
          pmem (snd rs) = deliver ?pt (addr + of_nat i) (c # out) (pmem s)"
    with o(1-8) assms(2) show ?thesis
      unfolding read_bytes_post_def by (intro exI [of _ "c # out"] exI [of _ p'] conjI) auto
  next
    assume e: "out \<noteq> [] \<and> fst rs = Done (int (Suc i + length out) - 1) \<and>
          pmem (snd rs) = deliver ?pt (addr + of_nat i) (c # butlast out) (pmem s) \<and>
          user_pa (pmem (snd rs)) ?pt (PGROUNDDOWN (addr + of_nat (Suc i + length out - 1))) = 0"
    then have "butlast (c # out) = c # butlast out" "i + length (c # out) - 1 = Suc i + length out - 1" by simp_all
    with e o(1-8) assms(2) show ?thesis
      unfolding read_bytes_post_def by (intro exI [of _ "c # out"] exI [of _ p'] conjI disjI2) auto
  qed
qed

lemma piperead_loop_spec:
  assumes "pipe_at s pi = Some p" and "pipe_ok p" and "held s = pi_lock pi # h"
  shows "returns (piperead_loop pi addr k i s) (read_bytes_post pi addr k i p s)"
  using assms
proof (induction k arbitrary: i p s)
  case 0
  then show ?case by (simp add: read_post_end)
next
  case (Suc k)
  have g: "get_pipe pi s = Ret p" using Suc.prems(1) by (simp add: get_pipe_def)
  show ?case
  proof (cases "pi_nread p = pi_nwrite p")
    case True
    then have "pipe_items p = []" by (simp add: pipe_items_nil_iff)
    with True g read_post_end [OF Suc.prems, of "Suc k" i addr] show ?thesis by simp
  next
    case False
    let ?pt = "pr_pagetable (cur s)" and ?va = "addr + of_nat i"
    define c q where "c = fst (pipe_take p)" and "q = snd (pipe_take p)"
    have cq: "pipe_take p = (c, q)" by (simp add: c_def q_def)
    have ne: "pipe_items p \<noteq> []" using False by (simp add: pipe_items_nil_iff)
    from pipe_take_items [OF Suc.prems(2) ne] have q: "pipe_items p = c # pipe_items q" "pipe_ok q"
      by (simp_all add: c_def q_def)
    have qo: "pi_readopen q = pi_readopen p" "pi_writeopen q = pi_writeopen p" by (simp_all add: q_def pipe_take_def)
    show ?thesis
    proof (cases "user_pa (pmem s) ?pt (PGROUNDDOWN ?va) = 0")
      case True
      then have "copyout ?pt ?va [c] (set_pipe pi q s) = Ret (-1, set_pipe pi q s)" by (simp add: copyout_one)
      moreover have "returns (piperead_end pi i (set_pipe pi q s)) (read_bytes_post pi addr (Suc k) i p s)"
        using Suc.prems q qo True
        by (simp add: piperead_end_def read_bytes_post_def wakeup_ev_def) (intro exI [of _ "[c]"] exI [of _ q], simp)
      ultimately show ?thesis using False g by (simp add: cq)
    next
      case pa: False
      let ?s1 = "set_pipe pi q s\<lparr>pmem := (pmem s)(user_addr (pmem s) ?pt ?va := c)\<rparr>"
      have c: "copyout ?pt ?va [c] (set_pipe pi q s) = Ret (0, ?s1)" using pa by (simp add: copyout_one)
      have "returns (piperead_loop pi addr k (Suc i) ?s1) (read_bytes_post pi addr k (Suc i) q ?s1)"
        using Suc.prems q by (intro Suc.IH) simp_all
      then have "returns (piperead_loop pi addr k (Suc i) ?s1) (read_bytes_post pi addr (Suc k) i p s)"
        by (rule returns_mono) (erule read_bytes_post_Cons [OF _ q(1) qo refl])
      with False g c show ?thesis by (simp add: cq)
    qed
  qed
qed

text \<open>
  C32. Writing to a pipe appends to its queue. On a pipe whose lock is free, \<open>pipewrite\<close>, from the
  start or woken up with \<open>i\<close> bytes already written, returns or sleeps, releases the lock, and the
  queue has grown at its end by the bytes the process has at the addresses from \<open>addr + i\<close> on. It
  sleeps only when the queue holds 512 bytes, continuing with the count reached. It returns -1 only when
  the read end is closed or the process is killed, without having written; otherwise the count
  written, which is short only where the process may not read its own memory.
\<close>

theorem pipewrite_appends:
  assumes "pipe_at s pi = Some p" and "pipe_ok p" and "pi_lock pi \<notin> set (held s)" and "i \<le> nat n"
  shows "\<exists>r s' ws p'. pipewrite_from pi addr n i s = Ret (r, s') \<and> pipe_at s' = (pipe_at s)(pi := Some p') \<and>
    pipe_ok p' \<and> pipe_items p' = pipe_items p @ ws \<and> held s' = held s \<and> pmem s' = pmem s \<and>
    (\<forall>j. j < length ws \<longrightarrow> user_byte s (addr + of_nat (i + j)) = Some (ws ! j)) \<and>
    (case r of
       Done v \<Rightarrow> v = -1 \<and> ws = [] \<and> (\<not> pi_readopen p \<or> pr_killed (cur s)) \<or>
         v = int (i + length ws) \<and> (v = int (nat n) \<or> v < n \<and> user_byte s (addr + of_nat (i + length ws)) = None)
     | Asleep ch j \<Rightarrow> ch = ch_nwrite pi \<and> j = i + length ws \<and> j < nat n \<and> length (pipe_items p') = PIPESIZE)"
proof -
  define s1 where "s1 = s\<lparr>held := pi_lock pi # held s\<rparr>"
  have u: "user_byte s1 va = user_byte s va" for va by (rule user_byte_cong) (simp_all add: s1_def)
  have "returns (pipewrite_loop pi addr (nat n - i) i s1) (write_post pi addr (nat n - i) i p s1)"
    using assms by (intro pipewrite_loop_spec) (simp_all add: s1_def)
  moreover have "pipewrite_from pi addr n i s = pipewrite_loop pi addr (nat n - i) i s1"
    using assms(3) by (simp add: pipewrite_from_def s1_def)
  ultimately obtain r s' where r: "pipewrite_from pi addr n i s = Ret (r, s')" "write_post pi addr (nat n - i) i p s1 (r, s')"
    by (auto simp: returns_def)
  have f: "pipe_at s1 = pipe_at s" "tl (held s1) = held s" "pmem s1 = pmem s" "cur s1 = cur s"
    by (simp_all add: s1_def)
  from r(2) obtain ws p' where w: "pipe_at s' = (pipe_at s)(pi := Some p')" "pipe_ok p'" "pipe_items p' = pipe_items p @ ws"
    "\<forall>j. j < length ws \<longrightarrow> user_byte s (addr + of_nat (i + j)) = Some (ws ! j)" "held s' = held s" "pmem s' = pmem s"
    "case r of
          Done v \<Rightarrow> v = -1 \<and> ws = [] \<and> (\<not> pi_readopen p \<or> pr_killed (cur s)) \<or>
            v = int (i + length ws) \<and> (length ws = nat n - i \<or> length ws < nat n - i \<and> user_byte s (addr + of_nat (i + length ws)) = None)
        | Asleep ch j \<Rightarrow> ch = ch_nwrite pi \<and> j = i + length ws \<and> length ws < nat n - i \<and> length (pipe_items p') = PIPESIZE"
    unfolding write_post_def f u fst_conv snd_conv by (elim exE conjE) (rule that, assumption+)
  have "case r of
       Done v \<Rightarrow> v = -1 \<and> ws = [] \<and> (\<not> pi_readopen p \<or> pr_killed (cur s)) \<or>
         v = int (i + length ws) \<and> (v = int (nat n) \<or> v < n \<and> user_byte s (addr + of_nat (i + length ws)) = None)
     | Asleep ch j \<Rightarrow> ch = ch_nwrite pi \<and> j = i + length ws \<and> j < nat n \<and> length (pipe_items p') = PIPESIZE"
    using w(7) assms(4) by (auto split: call.splits)
  with r(1) w show ?thesis by blast
qed

text \<open>
  C33. Reading from a pipe takes from the front of its queue. On a pipe whose lock is free, \<open>piperead\<close>
  sleeps when the queue is empty, the write end is open and the process is not killed, and returns
  -1 when it is killed then; with the write end closed, an empty queue gives 0. Otherwise it returns
  after taking at most \<open>n\<close> bytes off the front, all that are there if fewer, stored in order at
  \<open>addr\<close>; a byte the process may not store is taken all the same, ends the read and is not counted.
\<close>

theorem piperead_takes:
  assumes "pipe_at s pi = Some p" and "pipe_ok p" and "pi_lock pi \<notin> set (held s)"
  shows "\<exists>r s' out p'. piperead pi addr n s = Ret (r, s') \<and> pipe_at s' = (pipe_at s)(pi := Some p') \<and>
    pipe_ok p' \<and> pipe_items p = out @ pipe_items p' \<and> length out \<le> nat n \<and> held s' = held s \<and>
    (if pipe_items p = [] \<and> pi_writeopen p then out = [] \<and> r = (if pr_killed (cur s) then Done (-1) else Asleep (ch_nread pi) ())
     else r = Done (int (length out)) \<and> (length out = nat n \<or> pipe_items p' = []) \<and>
            pmem s' = deliver (pr_pagetable (cur s)) addr out (pmem s)
        \<or> out \<noteq> [] \<and> r = Done (int (length out) - 1) \<and> pmem s' = deliver (pr_pagetable (cur s)) addr (butlast out) (pmem s))"
proof -
  define s1 where "s1 = s\<lparr>held := pi_lock pi # held s\<rparr>"
  have f: "pipe_at s1 = pipe_at s" "tl (held s1) = held s" "pmem s1 = pmem s" "cur s1 = cur s" "held s1 = pi_lock pi # held s"
    by (simp_all add: s1_def)
  have g: "get_pipe pi s1 = Ret p" using assms(1) by (simp add: get_pipe_def f(1))
  show ?thesis
  proof (cases "pipe_items p = [] \<and> pi_writeopen p")
    case True
    then have "piperead pi addr n s = Ret (if pr_killed (cur s) then Done (-1) else Asleep (ch_nread pi) (), s)"
      using assms(3) g by (simp add: piperead_def s1_def pipe_items_nil_iff)
    moreover have "pipe_at s = (pipe_at s)(pi := Some p)" using assms(1) by (simp add: map_upd_triv)
    ultimately show ?thesis using True assms(2) by (intro exI [of _ p] exI [of _ "[]"] exI conjI) simp_all
  next
    case False
    have "piperead pi addr n s = piperead_loop pi addr (nat n) 0 s1"
      using assms(3) g False by (auto simp: piperead_def s1_def pipe_items_nil_iff)
    moreover have "returns (piperead_loop pi addr (nat n) 0 s1) (read_bytes_post pi addr (nat n) 0 p s1)"
      using assms by (intro piperead_loop_spec) (simp_all add: s1_def)
    ultimately obtain r s' where r: "piperead pi addr n s = Ret (r, s')" "read_bytes_post pi addr (nat n) 0 p s1 (r, s')"
      by (auto simp: returns_def)
    from r(2) obtain out p' where "pipe_at s' = (pipe_at s)(pi := Some p')" "pipe_ok p'" "pipe_items p = out @ pipe_items p'"
      "length out \<le> nat n" "held s' = held s"
      "r = Done (int (length out)) \<and> (length out = nat n \<or> pipe_items p' = []) \<and>
            pmem s' = deliver (pr_pagetable (cur s)) addr out (pmem s)
        \<or> out \<noteq> [] \<and> r = Done (int (length out) - 1) \<and> pmem s' = deliver (pr_pagetable (cur s)) addr (butlast out) (pmem s)"
      unfolding read_bytes_post_def f fst_conv snd_conv by auto
    with r(1) show ?thesis unfolding if_not_P [OF False] by blast
  qed
qed

definition demo_pipe :: pipe where
  "demo_pipe = \<lparr>pi_data = replicate 512 7, pi_nread = 0xfffffffe, pi_nwrite = 1, pi_readopen = True, pi_writeopen = True\<rparr>"

definition demo_pipes :: pipes where
  "demo_pipes = printer.extend (cons.extend demo_cons \<lparr>pr_locking = True\<rparr>) \<lparr>pipe_at = [0x80022000 \<mapsto> demo_pipe]\<rparr>"

lemma demo_pipes_ok: "pipe_ok demo_pipe" "pipe_at demo_pipes 0x80022000 = Some demo_pipe" "held demo_pipes = []"
  by (simp_all add: demo_pipe_def pipe_ok_def ring_ok_def PIPESIZE_def demo_pipes_def printer.defs cons.defs
      demo_cons_def demo_uart_def uart.defs)

theorem pipewrite_appends_witness:
  "\<exists>r s' ws p'. pipewrite_from 0x80022000 0x1000 5 0 demo_pipes = Ret (r, s') \<and>
    pipe_items p' = pipe_items demo_pipe @ ws \<and> pipe_at s' 0x80022000 = Some p' \<and> held s' = []"
  using pipewrite_appends [OF demo_pipes_ok(2,1), of 0 5 "0x1000"] unfolding demo_pipes_ok(3) by fastforce

theorem piperead_takes_witness:
  "\<exists>r s' out p'. piperead 0x80022000 0x1000 2 demo_pipes = Ret (r, s') \<and>
    pipe_items demo_pipe = out @ pipe_items p' \<and> pipe_at s' 0x80022000 = Some p' \<and> held s' = []"
  using piperead_takes [OF demo_pipes_ok(2,1), of "0x1000" 2] unfolding demo_pipes_ok(3) by fastforce

end
