(* ===== verification/Sleeplock.thy ===== *)
theory Sleeplock
  imports Pipe
begin

text \<open>
  Sleep locks (kernel/sleeplock.c). A sleep lock is a field of a buffer or an inode: the
  operations take the spin lock that protects it and the two functions that read and write it.
  \<open>acquiresleep\<close> of a lock that is taken sleeps before it has changed anything: \<open>Block\<close>.
\<close>

record sleeplock =
  sl_locked :: bool
  sl_pid :: int

definition initsleeplock :: sleeplock where
  "initsleeplock = \<lparr>sl_locked = False, sl_pid = 0\<rparr>"

definition acquiresleep :: "lockid \<Rightarrow> ('z kctx_scheme \<Rightarrow> sleeplock) \<Rightarrow> (sleeplock \<Rightarrow> 'z kctx_scheme \<Rightarrow> 'z kctx_scheme) \<Rightarrow> 'z kctx_scheme \<Rightarrow> 'z kctx_scheme res" where
  "acquiresleep l get put s =
     bind_res (lock_acquire l s) (\<lambda>s1.
       if sl_locked (get s1) then Block (ChSleep l)
       else lock_release l (put \<lparr>sl_locked = True, sl_pid = pr_pid (cur s1)\<rparr> s1))"

definition releasesleep :: "lockid \<Rightarrow> ('z kctx_scheme \<Rightarrow> sleeplock) \<Rightarrow> (sleeplock \<Rightarrow> 'z kctx_scheme \<Rightarrow> 'z kctx_scheme) \<Rightarrow> 'z kctx_scheme \<Rightarrow> 'z kctx_scheme res" where
  "releasesleep l get put s =
     bind_res (lock_acquire l s) (\<lambda>s1.
       lock_release l (wakeup_ev (ChSleep l) (put \<lparr>sl_locked = False, sl_pid = 0\<rparr> s1)))"

definition holdingsleep :: "lockid \<Rightarrow> ('z kctx_scheme \<Rightarrow> sleeplock) \<Rightarrow> 'z kctx_scheme \<Rightarrow> (bool \<times> 'z kctx_scheme) res" where
  "holdingsleep l get s =
     bind_res (lock_acquire l s) (\<lambda>s1.
       let r = sl_locked (get s1) \<and> sl_pid (get s1) = pr_pid (cur s1) in
       bind_res (lock_release l s1) (\<lambda>s2. Ret (r, s2)))"

text \<open>A field that the lock lists and wakeups are no part of.\<close>

definition sleep_field :: "('z kctx_scheme \<Rightarrow> sleeplock) \<Rightarrow> (sleeplock \<Rightarrow> 'z kctx_scheme \<Rightarrow> 'z kctx_scheme) \<Rightarrow> bool" where
  "sleep_field get put \<longleftrightarrow>
     (\<forall>s h. get (s\<lparr>held := h\<rparr>) = get s) \<and> (\<forall>s v. held (put v s) = held s) \<and>
     (\<forall>s v h. (put v (s\<lparr>held := h\<rparr>)) = (put v s)\<lparr>held := h\<rparr>)"

lemma acquiresleep_free:
  assumes "sleep_field get put" and "l \<notin> set (held s)" and "\<not> sl_locked (get s)"
  shows "acquiresleep l get put s = Ret (put \<lparr>sl_locked = True, sl_pid = pr_pid (cur s)\<rparr> s)"
proof -
  let ?v = "\<lparr>sl_locked = True, sl_pid = pr_pid (cur s)\<rparr>"
  have "held (put ?v s) = held s" "put ?v (s\<lparr>held := l # held s\<rparr>) = (put ?v s)\<lparr>held := l # held s\<rparr>"
    using assms(1) by (simp_all add: sleep_field_def)
  moreover have "(put ?v s)\<lparr>held := held s\<rparr> = put ?v s" using calculation(1) by (metis kctx.surjective kctx.update_convs(1))
  ultimately show ?thesis using assms by (simp add: acquiresleep_def sleep_field_def)
qed

lemma acquiresleep_taken:
  "sleep_field get put \<Longrightarrow> l \<notin> set (held s) \<Longrightarrow> sl_locked (get s) \<Longrightarrow> acquiresleep l get put s = Block (ChSleep l)"
  by (simp add: acquiresleep_def sleep_field_def)

lemma releasesleep_free:
  assumes "sleep_field get put" and "l \<notin> set (held s)"
  shows "releasesleep l get put s = Ret (wakeup_ev (ChSleep l) (put \<lparr>sl_locked = False, sl_pid = 0\<rparr> s))"
proof -
  let ?v = "\<lparr>sl_locked = False, sl_pid = 0\<rparr>"
  have p: "held (put ?v s) = held s" "put ?v (s\<lparr>held := l # held s\<rparr>) = (put ?v s)\<lparr>held := l # held s\<rparr>"
    using assms(1) by (simp_all add: sleep_field_def)
  have "(put ?v s)\<lparr>held := held s\<rparr> = put ?v s" using p(1) by (metis kctx.surjective kctx.update_convs(1))
  then have "(put ?v s)\<lparr>wakes := wakes (put ?v s) @ [ChSleep l], held := held s\<rparr> = (put ?v s)\<lparr>wakes := wakes (put ?v s) @ [ChSleep l]\<rparr>"
    by (metis kctx.surjective kctx.update_convs(1,2) kctx.select_convs(1))
  with p assms show ?thesis by (simp add: releasesleep_def wakeup_ev_def)
qed

lemma holdingsleep_free:
  "sleep_field get put \<Longrightarrow> l \<notin> set (held s) \<Longrightarrow>
     holdingsleep l get s = Ret (sl_locked (get s) \<and> sl_pid (get s) = pr_pid (cur s), s)"
  by (simp add: holdingsleep_def sleep_field_def)

end
