(* ===== verification/Log.thy ===== *)
theory Log
  imports Bio
begin

text \<open>
  The write-ahead log (kernel/log.c). Each file-system call runs between \<open>begin_op\<close> and
  \<open>end_op\<close>; blocks changed in between are pinned in the cache by \<open>log_write\<close>, and the last
  \<open>end_op\<close> commits them: the blocks go to the log area, the header with their number is written,
  the blocks are copied to their places, and the header is cleared. \<open>begin_op\<close> that has to wait
  ends with \<open>Block\<close>, before it has changed anything.

  Integers of the in-memory header are as in the code; a header read from disk that does not fit
  the array is \<open>Fault\<close>.
\<close>

section \<open>Words in a block\<close>

definition get32 :: "nat \<Rightarrow> byte list \<Rightarrow> u32" where
  "get32 off d = le_word (take 4 (drop off d))"

definition put32 :: "nat \<Rightarrow> u32 \<Rightarrow> byte list \<Rightarrow> byte list" where
  "put32 off v d = take off d @ le_bytes 4 v @ drop (off + 4) d"

section \<open>State and operations\<close>

record log = blocks +
  log_start :: u32
  log_size :: int
  log_outstanding :: int
  log_committing :: bool
  log_dev :: u32
  lh_n :: int
  lh_block :: "u32 list"

definition set_data :: "nat \<Rightarrow> byte list \<Rightarrow> 'z blocks_scheme \<Rightarrow> 'z blocks_scheme" where
  "set_data b d s = upd_buf b (\<lambda>x. x\<lparr>b_data := d\<rparr>) s"

fun install_loop :: "bool \<Rightarrow> nat \<Rightarrow> nat \<Rightarrow> 'z log_scheme \<Rightarrow> 'z log_scheme res" where
  "install_loop recovering 0 tail s = Ret s"
| "install_loop recovering (Suc k) tail s =
     bind_res (bread (log_dev s) (log_start s + of_nat tail + 1) s) (\<lambda>(lbuf, s1).
     bind_res (bread (log_dev s1) (lh_block s1 ! tail) s1) (\<lambda>(dbuf, s2).
     bind_res (bwrite dbuf (set_data dbuf (b_data (bufs s2 lbuf)) s2)) (\<lambda>s3.
     bind_res (if recovering then Ret s3 else bunpin dbuf s3) (\<lambda>s4.
     bind_res (brelse lbuf s4) (\<lambda>s5.
     bind_res (brelse dbuf s5) (install_loop recovering k (Suc tail)))))))"

definition install_trans :: "bool \<Rightarrow> 'z log_scheme \<Rightarrow> 'z log_scheme res" where
  "install_trans recovering s = install_loop recovering (nat (lh_n s)) 0 s"

fun read_blocks :: "nat \<Rightarrow> byte list \<Rightarrow> u32 list" where
  "read_blocks 0 d = []"
| "read_blocks (Suc k) d = read_blocks k d @ [get32 (4 + 4 * k) d]"

definition read_head :: "'z log_scheme \<Rightarrow> 'z log_scheme res" where
  "read_head s =
     bind_res (bread (log_dev s) (log_start s) s) (\<lambda>(buf, s1).
     let d = b_data (bufs s1 buf); n = sint (get32 0 d) in
     if n > int LOGSIZE then Fault
     else brelse buf (s1\<lparr>lh_n := n, lh_block := read_blocks (nat n) d @ drop (nat n) (lh_block s1)\<rparr>))"

fun write_blocks :: "nat \<Rightarrow> u32 list \<Rightarrow> byte list \<Rightarrow> byte list" where
  "write_blocks 0 bs d = d"
| "write_blocks (Suc k) bs d = put32 (4 + 4 * k) (bs ! k) (write_blocks k bs d)"

definition write_head :: "'z log_scheme \<Rightarrow> 'z log_scheme res" where
  "write_head s =
     bind_res (bread (log_dev s) (log_start s) s) (\<lambda>(buf, s1).
     let d = write_blocks (nat (lh_n s1)) (lh_block s1) (put32 0 (of_int (lh_n s1)) (b_data (bufs s1 buf))) in
     bind_res (bwrite buf (set_data buf d s1)) (brelse buf))"

definition recover_from_log :: "'z log_scheme \<Rightarrow> 'z log_scheme res" where
  "recover_from_log s =
     bind_res (read_head s) (\<lambda>s1.
     bind_res (install_trans True s1) (\<lambda>s2.
     write_head (s2\<lparr>lh_n := 0\<rparr>)))"

definition initlog :: "u32 \<Rightarrow> u32 \<Rightarrow> u32 \<Rightarrow> 'z log_scheme \<Rightarrow> 'z log_scheme res" where
  "initlog dev sb_logstart sb_nlog s =
     (if 4 + 4 * LOGSIZE \<ge> BSIZE then Panic ''initlog: too big logheader''
      else recover_from_log (s\<lparr>log_start := sb_logstart, log_size := sint sb_nlog, log_dev := dev\<rparr>))"

definition begin_op :: "'z log_scheme \<Rightarrow> 'z log_scheme res" where
  "begin_op s =
     bind_res (lock_acquire L_log s) (\<lambda>s1.
       if log_committing s1 then Block ChLog
       else if lh_n s1 + (log_outstanding s1 + 1) * int MAXOPBLOCKS > int LOGSIZE then Block ChLog
       else lock_release L_log (s1\<lparr>log_outstanding := log_outstanding s1 + 1\<rparr>))"

fun write_log_loop :: "nat \<Rightarrow> nat \<Rightarrow> 'z log_scheme \<Rightarrow> 'z log_scheme res" where
  "write_log_loop 0 tail s = Ret s"
| "write_log_loop (Suc k) tail s =
     bind_res (bread (log_dev s) (log_start s + of_nat tail + 1) s) (\<lambda>(to, s1).
     bind_res (bread (log_dev s1) (lh_block s1 ! tail) s1) (\<lambda>(frm, s2).
     bind_res (bwrite to (set_data to (b_data (bufs s2 frm)) s2)) (\<lambda>s3.
     bind_res (brelse frm s3) (\<lambda>s4.
     bind_res (brelse to s4) (write_log_loop k (Suc tail))))))"

definition write_log :: "'z log_scheme \<Rightarrow> 'z log_scheme res" where
  "write_log s = write_log_loop (nat (lh_n s)) 0 s"

definition commit :: "'z log_scheme \<Rightarrow> 'z log_scheme res" where
  "commit s =
     (if lh_n s > 0 then
        bind_res (write_log s) (\<lambda>s1.
        bind_res (write_head s1) (\<lambda>s2.
        bind_res (install_trans False s2) (\<lambda>s3.
        write_head (s3\<lparr>lh_n := 0\<rparr>))))
      else Ret s)"

definition end_op :: "'z log_scheme \<Rightarrow> 'z log_scheme res" where
  "end_op s =
     bind_res (lock_acquire L_log s) (\<lambda>s1.
     let s2 = s1\<lparr>log_outstanding := log_outstanding s1 - 1\<rparr> in
     if log_committing s2 then Panic ''log.committing''
     else let do_commit = (log_outstanding s2 = 0);
              s3 = (if do_commit then s2\<lparr>log_committing := True\<rparr> else wakeup_ev ChLog s2) in
     bind_res (lock_release L_log s3) (\<lambda>s4.
       if do_commit then
         bind_res (commit s4) (\<lambda>s5.
         bind_res (lock_acquire L_log s5) (\<lambda>s6.
         lock_release L_log (wakeup_ev ChLog (s6\<lparr>log_committing := False\<rparr>))))
       else Ret s4))"

text \<open>The search of \<open>log_write\<close> for the block in the header: its index, or \<open>lh.n\<close>.\<close>

definition log_index :: "u32 \<Rightarrow> 'z log_scheme \<Rightarrow> nat" where
  "log_index blockno s = length (takeWhile (\<lambda>x. x \<noteq> blockno) (take (nat (lh_n s)) (lh_block s)))"

definition log_write :: "nat \<Rightarrow> 'z log_scheme \<Rightarrow> 'z log_scheme res" where
  "log_write b s =
     bind_res (lock_acquire L_log s) (\<lambda>s1.
       if lh_n s1 \<ge> int LOGSIZE \<or> lh_n s1 \<ge> log_size s1 - 1 then Panic ''too big a transaction''
       else if log_outstanding s1 < 1 then Panic ''log_write outside of trans''
       else let blockno = b_blockno (bufs s1 b); i = log_index blockno s1;
                s2 = s1\<lparr>lh_block := (lh_block s1)[i := blockno]\<rparr> in
         bind_res (if int i = lh_n s2 then bind_res (bpin b s2) (\<lambda>s3. Ret (s3\<lparr>lh_n := lh_n s3 + 1\<rparr>)) else Ret s2)
           (lock_release L_log))"

end
