(* ===== verification/Fs.thy ===== *)
theory Fs
  imports Log
begin

unbundle bit_operations_syntax

text \<open>
  The file system (kernel/fs.c, kernel/fs.h): block allocation, inodes, file contents, directories
  and path names, on top of the log.

  In-memory inodes are \<open>inodes s i\<close> for \<open>i < NINODE\<close>. On-disk structures are bytes of blocks, at
  the offsets of the C layout. Reading and writing inode contents is written once, for any way to
  take the bytes away or to get them: \<open>either_copyout\<close> and \<open>either_copyin\<close>, or a local variable
  of the kernel such as the directory entries of \<open>dirlookup\<close>, whose bytes are a list. Offsets and
  counts in those loops are naturals; the tests at their start exclude 32-bit overflow. Names are
  lists of bytes without the terminating zero.
\<close>

section \<open>On-disk format\<close>

definition ROOTINO :: u32 where "ROOTINO = 1"
definition FSMAGIC :: u32 where "FSMAGIC = 0x10203040"
definition NDIRECT :: nat where "NDIRECT = 12"
definition NINDIRECT :: nat where "NINDIRECT = BSIZE div 4"
definition MAXFILE :: nat where "MAXFILE = NDIRECT + NINDIRECT"
definition IPB :: nat where "IPB = BSIZE div 64"
definition BPB :: nat where "BPB = BSIZE * 8"
definition DIRSIZ :: nat where "DIRSIZ = 14"
definition T_DIR :: u16 where "T_DIR = 1"
definition T_FILE :: u16 where "T_FILE = 2"
definition T_DEVICE :: u16 where "T_DEVICE = 3"

record superblock =
  sb_magic :: u32
  sb_size :: u32
  sb_nblocks :: u32
  sb_ninodes :: u32
  sb_nlog :: u32
  sb_logstart :: u32
  sb_inodestart :: u32
  sb_bmapstart :: u32

record inode =
  i_dev :: u32
  i_inum :: u32
  i_ref :: int
  i_lock :: sleeplock
  i_valid :: bool
  i_type :: u16
  i_major :: u16
  i_minor :: u16
  i_nlink :: u16
  i_size :: u32
  i_addrs :: "u32 list"

record fs = log +
  sb :: superblock
  inodes :: "nat \<Rightarrow> inode"

definition IBLOCK :: "u32 \<Rightarrow> 'z fs_scheme \<Rightarrow> u32" where
  "IBLOCK i s = i div of_nat IPB + sb_inodestart (sb s)"

definition BBLOCK :: "u32 \<Rightarrow> 'z fs_scheme \<Rightarrow> u32" where
  "BBLOCK b s = b div of_nat BPB + sb_bmapstart (sb s)"

definition get16 :: "nat \<Rightarrow> byte list \<Rightarrow> u16" where
  "get16 off d = le_word (take 2 (drop off d))"

definition put16 :: "nat \<Rightarrow> u16 \<Rightarrow> byte list \<Rightarrow> byte list" where
  "put16 off v d = take off d @ le_bytes 2 v @ drop (off + 2) d"

fun get_addrs :: "nat \<Rightarrow> nat \<Rightarrow> byte list \<Rightarrow> u32 list" where
  "get_addrs off 0 d = []"
| "get_addrs off (Suc k) d = get_addrs off k d @ [get32 (off + 4 * k) d]"

fun put_addrs :: "nat \<Rightarrow> nat \<Rightarrow> u32 list \<Rightarrow> byte list \<Rightarrow> byte list" where
  "put_addrs off 0 as d = d"
| "put_addrs off (Suc k) as d = put32 (off + 4 * k) (as ! k) (put_addrs off k as d)"

text \<open>The inode at byte offset \<open>off\<close> of a block: into, and out of, the in-memory copy.\<close>

definition get_dinode :: "nat \<Rightarrow> byte list \<Rightarrow> inode \<Rightarrow> inode" where
  "get_dinode off d x =
     x\<lparr>i_type := get16 off d, i_major := get16 (off + 2) d, i_minor := get16 (off + 4) d, i_nlink := get16 (off + 6) d,
       i_size := get32 (off + 8) d, i_addrs := get_addrs (off + 12) (NDIRECT + 1) d\<rparr>"

definition put_dinode :: "nat \<Rightarrow> inode \<Rightarrow> byte list \<Rightarrow> byte list" where
  "put_dinode off x d =
     put_addrs (off + 12) (NDIRECT + 1) (i_addrs x)
      (put32 (off + 8) (i_size x)
      (put16 (off + 6) (i_nlink x) (put16 (off + 4) (i_minor x) (put16 (off + 2) (i_major x) (put16 off (i_type x) d)))))"

definition dinode_off :: "u32 \<Rightarrow> nat" where
  "dinode_off inum = unat inum mod IPB * 64"

section \<open>Blocks\<close>

definition readsb :: "u32 \<Rightarrow> 'z fs_scheme \<Rightarrow> 'z fs_scheme res" where
  "readsb dev s =
     bind_res (bread dev 1 s) (\<lambda>(bp, s1).
     let d = b_data (bufs s1 bp) in
     brelse bp (s1\<lparr>sb := \<lparr>sb_magic = get32 0 d, sb_size = get32 4 d, sb_nblocks = get32 8 d, sb_ninodes = get32 12 d,
       sb_nlog = get32 16 d, sb_logstart = get32 20 d, sb_inodestart = get32 24 d, sb_bmapstart = get32 28 d\<rparr>\<rparr>))"

definition fsinit :: "u32 \<Rightarrow> 'z fs_scheme \<Rightarrow> 'z fs_scheme res" where
  "fsinit dev s =
     bind_res (readsb dev s) (\<lambda>s1.
       if sb_magic (sb s1) \<noteq> FSMAGIC then Panic ''invalid file system''
       else initlog dev (sb_logstart (sb s1)) (sb_nlog (sb s1)) s1)"

definition bzero :: "u32 \<Rightarrow> u32 \<Rightarrow> 'z log_scheme \<Rightarrow> 'z log_scheme res" where
  "bzero dev bno s =
     bind_res (bread dev bno s) (\<lambda>(bp, s1).
     bind_res (log_write bp (set_data bp (replicate BSIZE 0) s1)) (brelse bp))"

definition bit_mask :: "nat \<Rightarrow> byte" where
  "bit_mask bi = push_bit (bi mod 8) 1"

definition bit_used :: "nat \<Rightarrow> byte list \<Rightarrow> bool" where
  "bit_used bi d \<longleftrightarrow> d ! (bi div 8) AND bit_mask bi \<noteq> 0"

fun balloc_loop :: "nat \<Rightarrow> u32 \<Rightarrow> nat \<Rightarrow> 'z fs_scheme \<Rightarrow> (u32 \<times> 'z fs_scheme) res" where
  "balloc_loop 0 dev b s = NoReturn"
| "balloc_loop (Suc k) dev b s =
     (if \<not> b < unat (sb_size (sb s)) then Panic ''balloc: out of blocks''
      else bind_res (bread dev (BBLOCK (of_nat b) s) s) (\<lambda>(bp, s1).
        let d = b_data (bufs s1 bp) in
        case find (\<lambda>bi. b + bi < unat (sb_size (sb s1)) \<and> \<not> bit_used bi d) [0..<BPB] of
          Some bi \<Rightarrow>
            bind_res (log_write bp (set_data bp (d[bi div 8 := d ! (bi div 8) OR bit_mask bi]) s1)) (\<lambda>s2.
            bind_res (brelse bp s2) (\<lambda>s3.
            bind_res (bzero dev (of_nat (b + bi)) s3) (\<lambda>s4. Ret (of_nat (b + bi), s4))))
        | None \<Rightarrow> bind_res (brelse bp s1) (balloc_loop k dev (b + BPB))))"

definition balloc :: "u32 \<Rightarrow> 'z fs_scheme \<Rightarrow> (u32 \<times> 'z fs_scheme) res" where
  "balloc dev s = balloc_loop (unat (sb_size (sb s)) div BPB + 2) dev 0 s"

definition bfree :: "u32 \<Rightarrow> u32 \<Rightarrow> 'z fs_scheme \<Rightarrow> 'z fs_scheme res" where
  "bfree dev b s =
     bind_res (bread dev (BBLOCK b s) s) (\<lambda>(bp, s1).
     let d = b_data (bufs s1 bp); bi = unat b mod BPB in
     if \<not> bit_used bi d then Panic ''freeing free block''
     else bind_res (log_write bp (set_data bp (d[bi div 8 := d ! (bi div 8) AND NOT (bit_mask bi)]) s1)) (brelse bp))"

section \<open>Inodes\<close>

definition upd_inode :: "nat \<Rightarrow> (inode \<Rightarrow> inode) \<Rightarrow> 'z fs_scheme \<Rightarrow> 'z fs_scheme" where
  "upd_inode ip f s = s\<lparr>inodes := (inodes s)(ip := f (inodes s ip))\<rparr>"

definition get_ilock :: "nat \<Rightarrow> 'z fs_scheme \<Rightarrow> sleeplock" where
  "get_ilock ip s = i_lock (inodes s ip)"

definition put_ilock :: "nat \<Rightarrow> sleeplock \<Rightarrow> 'z fs_scheme \<Rightarrow> 'z fs_scheme" where
  "put_ilock ip v s = upd_inode ip (\<lambda>x. x\<lparr>i_lock := v\<rparr>) s"

fun iinit_loop :: "nat \<Rightarrow> 'z fs_scheme \<Rightarrow> 'z fs_scheme" where
  "iinit_loop 0 s = s"
| "iinit_loop (Suc k) s = put_ilock k initsleeplock (iinit_loop k s)"

definition iinit :: "'z fs_scheme \<Rightarrow> 'z fs_scheme" where
  "iinit s = iinit_loop NINODE s"

definition iget :: "u32 \<Rightarrow> u32 \<Rightarrow> 'z fs_scheme \<Rightarrow> (nat \<times> 'z fs_scheme) res" where
  "iget dev inum s =
     bind_res (lock_acquire L_itable s) (\<lambda>s1.
       case find (\<lambda>ip. i_ref (inodes s1 ip) > 0 \<and> i_dev (inodes s1 ip) = dev \<and> i_inum (inodes s1 ip) = inum) [0..<NINODE] of
         Some ip \<Rightarrow>
           bind_res (lock_release L_itable (upd_inode ip (\<lambda>x. x\<lparr>i_ref := i_ref x + 1\<rparr>) s1)) (\<lambda>s2. Ret (ip, s2))
       | None \<Rightarrow>
           (case find (\<lambda>ip. i_ref (inodes s1 ip) = 0) [0..<NINODE] of
              None \<Rightarrow> Panic ''iget: no inodes''
            | Some ip \<Rightarrow>
                bind_res (lock_release L_itable
                  (upd_inode ip (\<lambda>x. x\<lparr>i_dev := dev, i_inum := inum, i_ref := 1, i_valid := False\<rparr>) s1)) (\<lambda>s2. Ret (ip, s2))))"

fun ialloc_loop :: "nat \<Rightarrow> u32 \<Rightarrow> u16 \<Rightarrow> nat \<Rightarrow> 'z fs_scheme \<Rightarrow> (nat \<times> 'z fs_scheme) res" where
  "ialloc_loop 0 dev type inum s = Panic ''ialloc: no inodes''"
| "ialloc_loop (Suc k) dev type inum s =
     bind_res (bread dev (IBLOCK (of_nat inum) s) s) (\<lambda>(bp, s1).
     let d = b_data (bufs s1 bp); off = dinode_off (of_nat inum) in
     if get16 off d = 0 then
       let d1 = put16 off type (take off d @ replicate 64 0 @ drop (off + 64) d) in
       bind_res (log_write bp (set_data bp d1 s1)) (\<lambda>s2.
       bind_res (brelse bp s2) (iget dev (of_nat inum)))
     else bind_res (brelse bp s1) (ialloc_loop k dev type (Suc inum)))"

definition ialloc :: "u32 \<Rightarrow> u16 \<Rightarrow> 'z fs_scheme \<Rightarrow> (nat \<times> 'z fs_scheme) res" where
  "ialloc dev type s = ialloc_loop (unat (sb_ninodes (sb s)) - 1) dev type 1 s"

definition iupdate :: "nat \<Rightarrow> 'z fs_scheme \<Rightarrow> 'z fs_scheme res" where
  "iupdate ip s =
     bind_res (bread (i_dev (inodes s ip)) (IBLOCK (i_inum (inodes s ip)) s) s) (\<lambda>(bp, s1).
     let x = inodes s1 ip in
     bind_res (log_write bp (set_data bp (put_dinode (dinode_off (i_inum x)) x (b_data (bufs s1 bp))) s1)) (brelse bp))"

definition idup :: "nat \<Rightarrow> 'z fs_scheme \<Rightarrow> (nat \<times> 'z fs_scheme) res" where
  "idup ip s =
     bind_res (lock_acquire L_itable s) (\<lambda>s1.
     bind_res (lock_release L_itable (upd_inode ip (\<lambda>x. x\<lparr>i_ref := i_ref x + 1\<rparr>) s1)) (\<lambda>s2. Ret (ip, s2)))"

definition ilock :: "nat \<Rightarrow> 'z fs_scheme \<Rightarrow> 'z fs_scheme res" where
  "ilock ip s =
     (if i_ref (inodes s ip) < 1 then Panic ''ilock''
      else bind_res (acquiresleep (L_sleep_inode ip) (get_ilock ip) (put_ilock ip) s) (\<lambda>s1.
        if i_valid (inodes s1 ip) then Ret s1
        else bind_res (bread (i_dev (inodes s1 ip)) (IBLOCK (i_inum (inodes s1 ip)) s1) s1) (\<lambda>(bp, s2).
          let d = b_data (bufs s2 bp) in
          bind_res (brelse bp (upd_inode ip (\<lambda>x. get_dinode (dinode_off (i_inum x)) d x) s2)) (\<lambda>s3.
          let s4 = upd_inode ip (\<lambda>x. x\<lparr>i_valid := True\<rparr>) s3 in
          if i_type (inodes s4 ip) = 0 then Panic ''ilock: no type'' else Ret s4))))"

definition iunlock :: "nat \<Rightarrow> 'z fs_scheme \<Rightarrow> 'z fs_scheme res" where
  "iunlock ip s =
     bind_res (holdingsleep (L_sleep_inode ip) (get_ilock ip) s) (\<lambda>(h, s1).
       if \<not> h \<or> i_ref (inodes s1 ip) < 1 then Panic ''iunlock''
       else releasesleep (L_sleep_inode ip) (get_ilock ip) (put_ilock ip) s1)"

end
