(* ===== verification/Fs_Content.thy ===== *)
theory Fs_Content
  imports Fs
begin

text \<open>
  The contents of inodes, directories and path names (the second half of kernel/fs.c).
\<close>

section \<open>Inode contents\<close>

definition bmap :: "nat \<Rightarrow> nat \<Rightarrow> 'z fs_scheme \<Rightarrow> (u32 \<times> 'z fs_scheme) res" where
  "bmap ip bn s =
     (if bn < NDIRECT then
        let addr = i_addrs (inodes s ip) ! bn in
        if addr \<noteq> 0 then Ret (addr, s)
        else bind_res (balloc (i_dev (inodes s ip)) s) (\<lambda>(a, s1).
          Ret (a, upd_inode ip (\<lambda>x. x\<lparr>i_addrs := (i_addrs x)[bn := a]\<rparr>) s1))
      else let j = bn - NDIRECT in
        if j < NINDIRECT then
          bind_res
            (let addr = i_addrs (inodes s ip) ! NDIRECT in
             if addr \<noteq> 0 then Ret (addr, s)
             else bind_res (balloc (i_dev (inodes s ip)) s) (\<lambda>(a, s1).
               Ret (a, upd_inode ip (\<lambda>x. x\<lparr>i_addrs := (i_addrs x)[NDIRECT := a]\<rparr>) s1)))
            (\<lambda>(ind, s1).
          bind_res (bread (i_dev (inodes s1 ip)) ind s1) (\<lambda>(bp, s2).
          let addr = get32 (4 * j) (b_data (bufs s2 bp)) in
          if addr \<noteq> 0 then bind_res (brelse bp s2) (\<lambda>s3. Ret (addr, s3))
          else bind_res (balloc (i_dev (inodes s2 ip)) s2) (\<lambda>(a, s3).
            bind_res (log_write bp (set_data bp (put32 (4 * j) a (b_data (bufs s3 bp))) s3)) (\<lambda>s4.
            bind_res (brelse bp s4) (\<lambda>s5. Ret (a, s5))))))
        else Panic ''bmap: out of range'')"

fun itrunc_direct :: "nat \<Rightarrow> nat \<Rightarrow> nat \<Rightarrow> 'z fs_scheme \<Rightarrow> 'z fs_scheme res" where
  "itrunc_direct ip 0 i s = Ret s"
| "itrunc_direct ip (Suc k) i s =
     (let a = i_addrs (inodes s ip) ! i in
      if a \<noteq> 0 then
        bind_res (bfree (i_dev (inodes s ip)) a s) (\<lambda>s1.
        itrunc_direct ip k (Suc i) (upd_inode ip (\<lambda>x. x\<lparr>i_addrs := (i_addrs x)[i := 0]\<rparr>) s1))
      else itrunc_direct ip k (Suc i) s)"

text \<open>The block numbers are those the buffer holds when each is looked at.\<close>

fun itrunc_indirect :: "nat \<Rightarrow> nat \<Rightarrow> nat \<Rightarrow> nat \<Rightarrow> 'z fs_scheme \<Rightarrow> 'z fs_scheme res" where
  "itrunc_indirect ip bp 0 j s = Ret s"
| "itrunc_indirect ip bp (Suc k) j s =
     (let a = get32 (4 * j) (b_data (bufs s bp)) in
      if a \<noteq> 0 then bind_res (bfree (i_dev (inodes s ip)) a s) (itrunc_indirect ip bp k (Suc j))
      else itrunc_indirect ip bp k (Suc j) s)"

definition itrunc :: "nat \<Rightarrow> 'z fs_scheme \<Rightarrow> 'z fs_scheme res" where
  "itrunc ip s =
     bind_res (itrunc_direct ip NDIRECT 0 s) (\<lambda>s1.
     bind_res
       (let ind = i_addrs (inodes s1 ip) ! NDIRECT in
        if ind \<noteq> 0 then
          bind_res (bread (i_dev (inodes s1 ip)) ind s1) (\<lambda>(bp, s2).
          bind_res (itrunc_indirect ip bp NINDIRECT 0 s2) (\<lambda>s3.
          bind_res (brelse bp s3) (\<lambda>s4.
          bind_res (bfree (i_dev (inodes s4 ip)) (i_addrs (inodes s4 ip) ! NDIRECT) s4) (\<lambda>s5.
          Ret (upd_inode ip (\<lambda>x. x\<lparr>i_addrs := (i_addrs x)[NDIRECT := 0]\<rparr>) s5)))))
        else Ret s1)
       (\<lambda>s6. iupdate ip (upd_inode ip (\<lambda>x. x\<lparr>i_size := 0\<rparr>) s6)))"

definition iput :: "nat \<Rightarrow> 'z fs_scheme \<Rightarrow> 'z fs_scheme res" where
  "iput ip s =
     bind_res (lock_acquire L_itable s) (\<lambda>s1.
     let x = inodes s1 ip in
     bind_res
       (if i_ref x = 1 \<and> i_valid x \<and> i_nlink x = 0 then
          bind_res (acquiresleep (L_sleep_inode ip) (get_ilock ip) (put_ilock ip) s1) (\<lambda>s2.
          bind_res (lock_release L_itable s2) (\<lambda>s3.
          bind_res (itrunc ip s3) (\<lambda>s4.
          bind_res (iupdate ip (upd_inode ip (\<lambda>x. x\<lparr>i_type := 0\<rparr>) s4)) (\<lambda>s5.
          bind_res (releasesleep (L_sleep_inode ip) (get_ilock ip) (put_ilock ip) (upd_inode ip (\<lambda>x. x\<lparr>i_valid := False\<rparr>) s5))
            (lock_acquire L_itable)))))
        else Ret s1)
       (\<lambda>s6. lock_release L_itable (upd_inode ip (\<lambda>x. x\<lparr>i_ref := i_ref x - 1\<rparr>) s6)))"

definition iunlockput :: "nat \<Rightarrow> 'z fs_scheme \<Rightarrow> 'z fs_scheme res" where
  "iunlockput ip s = bind_res (iunlock ip s) (iput ip)"

record stat =
  st_dev :: u32
  st_ino :: u32
  st_type :: u16
  st_nlink :: u16
  st_size :: u64

definition stati :: "nat \<Rightarrow> 'z fs_scheme \<Rightarrow> stat" where
  "stati ip s =
     (let x = inodes s ip in
      \<lparr>st_dev = i_dev x, st_ino = i_inum x, st_type = i_type x, st_nlink = i_nlink x, st_size = ucast (i_size x)\<rparr>)"

text \<open>How many bytes of the block of offset \<open>off\<close> one iteration handles.\<close>

definition chunk :: "nat \<Rightarrow> nat \<Rightarrow> nat" where
  "chunk rest off = min rest (BSIZE - off mod BSIZE)"

lemma chunk_pos: "0 < rest \<Longrightarrow> 0 < chunk rest off"
  by (simp add: chunk_def BSIZE_def)

text \<open>
  The loop of \<open>readi\<close>, giving the bytes read as well; \<open>copy\<close> takes them to their destination.
\<close>

function readi_loop :: "(u64 \<Rightarrow> byte list \<Rightarrow> 'z fs_scheme \<Rightarrow> (int \<times> 'z fs_scheme) res) \<Rightarrow> nat \<Rightarrow> nat \<Rightarrow> nat \<Rightarrow> nat \<Rightarrow> u64 \<Rightarrow> 'z fs_scheme \<Rightarrow> (int \<times> byte list \<times> 'z fs_scheme) res" where
  "readi_loop copy ip n tot off dst s =
     (if \<not> tot < n then Ret (int tot, [], s)
      else bind_res (bmap ip (off div BSIZE) s) (\<lambda>(blk, s1).
        bind_res (bread (i_dev (inodes s1 ip)) blk s1) (\<lambda>(bp, s2).
        let m = chunk (n - tot) off; bs = take m (drop (off mod BSIZE) (b_data (bufs s2 bp))) in
        bind_res (copy dst bs s2) (\<lambda>(r, s3).
        if r = -1 then bind_res (brelse bp s3) (\<lambda>s4. Ret (-1, [], s4))
        else bind_res (brelse bp s3) (\<lambda>s4.
          bind_res (readi_loop copy ip n (tot + m) (off + m) (dst + of_nat m) s4) (\<lambda>(t, rest, s5). Ret (t, bs @ rest, s5)))))))"
  by pat_completeness auto
termination
  by (relation "measure (\<lambda>(copy, ip, n, tot, off, dst, s). n - tot)") (auto simp: chunk_pos diff_less_mono2)

definition readi_with :: "(u64 \<Rightarrow> byte list \<Rightarrow> 'z fs_scheme \<Rightarrow> (int \<times> 'z fs_scheme) res) \<Rightarrow> nat \<Rightarrow> u64 \<Rightarrow> u32 \<Rightarrow> u32 \<Rightarrow> 'z fs_scheme \<Rightarrow> (int \<times> byte list \<times> 'z fs_scheme) res" where
  "readi_with copy ip dst off n s =
     (let size = i_size (inodes s ip) in
      if off > size \<or> off + n < off then Ret (0, [], s)
      else let n1 = (if off + n > size then size - off else n) in readi_loop copy ip (unat n1) 0 (unat off) dst s)"

definition readi :: "nat \<Rightarrow> bool \<Rightarrow> u64 \<Rightarrow> u32 \<Rightarrow> u32 \<Rightarrow> 'z fs_scheme \<Rightarrow> (int \<times> 'z fs_scheme) res" where
  "readi ip user_dst dst off n s =
     bind_res (readi_with (either_copyout user_dst) ip dst off n s) (\<lambda>(r, _, s1). Ret (r, s1))"

text \<open>Reading into a local variable of the kernel.\<close>

definition readi_local :: "nat \<Rightarrow> u32 \<Rightarrow> u32 \<Rightarrow> 'z fs_scheme \<Rightarrow> (int \<times> byte list \<times> 'z fs_scheme) res" where
  "readi_local ip off n s = readi_with (\<lambda>dst bs s. Ret (0, s)) ip 0 off n s"

text \<open>
  The loop of \<open>writei\<close>; \<open>fetch\<close> gets the bytes. Those it got before it failed are in the buffer
  all the same, which is then not logged.
\<close>

function writei_loop :: "(u64 \<Rightarrow> nat \<Rightarrow> 'z fs_scheme \<Rightarrow> (int \<times> byte list) res) \<Rightarrow> nat \<Rightarrow> nat \<Rightarrow> nat \<Rightarrow> nat \<Rightarrow> u64 \<Rightarrow> 'z fs_scheme \<Rightarrow> (nat \<times> nat \<times> 'z fs_scheme) res" where
  "writei_loop fetch ip n tot off src s =
     (if \<not> tot < n then Ret (tot, off, s)
      else bind_res (bmap ip (off div BSIZE) s) (\<lambda>(blk, s1).
        bind_res (bread (i_dev (inodes s1 ip)) blk s1) (\<lambda>(bp, s2).
        let m = chunk (n - tot) off in
        bind_res (fetch src m s2) (\<lambda>(r, bs).
        let d = b_data (bufs s2 bp); o1 = off mod BSIZE;
            s3 = set_data bp (take o1 d @ bs @ drop (o1 + length bs) d) s2 in
        if r = -1 then bind_res (brelse bp s3) (\<lambda>s4. Ret (tot, off, s4))
        else bind_res (log_write bp s3) (\<lambda>s4.
          bind_res (brelse bp s4) (writei_loop fetch ip n (tot + m) (off + m) (src + of_nat m)))))))"
  by pat_completeness auto
termination
  by (relation "measure (\<lambda>(fetch, ip, n, tot, off, src, s). n - tot)") (auto simp: chunk_pos diff_less_mono2)

declare readi_loop.simps [simp del] writei_loop.simps [simp del]

definition writei_with :: "(u64 \<Rightarrow> nat \<Rightarrow> 'z fs_scheme \<Rightarrow> (int \<times> byte list) res) \<Rightarrow> nat \<Rightarrow> u64 \<Rightarrow> u32 \<Rightarrow> u32 \<Rightarrow> 'z fs_scheme \<Rightarrow> (int \<times> 'z fs_scheme) res" where
  "writei_with fetch ip src off n s =
     (if off > i_size (inodes s ip) \<or> off + n < off then Ret (-1, s)
      else if unat (off + n) > MAXFILE * BSIZE then Ret (-1, s)
      else bind_res (writei_loop fetch ip (unat n) 0 (unat off) src s) (\<lambda>(tot, off1, s1).
        let s2 = (if of_nat off1 > i_size (inodes s1 ip) then upd_inode ip (\<lambda>x. x\<lparr>i_size := of_nat off1\<rparr>) s1 else s1) in
        bind_res (iupdate ip s2) (\<lambda>s3. Ret (int tot, s3))))"

definition writei :: "nat \<Rightarrow> bool \<Rightarrow> u64 \<Rightarrow> u32 \<Rightarrow> u32 \<Rightarrow> 'z fs_scheme \<Rightarrow> (int \<times> 'z fs_scheme) res" where
  "writei ip user_src src off n s = writei_with (either_copyin user_src) ip src off n s"

text \<open>Writing from a local variable of the kernel.\<close>

definition writei_local :: "nat \<Rightarrow> byte list \<Rightarrow> u32 \<Rightarrow> 'z fs_scheme \<Rightarrow> (int \<times> 'z fs_scheme) res" where
  "writei_local ip bytes off s =
     writei_with (\<lambda>src m s. Ret (0, take m (drop (unat src) bytes))) ip 0 off (of_nat (length bytes)) s"

section \<open>Directories\<close>

text \<open>\<open>strncmp\<close> of kernel/string.c on two names; the end of a list is the terminating zero.\<close>

fun strncmp_names :: "nat \<Rightarrow> byte list \<Rightarrow> byte list \<Rightarrow> int" where
  "strncmp_names 0 p q = 0"
| "strncmp_names (Suc n) p q =
     (let a = (case p of [] \<Rightarrow> 0 | x # _ \<Rightarrow> x); b = (case q of [] \<Rightarrow> 0 | y # _ \<Rightarrow> y) in
      if a \<noteq> 0 \<and> a = b then strncmp_names n (tl p) (tl q) else uint a - uint b)"

definition namecmp :: "byte list \<Rightarrow> byte list \<Rightarrow> int" where
  "namecmp s t = strncmp_names DIRSIZ s t"

definition de_inum :: "byte list \<Rightarrow> u16" where
  "de_inum de = get16 0 de"

definition de_name :: "byte list \<Rightarrow> byte list" where
  "de_name de = take DIRSIZ (drop 2 de)"

fun dirlookup_loop :: "nat \<Rightarrow> nat \<Rightarrow> byte list \<Rightarrow> u32 \<Rightarrow> 'z fs_scheme \<Rightarrow> ((nat \<times> u32) option \<times> 'z fs_scheme) res" where
  "dirlookup_loop 0 dp name off s = NoReturn"
| "dirlookup_loop (Suc k) dp name off s =
     (if \<not> off < i_size (inodes s dp) then Ret (None, s)
      else bind_res (readi_local dp off 16 s) (\<lambda>(r, de, s1).
        if r \<noteq> 16 then Panic ''dirlookup read''
        else if de_inum de = 0 then dirlookup_loop k dp name (off + 16) s1
        else if namecmp name (de_name de) = 0 then
          bind_res (iget (i_dev (inodes s1 dp)) (ucast (de_inum de)) s1) (\<lambda>(ip, s2). Ret (Some (ip, off), s2))
        else dirlookup_loop k dp name (off + 16) s1))"

definition dirlookup :: "nat \<Rightarrow> byte list \<Rightarrow> 'z fs_scheme \<Rightarrow> ((nat \<times> u32) option \<times> 'z fs_scheme) res" where
  "dirlookup dp name s =
     (if i_type (inodes s dp) \<noteq> T_DIR then Panic ''dirlookup not DIR''
      else dirlookup_loop (unat (i_size (inodes s dp)) div 16 + 2) dp name 0 s)"

fun dirlink_slot :: "nat \<Rightarrow> nat \<Rightarrow> u32 \<Rightarrow> 'z fs_scheme \<Rightarrow> (u32 \<times> 'z fs_scheme) res" where
  "dirlink_slot 0 dp off s = NoReturn"
| "dirlink_slot (Suc k) dp off s =
     (if \<not> off < i_size (inodes s dp) then Ret (off, s)
      else bind_res (readi_local dp off 16 s) (\<lambda>(r, de, s1).
        if r \<noteq> 16 then Panic ''dirlink read''
        else if de_inum de = 0 then Ret (off, s1)
        else dirlink_slot k dp (off + 16) s1))"

text \<open>\<open>strncpy\<close> into the 14 bytes of a name: padded with zeros, not terminated when it is full.\<close>

definition pad_name :: "byte list \<Rightarrow> byte list" where
  "pad_name name = take DIRSIZ name @ replicate (DIRSIZ - length name) 0"

definition dirent_bytes :: "u16 \<Rightarrow> byte list \<Rightarrow> byte list" where
  "dirent_bytes inum name = le_bytes 2 inum @ pad_name name"

definition dirlink :: "nat \<Rightarrow> byte list \<Rightarrow> u32 \<Rightarrow> 'z fs_scheme \<Rightarrow> (int \<times> 'z fs_scheme) res" where
  "dirlink dp name inum s =
     bind_res (dirlookup dp name s) (\<lambda>(r, s1).
       case r of Some (ip, _) \<Rightarrow> bind_res (iput ip s1) (\<lambda>s2. Ret (-1, s2))
       | None \<Rightarrow>
           bind_res (dirlink_slot (unat (i_size (inodes s1 dp)) div 16 + 2) dp 0 s1) (\<lambda>(off, s2).
           bind_res (writei_local dp (dirent_bytes (ucast inum) name) off s2) (\<lambda>(w, s3).
           if w \<noteq> 16 then Panic ''dirlink'' else Ret (0, s3))))"

section \<open>Paths\<close>

definition slash :: byte where "slash = 47"

text \<open>The rest of the path and the element, of which at most 14 bytes are kept.\<close>

definition skipelem :: "byte list \<Rightarrow> (byte list \<times> byte list) option" where
  "skipelem path =
     (let s = dropWhile (\<lambda>c. c = slash) path in
      if s = [] then None
      else Some (dropWhile (\<lambda>c. c = slash) (dropWhile (\<lambda>c. c \<noteq> slash) s), take DIRSIZ (takeWhile (\<lambda>c. c \<noteq> slash) s)))"

lemma skipelem_shorter: "skipelem path = Some (rest, name) \<Longrightarrow> length rest < length path"
proof -
  assume a: "skipelem path = Some (rest, name)"
  let ?s = "dropWhile (\<lambda>c. c = slash) path"
  have ne: "?s \<noteq> []" using a by (auto simp: skipelem_def Let_def split: if_splits)
  then have "hd ?s \<noteq> slash" by (rule hd_dropWhile)
  with ne have "dropWhile (\<lambda>c. c \<noteq> slash) ?s = dropWhile (\<lambda>c. c \<noteq> slash) (tl ?s)" by (cases ?s) simp_all
  then have "length (dropWhile (\<lambda>c. c \<noteq> slash) ?s) \<le> length (tl ?s)"
    using length_dropWhile_le [of "\<lambda>c. c \<noteq> slash" "tl ?s"] by simp
  moreover have "length ?s \<le> length path" by (rule length_dropWhile_le)
  moreover have "length (tl ?s) < length ?s" using ne by simp
  moreover have "length rest \<le> length (dropWhile (\<lambda>c. c \<noteq> slash) ?s)"
    using a by (auto simp: skipelem_def Let_def length_dropWhile_le split: if_splits)
  ultimately show ?thesis by linarith
qed

text \<open>The result: the inode, and the last element when the parent is looked for.\<close>

function namex_loop :: "byte list \<Rightarrow> bool \<Rightarrow> byte list \<Rightarrow> nat \<Rightarrow> 'z fs_scheme \<Rightarrow> ((nat \<times> byte list) option \<times> 'z fs_scheme) res" where
  "namex_loop path parent name ip s =
     (case skipelem path of
        None \<Rightarrow> if parent then bind_res (iput ip s) (\<lambda>s1. Ret (None, s1)) else Ret (Some (ip, name), s)
      | Some (rest, elem) \<Rightarrow>
          bind_res (ilock ip s) (\<lambda>s1.
          if i_type (inodes s1 ip) \<noteq> T_DIR then bind_res (iunlockput ip s1) (\<lambda>s2. Ret (None, s2))
          else if parent \<and> rest = [] then bind_res (iunlock ip s1) (\<lambda>s2. Ret (Some (ip, elem), s2))
          else bind_res (dirlookup ip elem s1) (\<lambda>(r, s2).
            case r of None \<Rightarrow> bind_res (iunlockput ip s2) (\<lambda>s3. Ret (None, s3))
            | Some (nxt, _) \<Rightarrow> bind_res (iunlockput ip s2) (namex_loop rest parent elem nxt))))"
  by pat_completeness auto
termination
  by (relation "measure (\<lambda>(path, parent, name, ip, s). length path)") (auto dest: skipelem_shorter)

declare namex_loop.simps [simp del]

definition namex :: "byte list \<Rightarrow> bool \<Rightarrow> 'z fs_scheme \<Rightarrow> ((nat \<times> byte list) option \<times> 'z fs_scheme) res" where
  "namex path parent s =
     bind_res
       (if path \<noteq> [] \<and> hd path = slash then iget (of_nat ROOTDEV) ROOTINO s
        else case pr_cwd (cur s) of None \<Rightarrow> Fault | Some c \<Rightarrow> idup c s)
       (\<lambda>(ip, s1). namex_loop path parent [] ip s1)"

definition namei :: "byte list \<Rightarrow> 'z fs_scheme \<Rightarrow> (nat option \<times> 'z fs_scheme) res" where
  "namei path s = bind_res (namex path False s) (\<lambda>(r, s1). Ret (map_option fst r, s1))"

definition nameiparent :: "byte list \<Rightarrow> 'z fs_scheme \<Rightarrow> ((nat \<times> byte list) option \<times> 'z fs_scheme) res" where
  "nameiparent path s = namex path True s"

end
