(* ===== verification/File.thy ===== *)
theory File
  imports Fs_Content
begin

text \<open>
  Open files (kernel/file.c, kernel/file.h) and \<open>pipealloc\<close> of kernel/pipe.c. The file table is
  \<open>ftable s f\<close> for \<open>f < NFILE\<close>. Reading and writing dispatch to pipes, devices and inodes; the
  calls that sleep in a pipe or the console can be resumed with what \<open>Asleep\<close> says. The device
  table has the console's functions only. \<open>filestat\<close> copies out a whole \<open>struct stat\<close>,
  including the four bytes of padding, which are whatever the kernel stack holds: an argument.
\<close>

datatype fdtype = FD_NONE | FD_PIPE | FD_INODE | FD_DEVICE

record open_file =
  f_type :: fdtype
  f_ref :: int
  f_readable :: bool
  f_writable :: bool
  f_pipe :: u64
  f_ip :: nat
  f_off :: u32
  f_major :: u16

record files = fs +
  ftable :: "nat \<Rightarrow> open_file"

datatype fcont = KPipeRead | KPipeWrite nat | KConsRead "nat \<times> u64" | KConsWrite "nat \<times> byte"

fun map_cont :: "('k \<Rightarrow> 'l) \<Rightarrow> ('a, 'k) call \<Rightarrow> ('a, 'l) call" where
  "map_cont g (Done x) = Done x"
| "map_cont g (Asleep ch k) = Asleep ch (g k)"

definition upd_file :: "nat \<Rightarrow> (open_file \<Rightarrow> open_file) \<Rightarrow> 'z files_scheme \<Rightarrow> 'z files_scheme" where
  "upd_file f h s = s\<lparr>ftable := (ftable s)(f := h (ftable s f))\<rparr>"

definition filealloc :: "'z files_scheme \<Rightarrow> (nat option \<times> 'z files_scheme) res" where
  "filealloc s =
     bind_res (lock_acquire L_ftable s) (\<lambda>s1.
       case find (\<lambda>f. f_ref (ftable s1 f) = 0) [0..<NFILE] of
         Some f \<Rightarrow> bind_res (lock_release L_ftable (upd_file f (\<lambda>x. x\<lparr>f_ref := 1\<rparr>) s1)) (\<lambda>s2. Ret (Some f, s2))
       | None \<Rightarrow> bind_res (lock_release L_ftable s1) (\<lambda>s2. Ret (None, s2)))"

definition filedup :: "nat \<Rightarrow> 'z files_scheme \<Rightarrow> (nat \<times> 'z files_scheme) res" where
  "filedup f s =
     bind_res (lock_acquire L_ftable s) (\<lambda>s1.
       if f_ref (ftable s1 f) < 1 then Panic ''filedup''
       else bind_res (lock_release L_ftable (upd_file f (\<lambda>x. x\<lparr>f_ref := f_ref x + 1\<rparr>) s1)) (\<lambda>s2. Ret (f, s2)))"

definition fileclose :: "nat \<Rightarrow> 'z files_scheme \<Rightarrow> 'z files_scheme res" where
  "fileclose f s =
     bind_res (lock_acquire L_ftable s) (\<lambda>s1.
       if f_ref (ftable s1 f) < 1 then Panic ''fileclose''
       else let s2 = upd_file f (\<lambda>x. x\<lparr>f_ref := f_ref x - 1\<rparr>) s1 in
         if f_ref (ftable s2 f) > 0 then lock_release L_ftable s2
         else let ff = ftable s2 f in
           bind_res (lock_release L_ftable (upd_file f (\<lambda>x. x\<lparr>f_ref := 0, f_type := FD_NONE\<rparr>) s2)) (\<lambda>s3.
           if f_type ff = FD_PIPE then pipeclose (f_pipe ff) (f_writable ff) s3
           else if f_type ff = FD_INODE \<or> f_type ff = FD_DEVICE then
             bind_res (begin_op s3) (\<lambda>s4. bind_res (iput (f_ip ff) s4) end_op)
           else Ret s3))"

text \<open>The bytes of a \<open>struct stat\<close>; \<open>pad\<close> are those between \<open>nlink\<close> and \<open>size\<close>.\<close>

definition stat_bytes :: "byte list \<Rightarrow> stat \<Rightarrow> byte list" where
  "stat_bytes pad st =
     le_bytes 4 (st_dev st) @ le_bytes 4 (st_ino st) @ le_bytes 2 (st_type st) @ le_bytes 2 (st_nlink st) @ pad @ le_bytes 8 (st_size st)"

definition filestat :: "byte list \<Rightarrow> nat \<Rightarrow> u64 \<Rightarrow> 'z files_scheme \<Rightarrow> (int \<times> 'z files_scheme) res" where
  "filestat pad f addr s =
     (if f_type (ftable s f) = FD_INODE \<or> f_type (ftable s f) = FD_DEVICE then
        let ip = f_ip (ftable s f) in
        bind_res (ilock ip s) (\<lambda>s1.
        let st = stati ip s1 in
        bind_res (iunlock ip s1) (\<lambda>s2.
        bind_res (copyout (pr_pagetable (cur s2)) addr (stat_bytes pad st) s2) (\<lambda>(r, s3).
        Ret (if r < 0 then -1 else 0, s3))))
      else Ret (-1, s))"

text \<open>The device functions \<open>devsw[major]\<close>: those of the console.\<close>

definition devsw_ok :: "u16 \<Rightarrow> 'z files_scheme \<Rightarrow> bool" where
  "devsw_ok major s \<longleftrightarrow> 0 \<le> sint major \<and> sint major < int NDEV \<and> devsw s (unat major)"

definition fileread :: "nat \<Rightarrow> u64 \<Rightarrow> int \<Rightarrow> 'z files_scheme \<Rightarrow> ((int, fcont) call \<times> 'z files_scheme) res" where
  "fileread f addr n s =
     (let x = ftable s f in
      if \<not> f_readable x then Ret (Done (-1), s)
      else case f_type x of
        FD_PIPE \<Rightarrow> bind_res (piperead (f_pipe x) addr n s) (\<lambda>(r, s1). Ret (map_cont (\<lambda>_. KPipeRead) r, s1))
      | FD_DEVICE \<Rightarrow>
          if \<not> devsw_ok (f_major x) s then Ret (Done (-1), s)
          else bind_res (consoleread True addr n s) (\<lambda>(r, s1). Ret (map_cont KConsRead r, s1))
      | FD_INODE \<Rightarrow>
          bind_res (ilock (f_ip x) s) (\<lambda>s1.
          bind_res (readi (f_ip x) True addr (f_off (ftable s1 f)) (of_int n) s1) (\<lambda>(r, s2).
          let s3 = (if r > 0 then upd_file f (\<lambda>x. x\<lparr>f_off := f_off x + of_int r\<rparr>) s2 else s2) in
          bind_res (iunlock (f_ip x) s3) (\<lambda>s4. Ret (Done r, s4))))
      | FD_NONE \<Rightarrow> Panic ''fileread'')"

text \<open>The most bytes one transaction of \<open>filewrite\<close> writes.\<close>

definition write_max :: nat where
  "write_max = ((MAXOPBLOCKS - 1 - 1 - 2) div 2) * BSIZE"

function filewrite_loop :: "nat \<Rightarrow> u64 \<Rightarrow> nat \<Rightarrow> nat \<Rightarrow> 'z files_scheme \<Rightarrow> (nat \<times> 'z files_scheme) res" where
  "filewrite_loop f addr n i s =
     (if \<not> i < n then Ret (i, s)
      else let n1 = min (n - i) write_max; ip = f_ip (ftable s f) in
        bind_res (begin_op s) (\<lambda>s1.
        bind_res (ilock ip s1) (\<lambda>s2.
        bind_res (writei ip True (addr + of_nat i) (f_off (ftable s2 f)) (of_nat n1) s2) (\<lambda>(r, s3).
        let s4 = (if r > 0 then upd_file f (\<lambda>x. x\<lparr>f_off := f_off x + of_int r\<rparr>) s3 else s3) in
        bind_res (iunlock ip s4) (\<lambda>s5.
        bind_res (end_op s5) (\<lambda>s6.
        if r \<noteq> int n1 then Ret (i, s6) else filewrite_loop f addr n (i + n1) s6))))))"
  by pat_completeness auto
termination
  by (relation "measure (\<lambda>(f, addr, n, i, s). n - i)") (auto simp: write_max_def MAXOPBLOCKS_def BSIZE_def)

declare filewrite_loop.simps [simp del]

definition filewrite :: "nat \<Rightarrow> u64 \<Rightarrow> int \<Rightarrow> 'z files_scheme \<Rightarrow> ((int, fcont) call \<times> 'z files_scheme) res" where
  "filewrite f addr n s =
     (let x = ftable s f in
      if \<not> f_writable x then Ret (Done (-1), s)
      else case f_type x of
        FD_PIPE \<Rightarrow> bind_res (pipewrite (f_pipe x) addr n s) (\<lambda>(r, s1). Ret (map_cont KPipeWrite r, s1))
      | FD_DEVICE \<Rightarrow>
          if \<not> devsw_ok (f_major x) s then Ret (Done (-1), s)
          else bind_res (consolewrite True addr n s) (\<lambda>(r, s1). Ret (map_cont KConsWrite r, s1))
      | FD_INODE \<Rightarrow>
          bind_res (filewrite_loop f addr (nat n) 0 s) (\<lambda>(i, s1). Ret (Done (if int i = n then n else -1), s1))
      | FD_NONE \<Rightarrow> Panic ''filewrite'')"

section \<open>pipealloc\<close>

definition pipe_bad :: "nat option \<Rightarrow> nat option \<Rightarrow> 'z files_scheme \<Rightarrow> ((nat \<times> nat) option \<times> 'z files_scheme) res" where
  "pipe_bad f0 f1 s =
     bind_res (case f0 of None \<Rightarrow> Ret s | Some f \<Rightarrow> fileclose f s) (\<lambda>s1.
     bind_res (case f1 of None \<Rightarrow> Ret s1 | Some f \<Rightarrow> fileclose f s1) (\<lambda>s2. Ret (None, s2)))"

text \<open>A new pipe; its buffer holds what \<open>kalloc\<close> fills a page with.\<close>

definition new_pipe :: pipe where
  "new_pipe = \<lparr>pi_data = replicate PIPESIZE 5, pi_nread = 0, pi_nwrite = 0, pi_readopen = True, pi_writeopen = True\<rparr>"

definition pipealloc :: "'z files_scheme \<Rightarrow> ((nat \<times> nat) option \<times> 'z files_scheme) res" where
  "pipealloc s =
     bind_res (filealloc s) (\<lambda>(f0, s1).
     case f0 of None \<Rightarrow> pipe_bad None None s1
     | Some a \<Rightarrow>
         bind_res (filealloc s1) (\<lambda>(f1, s2).
         case f1 of None \<Rightarrow> pipe_bad f0 None s2
         | Some b \<Rightarrow>
             bind_res (kalloc s2) (\<lambda>(pi, s3).
             if pi = 0 then pipe_bad f0 f1 s3
             else let s4 = set_pipe pi new_pipe s3;
                      s5 = upd_file a (\<lambda>x. x\<lparr>f_type := FD_PIPE, f_readable := True, f_writable := False, f_pipe := pi\<rparr>) s4
                  in Ret (Some (a, b), upd_file b (\<lambda>x. x\<lparr>f_type := FD_PIPE, f_readable := False, f_writable := True, f_pipe := pi\<rparr>) s5))))"

end
