(* ===== verification/Syscall_Args.thy ===== *)
theory Syscall_Args
  imports Usermem
begin

text \<open>
  System call arguments (kernel/syscall.c) and the trap frame (kernel/proc.h): the arguments are in
  the saved user registers, words of the page at \<open>trapframe\<close>. Strings are given without their
  terminating zero. \<open>argint\<close> and \<open>argaddr\<close> never fail.
\<close>

section \<open>The trap frame\<close>

datatype tfreg =
    kernel_satp | kernel_sp | kernel_trap | epc | kernel_hartid
  | tf_ra | tf_sp | tf_gp | tf_tp | tf_t0 | tf_t1 | tf_t2 | tf_s0 | tf_s1
  | tf_a0 | tf_a1 | tf_a2 | tf_a3 | tf_a4 | tf_a5 | tf_a6 | tf_a7
  | tf_s2 | tf_s3 | tf_s4 | tf_s5 | tf_s6 | tf_s7 | tf_s8 | tf_s9 | tf_s10 | tf_s11
  | tf_t3 | tf_t4 | tf_t5 | tf_t6

fun tf_index :: "tfreg \<Rightarrow> nat" where
  "tf_index kernel_satp = 0" | "tf_index kernel_sp = 1" | "tf_index kernel_trap = 2" | "tf_index epc = 3"
| "tf_index kernel_hartid = 4" | "tf_index tf_ra = 5" | "tf_index tf_sp = 6" | "tf_index tf_gp = 7"
| "tf_index tf_tp = 8" | "tf_index tf_t0 = 9" | "tf_index tf_t1 = 10" | "tf_index tf_t2 = 11"
| "tf_index tf_s0 = 12" | "tf_index tf_s1 = 13" | "tf_index tf_a0 = 14" | "tf_index tf_a1 = 15"
| "tf_index tf_a2 = 16" | "tf_index tf_a3 = 17" | "tf_index tf_a4 = 18" | "tf_index tf_a5 = 19"
| "tf_index tf_a6 = 20" | "tf_index tf_a7 = 21" | "tf_index tf_s2 = 22" | "tf_index tf_s3 = 23"
| "tf_index tf_s4 = 24" | "tf_index tf_s5 = 25" | "tf_index tf_s6 = 26" | "tf_index tf_s7 = 27"
| "tf_index tf_s8 = 28" | "tf_index tf_s9 = 29" | "tf_index tf_s10 = 30" | "tf_index tf_s11 = 31"
| "tf_index tf_t3 = 32" | "tf_index tf_t4 = 33" | "tf_index tf_t5 = 34" | "tf_index tf_t6 = 35"

definition tf_addr :: "u64 \<Rightarrow> tfreg \<Rightarrow> u64" where
  "tf_addr tf r = slot tf (of_nat (tf_index r))"

definition tf_get :: "tfreg \<Rightarrow> 'z kmem_scheme \<Rightarrow> u64" where
  "tf_get r s = load64 (tf_addr (pr_trapframe (cur s)) r) (pmem s)"

definition tf_set :: "tfreg \<Rightarrow> u64 \<Rightarrow> 'z kmem_scheme \<Rightarrow> 'z kmem_scheme" where
  "tf_set r v s = s\<lparr>pmem := store64 (tf_addr (pr_trapframe (cur s)) r) v (pmem s)\<rparr>"

section \<open>Arguments\<close>

definition fetchaddr :: "u64 \<Rightarrow> 'z kmem_scheme \<Rightarrow> u64 option res" where
  "fetchaddr addr s =
     (if addr \<ge> pr_sz (cur s) \<or> addr + 8 > pr_sz (cur s) then Ret None
      else bind_res (copyin (pr_pagetable (cur s)) addr 8 s) (\<lambda>(r, bs). Ret (if r \<noteq> 0 then None else Some (le_word bs))))"

definition fetchstr :: "u64 \<Rightarrow> nat \<Rightarrow> 'z kmem_scheme \<Rightarrow> byte list option res" where
  "fetchstr addr mx s =
     bind_res (copyinstr (pr_pagetable (cur s)) addr mx s) (\<lambda>(err, bs).
       Ret (if err < 0 then None else Some (takeWhile (\<lambda>c. c \<noteq> 0) bs)))"

definition argraw :: "nat \<Rightarrow> 'z kmem_scheme \<Rightarrow> u64 res" where
  "argraw n s =
     (if n = 0 then Ret (tf_get tf_a0 s) else if n = 1 then Ret (tf_get tf_a1 s)
      else if n = 2 then Ret (tf_get tf_a2 s) else if n = 3 then Ret (tf_get tf_a3 s)
      else if n = 4 then Ret (tf_get tf_a4 s) else if n = 5 then Ret (tf_get tf_a5 s)
      else Panic ''argraw'')"

definition argint :: "nat \<Rightarrow> 'z kmem_scheme \<Rightarrow> int res" where
  "argint n s = bind_res (argraw n s) (\<lambda>v. Ret (sint (ucast v :: u32)))"

definition argaddr :: "nat \<Rightarrow> 'z kmem_scheme \<Rightarrow> u64 res" where
  "argaddr n s = argraw n s"

definition argstr :: "nat \<Rightarrow> nat \<Rightarrow> 'z kmem_scheme \<Rightarrow> byte list option res" where
  "argstr n mx s = bind_res (argaddr n s) (\<lambda>addr. fetchstr addr mx s)"

end
