(* ===== verification/Sysfile.thy ===== *)
theory Sysfile
  imports File Syscall_Args
begin

text \<open>
  The file system calls of kernel/sysfile.c, except \<open>sys_exec\<close>. Each takes its arguments from the
  trap frame. The value \<open>-1\<close> is what the C functions return on failure. Descriptors are indices
  of \<open>pr_ofile\<close>; the last element of a path and the names \<open>.\<close> and \<open>..\<close> are byte lists.
\<close>

definition O_RDONLY :: u32 where "O_RDONLY = 0x000"
definition O_WRONLY :: u32 where "O_WRONLY = 0x001"
definition O_RDWR :: u32 where "O_RDWR = 0x002"
definition O_CREATE :: u32 where "O_CREATE = 0x200"
definition O_TRUNC :: u32 where "O_TRUNC = 0x400"

definition dot :: "byte list" where "dot = [46]"
definition dotdot :: "byte list" where "dotdot = [46, 46]"

section \<open>Descriptors\<close>

definition argfd :: "nat \<Rightarrow> 'z files_scheme \<Rightarrow> (nat \<times> nat) option res" where
  "argfd n s =
     bind_res (argint n s) (\<lambda>fd.
       Ret (if fd < 0 \<or> fd \<ge> int NOFILE then None
            else map_option (\<lambda>f. (nat fd, f)) (pr_ofile (cur s) ! nat fd)))"

definition set_ofile :: "nat \<Rightarrow> nat option \<Rightarrow> 'z kctx_scheme \<Rightarrow> 'z kctx_scheme" where
  "set_ofile fd x s = s\<lparr>cur := (cur s)\<lparr>pr_ofile := (pr_ofile (cur s))[fd := x]\<rparr>\<rparr>"

definition fdalloc :: "nat \<Rightarrow> 'z kctx_scheme \<Rightarrow> nat option \<times> 'z kctx_scheme" where
  "fdalloc f s =
     (case find (\<lambda>fd. pr_ofile (cur s) ! fd = None) [0..<NOFILE] of
        None \<Rightarrow> (None, s)
      | Some fd \<Rightarrow> (Some fd, set_ofile fd (Some f) s))"

definition sys_dup :: "'z files_scheme \<Rightarrow> (int \<times> 'z files_scheme) res" where
  "sys_dup s =
     bind_res (argfd 0 s) (\<lambda>a.
       case a of None \<Rightarrow> Ret (-1, s)
       | Some (_, f) \<Rightarrow>
           case fdalloc f s of
             (None, s1) \<Rightarrow> Ret (-1, s1)
           | (Some fd, s1) \<Rightarrow> bind_res (filedup f s1) (\<lambda>(_, s2). Ret (int fd, s2)))"

definition sys_read :: "'z files_scheme \<Rightarrow> ((int, fcont) call \<times> 'z files_scheme) res" where
  "sys_read s =
     bind_res (argfd 0 s) (\<lambda>a.
       case a of None \<Rightarrow> Ret (Done (-1), s)
       | Some (_, f) \<Rightarrow> bind_res (argint 2 s) (\<lambda>n. bind_res (argaddr 1 s) (\<lambda>p. fileread f p n s)))"

definition sys_write :: "'z files_scheme \<Rightarrow> ((int, fcont) call \<times> 'z files_scheme) res" where
  "sys_write s =
     bind_res (argfd 0 s) (\<lambda>a.
       case a of None \<Rightarrow> Ret (Done (-1), s)
       | Some (_, f) \<Rightarrow> bind_res (argint 2 s) (\<lambda>n. bind_res (argaddr 1 s) (\<lambda>p. filewrite f p n s)))"

definition sys_close :: "'z files_scheme \<Rightarrow> (int \<times> 'z files_scheme) res" where
  "sys_close s =
     bind_res (argfd 0 s) (\<lambda>a.
       case a of None \<Rightarrow> Ret (-1, s)
       | Some (fd, f) \<Rightarrow> bind_res (fileclose f (set_ofile fd None s)) (\<lambda>s1. Ret (0, s1)))"

definition sys_fstat :: "byte list \<Rightarrow> 'z files_scheme \<Rightarrow> (int \<times> 'z files_scheme) res" where
  "sys_fstat pad s =
     bind_res (argfd 0 s) (\<lambda>a.
       case a of None \<Rightarrow> Ret (-1, s)
       | Some (_, f) \<Rightarrow> bind_res (argaddr 1 s) (\<lambda>st. filestat pad f st s))"

section \<open>Names\<close>

text \<open>Leave the transaction and return \<open>r\<close>.\<close>

definition end_with :: "'a \<Rightarrow> 'z fs_scheme \<Rightarrow> ('a \<times> 'z fs_scheme) res" where
  "end_with r s = bind_res (end_op s) (\<lambda>s1. Ret (r, s1))"

text \<open>\<open>iunlockput(ip); end_op(); return r;\<close>\<close>

definition put_and_end :: "nat \<Rightarrow> 'a \<Rightarrow> 'z fs_scheme \<Rightarrow> ('a \<times> 'z fs_scheme) res" where
  "put_and_end ip r s = bind_res (iunlockput ip s) (end_with r)"

definition add_nlink :: "nat \<Rightarrow> u16 \<Rightarrow> 'z fs_scheme \<Rightarrow> 'z fs_scheme res" where
  "add_nlink ip d s = iupdate ip (upd_inode ip (\<lambda>x. x\<lparr>i_nlink := i_nlink x + d\<rparr>) s)"

text \<open>The label \<open>bad\<close> of \<open>sys_link\<close>.\<close>

definition link_bad :: "nat \<Rightarrow> 'z fs_scheme \<Rightarrow> (int \<times> 'z fs_scheme) res" where
  "link_bad ip s =
     bind_res (ilock ip s) (\<lambda>s1. bind_res (add_nlink ip (-1) s1) (put_and_end ip (-1)))"

definition sys_link_paths :: "byte list \<Rightarrow> byte list \<Rightarrow> 'z fs_scheme \<Rightarrow> (int \<times> 'z fs_scheme) res" where
  "sys_link_paths old new s =
     bind_res (begin_op s) (\<lambda>s1.
     bind_res (namei old s1) (\<lambda>(r, s2).
     case r of None \<Rightarrow> end_with (-1) s2
     | Some ip \<Rightarrow>
         bind_res (ilock ip s2) (\<lambda>s3.
         if i_type (inodes s3 ip) = T_DIR then put_and_end ip (-1) s3
         else
           bind_res (add_nlink ip 1 s3) (\<lambda>s4.
           bind_res (iunlock ip s4) (\<lambda>s5.
           bind_res (nameiparent new s5) (\<lambda>(q, s6).
           case q of None \<Rightarrow> link_bad ip s6
           | Some (dp, name) \<Rightarrow>
               bind_res (ilock dp s6) (\<lambda>s7.
               if i_dev (inodes s7 dp) \<noteq> i_dev (inodes s7 ip) then bind_res (iunlockput dp s7) (link_bad ip)
               else bind_res (dirlink dp name (i_inum (inodes s7 ip)) s7) (\<lambda>(w, s8).
                 if w < 0 then bind_res (iunlockput dp s8) (link_bad ip)
                 else bind_res (iunlockput dp s8) (\<lambda>s9. bind_res (iput ip s9) (end_with 0))))))))))"

definition sys_link :: "'z files_scheme \<Rightarrow> (int \<times> 'z files_scheme) res" where
  "sys_link s =
     bind_res (argstr 0 MAXPATH s) (\<lambda>old.
     case old of None \<Rightarrow> Ret (-1, s)
     | Some o' \<Rightarrow> bind_res (argstr 1 MAXPATH s) (\<lambda>new.
         case new of None \<Rightarrow> Ret (-1, s) | Some n' \<Rightarrow> sys_link_paths o' n' s))"

fun isdirempty_loop :: "nat \<Rightarrow> nat \<Rightarrow> u32 \<Rightarrow> 'z fs_scheme \<Rightarrow> (bool \<times> 'z fs_scheme) res" where
  "isdirempty_loop 0 dp off s = NoReturn"
| "isdirempty_loop (Suc k) dp off s =
     (if \<not> off < i_size (inodes s dp) then Ret (True, s)
      else bind_res (readi_local dp off 16 s) (\<lambda>(r, de, s1).
        if r \<noteq> 16 then Panic ''isdirempty: readi''
        else if de_inum de \<noteq> 0 then Ret (False, s1)
        else isdirempty_loop k dp (off + 16) s1))"

definition isdirempty :: "nat \<Rightarrow> 'z fs_scheme \<Rightarrow> (bool \<times> 'z fs_scheme) res" where
  "isdirempty dp s = isdirempty_loop (unat (i_size (inodes s dp)) div 16 + 2) dp 32 s"

definition sys_unlink_path :: "byte list \<Rightarrow> 'z fs_scheme \<Rightarrow> (int \<times> 'z fs_scheme) res" where
  "sys_unlink_path path s =
     bind_res (begin_op s) (\<lambda>s1.
     bind_res (nameiparent path s1) (\<lambda>(q, s2).
     case q of None \<Rightarrow> end_with (-1) s2
     | Some (dp, name) \<Rightarrow>
         bind_res (ilock dp s2) (\<lambda>s3.
         if namecmp name dot = 0 \<or> namecmp name dotdot = 0 then put_and_end dp (-1) s3
         else bind_res (dirlookup dp name s3) (\<lambda>(r, s4).
           case r of None \<Rightarrow> put_and_end dp (-1) s4
           | Some (ip, off) \<Rightarrow>
               bind_res (ilock ip s4) (\<lambda>s5.
               if sint (i_nlink (inodes s5 ip)) < 1 then Panic ''unlink: nlink < 1''
               else bind_res (if i_type (inodes s5 ip) = T_DIR then isdirempty ip s5 else Ret (True, s5)) (\<lambda>(e, s6).
                 if \<not> e then bind_res (iunlockput ip s6) (put_and_end dp (-1))
                 else bind_res (writei_local dp (replicate 16 0) off s6) (\<lambda>(w, s7).
                   if w \<noteq> 16 then Panic ''unlink: writei''
                   else bind_res (if i_type (inodes s7 ip) = T_DIR then add_nlink dp (-1) s7 else Ret s7) (\<lambda>s8.
                     bind_res (iunlockput dp s8) (\<lambda>s9.
                     bind_res (add_nlink ip (-1) s9) (put_and_end ip 0))))))))))"

definition sys_unlink :: "'z files_scheme \<Rightarrow> (int \<times> 'z files_scheme) res" where
  "sys_unlink s =
     bind_res (argstr 0 MAXPATH s) (\<lambda>p. case p of None \<Rightarrow> Ret (-1, s) | Some path \<Rightarrow> sys_unlink_path path s)"

text \<open>The entries \<open>.\<close> and \<open>..\<close> of a new directory.\<close>

definition create_dots :: "nat \<Rightarrow> nat \<Rightarrow> 'z fs_scheme \<Rightarrow> 'z fs_scheme res" where
  "create_dots ip dp s =
     bind_res (add_nlink dp 1 s) (\<lambda>s1.
     bind_res (dirlink ip dot (i_inum (inodes s1 ip)) s1) (\<lambda>(a, s2).
     if a < 0 then Panic ''create dots''
     else bind_res (dirlink ip dotdot (i_inum (inodes s2 dp)) s2) (\<lambda>(b, s3).
       if b < 0 then Panic ''create dots'' else Ret s3)))"

definition create :: "byte list \<Rightarrow> u16 \<Rightarrow> u16 \<Rightarrow> u16 \<Rightarrow> 'z fs_scheme \<Rightarrow> (nat option \<times> 'z fs_scheme) res" where
  "create path type major minor s =
     bind_res (nameiparent path s) (\<lambda>(q, s1).
     case q of None \<Rightarrow> Ret (None, s1)
     | Some (dp, name) \<Rightarrow>
         bind_res (ilock dp s1) (\<lambda>s2.
         bind_res (dirlookup dp name s2) (\<lambda>(r, s3).
         case r of
           Some (ip, _) \<Rightarrow>
             bind_res (iunlockput dp s3) (\<lambda>s4.
             bind_res (ilock ip s4) (\<lambda>s5.
             if type = T_FILE \<and> (i_type (inodes s5 ip) = T_FILE \<or> i_type (inodes s5 ip) = T_DEVICE) then Ret (Some ip, s5)
             else bind_res (iunlockput ip s5) (\<lambda>s6. Ret (None, s6))))
         | None \<Rightarrow>
             bind_res (ialloc (i_dev (inodes s3 dp)) type s3) (\<lambda>(ip, s4).
             bind_res (ilock ip s4) (\<lambda>s5.
             bind_res (iupdate ip (upd_inode ip (\<lambda>x. x\<lparr>i_major := major, i_minor := minor, i_nlink := 1\<rparr>) s5)) (\<lambda>s6.
             bind_res (if type = T_DIR then create_dots ip dp s6 else Ret s6) (\<lambda>s7.
             bind_res (dirlink dp name (i_inum (inodes s7 ip)) s7) (\<lambda>(w, s8).
             if w < 0 then Panic ''create: dirlink''
             else bind_res (iunlockput dp s8) (\<lambda>s9. Ret (Some ip, s9))))))))))"

section \<open>open, mkdir, mknod, chdir, pipe\<close>

text \<open>From the test for a device on, with \<open>ip\<close> locked.\<close>

definition open_inode :: "nat \<Rightarrow> u32 \<Rightarrow> 'z files_scheme \<Rightarrow> (int \<times> 'z files_scheme) res" where
  "open_inode ip omode s =
     (let x = inodes s ip in
      if i_type x = T_DEVICE \<and> (sint (i_major x) < 0 \<or> sint (i_major x) \<ge> int NDEV) then put_and_end ip (-1) s
      else bind_res (filealloc s) (\<lambda>(fo, s1).
        case fo of None \<Rightarrow> put_and_end ip (-1) s1
        | Some f \<Rightarrow>
            case fdalloc f s1 of
              (None, s2) \<Rightarrow> bind_res (fileclose f s2) (put_and_end ip (-1))
            | (Some fd, s2) \<Rightarrow>
                let s3 = upd_file f (\<lambda>y.
                           (if i_type x = T_DEVICE then y\<lparr>f_type := FD_DEVICE, f_major := i_major x\<rparr>
                            else y\<lparr>f_type := FD_INODE, f_off := 0\<rparr>)
                           \<lparr>f_ip := ip, f_readable := (omode AND O_WRONLY = 0),
                            f_writable := (omode AND O_WRONLY \<noteq> 0 \<or> omode AND O_RDWR \<noteq> 0)\<rparr>) s2
                in bind_res (if omode AND O_TRUNC \<noteq> 0 \<and> i_type x = T_FILE then itrunc ip s3 else Ret s3) (\<lambda>s4.
                   bind_res (iunlock ip s4) (end_with (int fd)))))"

definition sys_open_path :: "byte list \<Rightarrow> u32 \<Rightarrow> 'z files_scheme \<Rightarrow> (int \<times> 'z files_scheme) res" where
  "sys_open_path path omode s =
     bind_res (begin_op s) (\<lambda>s1.
     if omode AND O_CREATE \<noteq> 0 then
       bind_res (create path T_FILE 0 0 s1) (\<lambda>(r, s2).
         case r of None \<Rightarrow> end_with (-1) s2 | Some ip \<Rightarrow> open_inode ip omode s2)
     else
       bind_res (namei path s1) (\<lambda>(r, s2).
         case r of None \<Rightarrow> end_with (-1) s2
         | Some ip \<Rightarrow>
             bind_res (ilock ip s2) (\<lambda>s3.
             if i_type (inodes s3 ip) = T_DIR \<and> omode \<noteq> O_RDONLY then put_and_end ip (-1) s3
             else open_inode ip omode s3)))"

definition sys_open :: "'z files_scheme \<Rightarrow> (int \<times> 'z files_scheme) res" where
  "sys_open s =
     bind_res (argstr 0 MAXPATH s) (\<lambda>p.
     case p of None \<Rightarrow> Ret (-1, s)
     | Some path \<Rightarrow> bind_res (argint 1 s) (\<lambda>omode. sys_open_path path (word_of_int omode) s))"

definition sys_mkdir :: "'z files_scheme \<Rightarrow> (int \<times> 'z files_scheme) res" where
  "sys_mkdir s =
     bind_res (begin_op s) (\<lambda>s1.
     bind_res (argstr 0 MAXPATH s1) (\<lambda>p.
     case p of None \<Rightarrow> end_with (-1) s1
     | Some path \<Rightarrow>
         bind_res (create path T_DIR 0 0 s1) (\<lambda>(r, s2).
         case r of None \<Rightarrow> end_with (-1) s2 | Some ip \<Rightarrow> put_and_end ip 0 s2)))"

definition sys_mknod :: "'z files_scheme \<Rightarrow> (int \<times> 'z files_scheme) res" where
  "sys_mknod s =
     bind_res (begin_op s) (\<lambda>s1.
     bind_res (argstr 0 MAXPATH s1) (\<lambda>p.
     case p of None \<Rightarrow> end_with (-1) s1
     | Some path \<Rightarrow>
         bind_res (argint 1 s1) (\<lambda>major.
         bind_res (argint 2 s1) (\<lambda>minor.
         bind_res (create path T_DEVICE (word_of_int major) (word_of_int minor) s1) (\<lambda>(r, s2).
         case r of None \<Rightarrow> end_with (-1) s2 | Some ip \<Rightarrow> put_and_end ip 0 s2)))))"

definition sys_chdir :: "'z files_scheme \<Rightarrow> (int \<times> 'z files_scheme) res" where
  "sys_chdir s =
     bind_res (begin_op s) (\<lambda>s1.
     bind_res (argstr 0 MAXPATH s1) (\<lambda>p.
     case p of None \<Rightarrow> end_with (-1) s1
     | Some path \<Rightarrow>
         bind_res (namei path s1) (\<lambda>(r, s2).
         case r of None \<Rightarrow> end_with (-1) s2
         | Some ip \<Rightarrow>
             bind_res (ilock ip s2) (\<lambda>s3.
             if i_type (inodes s3 ip) \<noteq> T_DIR then put_and_end ip (-1) s3
             else bind_res (iunlock ip s3) (\<lambda>s4.
               bind_res (case pr_cwd (cur s4) of None \<Rightarrow> Fault | Some c \<Rightarrow> iput c s4) (\<lambda>s5.
               bind_res (end_op s5) (\<lambda>s6.
               Ret (0, s6\<lparr>cur := (cur s6)\<lparr>pr_cwd := Some ip\<rparr>\<rparr>))))))))"

definition close_both :: "nat \<Rightarrow> nat \<Rightarrow> 'z files_scheme \<Rightarrow> (int \<times> 'z files_scheme) res" where
  "close_both rfile wfile s = bind_res (fileclose rfile s) (\<lambda>s1. bind_res (fileclose wfile s1) (\<lambda>s2. Ret (-1, s2)))"

definition sys_pipe :: "'z files_scheme \<Rightarrow> (int \<times> 'z files_scheme) res" where
  "sys_pipe s =
     bind_res (argaddr 0 s) (\<lambda>fdarray.
     bind_res (pipealloc s) (\<lambda>(r, s1).
     case r of None \<Rightarrow> Ret (-1, s1)
     | Some (rfile, wfile) \<Rightarrow>
         case fdalloc rfile s1 of
           (None, s2) \<Rightarrow> close_both rfile wfile s2
         | (Some fd0, s2) \<Rightarrow>
             case fdalloc wfile s2 of
               (None, s3) \<Rightarrow> close_both rfile wfile (set_ofile fd0 None s3)
             | (Some fd1, s3) \<Rightarrow>
                 bind_res (copyout (pr_pagetable (cur s3)) fdarray (le_bytes 4 (of_nat fd0 :: u32)) s3) (\<lambda>(c0, s4).
                 bind_res (if c0 < 0 then Ret (c0, s4)
                           else copyout (pr_pagetable (cur s4)) (fdarray + 4) (le_bytes 4 (of_nat fd1 :: u32)) s4) (\<lambda>(c1, s5).
                 if c1 < 0 then close_both rfile wfile (set_ofile fd1 None (set_ofile fd0 None s5))
                 else Ret (0, s5)))))"

end
