(* ===== verification/Exec.thy ===== *)
theory Exec
  imports Sysfile
begin

text \<open>
  Program images: the user page table of a process (kernel/proc.c), \<open>exec\<close> and \<open>loadseg\<close>
  (kernel/exec.c, kernel/elf.h), and \<open>sys_exec\<close> (kernel/sysfile.c). \<open>trampoline\<close>, the address of
  the code of trampoline.S, is an argument. Argument strings are byte lists without their
  terminating zero; those of \<open>sys_exec\<close> also have the page they are kept in.
\<close>

section \<open>Page tables of processes\<close>

definition proc_pagetable :: "u64 \<Rightarrow> proc \<Rightarrow> 'z kmem_scheme \<Rightarrow> (u64 \<times> 'z kmem_scheme) res" where
  "proc_pagetable trampoline p s =
     bind_res (uvmcreate s) (\<lambda>(pt, s1).
     if pt = 0 then Ret (0, s1)
     else bind_res (mappages pt TRAMPOLINE PGSIZE trampoline (PTE_R OR PTE_X) s1) (\<lambda>(r, s2).
       if r < 0 then bind_res (uvmfree pt 0 s2) (\<lambda>s3. Ret (0, s3))
       else bind_res (mappages pt TRAPFRAME PGSIZE (pr_trapframe p) (PTE_R OR PTE_W) s2) (\<lambda>(q, s3).
         if q < 0 then bind_res (uvmunmap pt TRAMPOLINE 1 False s3) (\<lambda>s4. bind_res (uvmfree pt 0 s4) (\<lambda>s5. Ret (0, s5)))
         else Ret (pt, s3))))"

definition proc_freepagetable :: "u64 \<Rightarrow> u64 \<Rightarrow> 'z kmem_scheme \<Rightarrow> 'z kmem_scheme res" where
  "proc_freepagetable pt sz s =
     bind_res (uvmunmap pt TRAMPOLINE 1 False s) (\<lambda>s1.
     bind_res (uvmunmap pt TRAPFRAME 1 False s1) (uvmfree pt sz))"

section \<open>ELF files\<close>

definition ELF_MAGIC :: u32 where "ELF_MAGIC = 0x464C457F"
definition ELF_PROG_LOAD :: u32 where "ELF_PROG_LOAD = 1"

definition field :: "nat \<Rightarrow> nat \<Rightarrow> byte list \<Rightarrow> 'a::len word" where
  "field off n bs = le_word (take n (drop off bs))"

record elfhdr =
  e_magic :: u32
  e_entry :: u64
  e_phoff :: u64
  e_phnum :: u16

definition get_elfhdr :: "byte list \<Rightarrow> elfhdr" where
  "get_elfhdr bs = \<lparr>e_magic = field 0 4 bs, e_entry = field 24 8 bs, e_phoff = field 32 8 bs, e_phnum = field 56 2 bs\<rparr>"

record proghdr =
  ph_type :: u32
  ph_off :: u64
  ph_vaddr :: u64
  ph_filesz :: u64
  ph_memsz :: u64

definition get_proghdr :: "byte list \<Rightarrow> proghdr" where
  "get_proghdr bs =
     \<lparr>ph_type = field 0 4 bs, ph_off = field 8 8 bs, ph_vaddr = field 16 8 bs, ph_filesz = field 32 8 bs, ph_memsz = field 40 8 bs\<rparr>"

section \<open>Loading\<close>

fun loadseg_loop :: "nat \<Rightarrow> u64 \<Rightarrow> u64 \<Rightarrow> nat \<Rightarrow> u32 \<Rightarrow> u32 \<Rightarrow> u32 \<Rightarrow> 'z fs_scheme \<Rightarrow> (int \<times> 'z fs_scheme) res" where
  "loadseg_loop 0 pt va ip offset sz i s = NoReturn"
| "loadseg_loop (Suc k) pt va ip offset sz i s =
     (if \<not> i < sz then Ret (0, s)
      else bind_res (walkaddr pt (va + ucast i) s) (\<lambda>pa.
        if pa = 0 then Panic ''loadseg: address should exist''
        else let n = (if sz - i < 4096 then sz - i else 4096) in
          bind_res (readi ip False pa (offset + i) n s) (\<lambda>(r, s1).
          if r \<noteq> uint n then Ret (-1, s1) else loadseg_loop k pt va ip offset sz (i + 4096) s1)))"

definition loadseg :: "u64 \<Rightarrow> u64 \<Rightarrow> nat \<Rightarrow> u32 \<Rightarrow> u32 \<Rightarrow> 'z fs_scheme \<Rightarrow> (int \<times> 'z fs_scheme) res" where
  "loadseg pt va ip offset sz s =
     (if va mod PGSIZE \<noteq> 0 then Panic ''loadseg: va must be page aligned''
      else loadseg_loop (unat sz div 4096 + 2) pt va ip offset sz 0 s)"

text \<open>The loop over the program headers; \<open>None\<close>: \<open>goto bad\<close>. Either way the size reached.\<close>

fun load_segments :: "nat \<Rightarrow> u64 \<Rightarrow> nat \<Rightarrow> u32 \<Rightarrow> u64 \<Rightarrow> 'z fs_scheme \<Rightarrow> (bool \<times> u64 \<times> 'z fs_scheme) res" where
  "load_segments 0 pt ip off sz s = Ret (True, sz, s)"
| "load_segments (Suc n) pt ip off sz s =
     bind_res (readi_local ip off 56 s) (\<lambda>(r, bs, s1).
     let ph = get_proghdr bs in
     if r \<noteq> 56 then Ret (False, sz, s1)
     else if ph_type ph \<noteq> ELF_PROG_LOAD then load_segments n pt ip (off + 56) sz s1
     else if ph_memsz ph < ph_filesz ph then Ret (False, sz, s1)
     else if ph_vaddr ph + ph_memsz ph < ph_vaddr ph then Ret (False, sz, s1)
     else bind_res (uvmalloc pt sz (ph_vaddr ph + ph_memsz ph) s1) (\<lambda>(sz1, s2).
       if sz1 = 0 then Ret (False, sz, s2)
       else if ph_vaddr ph mod PGSIZE \<noteq> 0 then Ret (False, sz1, s2)
       else bind_res (loadseg pt (ph_vaddr ph) ip (ucast (ph_off ph)) (ucast (ph_filesz ph)) s2) (\<lambda>(l, s3).
         if l < 0 then Ret (False, sz1, s3) else load_segments n pt ip (off + 56) sz1 s3)))"

text \<open>The argument strings and the array of pointers to them; \<open>None\<close>: \<open>goto bad\<close>.\<close>

definition align16 :: "u64 \<Rightarrow> u64" where
  "align16 sp = sp - sp mod 16"

fun push_strings :: "u64 \<Rightarrow> u64 \<Rightarrow> nat \<Rightarrow> u64 list \<Rightarrow> byte list list \<Rightarrow> u64 \<Rightarrow> 'z kmem_scheme \<Rightarrow> ((u64 \<times> u64 list) option \<times> 'z kmem_scheme) res" where
  "push_strings pt stackbase argc ustack [] sp s = Ret (Some (sp, ustack), s)"
| "push_strings pt stackbase argc ustack (a # args) sp s =
     (if argc \<ge> MAXARG then Ret (None, s)
      else let sp' = align16 (sp - (of_nat (length a) + 1)) in
        if sp' < stackbase then Ret (None, s)
        else bind_res (copyout pt sp' (a @ [0]) s) (\<lambda>(r, s1).
          if r < 0 then Ret (None, s1)
          else push_strings pt stackbase (Suc argc) (ustack @ [sp']) args sp' s1))"

definition push_args :: "u64 \<Rightarrow> u64 \<Rightarrow> byte list list \<Rightarrow> u64 \<Rightarrow> 'z kmem_scheme \<Rightarrow> (u64 option \<times> 'z kmem_scheme) res" where
  "push_args pt stackbase args sp s =
     bind_res (push_strings pt stackbase 0 [] args sp s) (\<lambda>(r, s1).
     case r of None \<Rightarrow> Ret (None, s1)
     | Some (sp1, ustack) \<Rightarrow>
         let sp2 = align16 (sp1 - (of_nat (length ustack) + 1) * 8) in
         if sp2 < stackbase then Ret (None, s1)
         else bind_res (copyout pt sp2 (concat (map (le_bytes 8) (ustack @ [0]))) s1) (\<lambda>(c, s2).
           Ret (if c < 0 then None else Some sp2, s2)))"

text \<open>The program's name: what follows the last slash, 15 bytes of it.\<close>

fun last_elem :: "byte list \<Rightarrow> byte list \<Rightarrow> byte list" where
  "last_elem lst [] = lst"
| "last_elem lst (c # cs) = last_elem (if c = slash then cs else lst) cs"

definition prog_name :: "byte list \<Rightarrow> string" where
  "prog_name path = take 15 (map (\<lambda>c. char_of (unat c)) (last_elem path path))"

section \<open>exec\<close>

text \<open>The label \<open>bad\<close>, with the inode still locked and after it was put.\<close>

definition exec_bad_ip :: "u64 \<Rightarrow> u64 \<Rightarrow> nat \<Rightarrow> 'z fs_scheme \<Rightarrow> (int \<times> 'z fs_scheme) res" where
  "exec_bad_ip pt sz ip s =
     bind_res (if pt = 0 then Ret s else proc_freepagetable pt sz s) (put_and_end ip (-1))"

definition exec_bad :: "u64 \<Rightarrow> u64 \<Rightarrow> 'z kmem_scheme \<Rightarrow> (int \<times> 'z kmem_scheme) res" where
  "exec_bad pt sz s = bind_res (proc_freepagetable pt sz s) (\<lambda>s1. Ret (-1, s1))"

text \<open>From \<open>p->trapframe->a1 = sp\<close> on.\<close>

definition exec_commit :: "byte list \<Rightarrow> nat \<Rightarrow> u64 \<Rightarrow> u64 \<Rightarrow> u64 \<Rightarrow> u64 \<Rightarrow> 'z kmem_scheme \<Rightarrow> (int \<times> 'z kmem_scheme) res" where
  "exec_commit path argc pt sz sp entry s =
     (let s1 = tf_set tf_a1 sp s;
          old = cur s1;
          s2 = s1\<lparr>cur := old\<lparr>pr_name := prog_name path, pr_pagetable := pt, pr_sz := sz\<rparr>\<rparr>;
          s3 = tf_set tf_sp sp (tf_set epc entry s2)
      in bind_res (proc_freepagetable (pr_pagetable old) (pr_sz old) s3) (\<lambda>s4. Ret (int argc, s4)))"

text \<open>The user stack and the arguments, after the file is closed.\<close>

definition exec_stack :: "byte list \<Rightarrow> byte list list \<Rightarrow> u64 \<Rightarrow> u64 \<Rightarrow> u64 \<Rightarrow> 'z kmem_scheme \<Rightarrow> (int \<times> 'z kmem_scheme) res" where
  "exec_stack path args pt sz0 entry s =
     (let sz = PGROUNDUP sz0 in
      bind_res (uvmalloc pt sz (sz + 2 * PGSIZE) s) (\<lambda>(sz1, s1).
      if sz1 = 0 then exec_bad pt sz s1
      else bind_res (uvmclear pt (sz1 - 2 * PGSIZE) s1) (\<lambda>s2.
        bind_res (push_args pt (sz1 - PGSIZE) args sz1 s2) (\<lambda>(r, s3).
        case r of None \<Rightarrow> exec_bad pt sz1 s3
        | Some sp \<Rightarrow> exec_commit path (length args) pt sz1 sp entry s3))))"

definition exec :: "u64 \<Rightarrow> byte list \<Rightarrow> byte list list \<Rightarrow> 'z fs_scheme \<Rightarrow> (int \<times> 'z fs_scheme) res" where
  "exec trampoline path args s =
     bind_res (begin_op s) (\<lambda>s1.
     bind_res (namei path s1) (\<lambda>(r, s2).
     case r of None \<Rightarrow> end_with (-1) s2
     | Some ip \<Rightarrow>
         bind_res (ilock ip s2) (\<lambda>s3.
         bind_res (readi_local ip 0 64 s3) (\<lambda>(n, bs, s4).
         if n \<noteq> 64 \<or> e_magic (get_elfhdr bs) \<noteq> ELF_MAGIC then exec_bad_ip 0 0 ip s4
         else let elf = get_elfhdr bs in
           bind_res (proc_pagetable trampoline (cur s4) s4) (\<lambda>(pt, s5).
           if pt = 0 then exec_bad_ip 0 0 ip s5
           else bind_res (load_segments (unat (e_phnum elf)) pt ip (ucast (e_phoff elf)) 0 s5) (\<lambda>(ok, sz, s6).
             if \<not> ok then exec_bad_ip pt sz ip s6
             else bind_res (iunlockput ip s6) (\<lambda>s7.
               bind_res (end_op s7) (exec_stack path args pt sz (e_entry elf)))))))))"

section \<open>sys_exec\<close>

fun free_argv :: "(u64 \<times> byte list) list \<Rightarrow> 'z kmem_scheme \<Rightarrow> 'z kmem_scheme res" where
  "free_argv [] s = Ret s"
| "free_argv ((a, _) # argv) s = bind_res (kfree a s) (free_argv argv)"

text \<open>The strings fetched, each with its page; the flag says whether the terminating null was
  reached. A page whose string could not be fetched is in the array too.\<close>

fun fetch_argv :: "nat \<Rightarrow> u64 \<Rightarrow> nat \<Rightarrow> (u64 \<times> byte list) list \<Rightarrow> 'z kmem_scheme \<Rightarrow> (bool \<times> (u64 \<times> byte list) list \<times> 'z kmem_scheme) res" where
  "fetch_argv 0 uargv i argv s = Ret (False, argv, s)"
| "fetch_argv (Suc k) uargv i argv s =
     bind_res (fetchaddr (uargv + 8 * of_nat i) s) (\<lambda>ua.
     case ua of None \<Rightarrow> Ret (False, argv, s)
     | Some uarg \<Rightarrow>
         if uarg = 0 then Ret (True, argv, s)
         else bind_res (kalloc s) (\<lambda>(a, s1).
           if a = 0 then Ret (False, argv, s1)
           else bind_res (fetchstr uarg (unat PGSIZE) s1) (\<lambda>st.
             case st of None \<Rightarrow> Ret (False, argv @ [(a, [])], s1)
             | Some str \<Rightarrow> fetch_argv k uargv (Suc i) (argv @ [(a, str)]) s1)))"

definition sys_exec :: "u64 \<Rightarrow> 'z files_scheme \<Rightarrow> (int \<times> 'z files_scheme) res" where
  "sys_exec trampoline s =
     bind_res (argstr 0 MAXPATH s) (\<lambda>p.
     case p of None \<Rightarrow> Ret (-1, s)
     | Some path \<Rightarrow>
         bind_res (argaddr 1 s) (\<lambda>uargv.
         bind_res (fetch_argv MAXARG uargv 0 [] s) (\<lambda>(ok, argv, s1).
         bind_res (if ok then exec trampoline path (map snd argv) s1 else Ret (-1, s1)) (\<lambda>(ret, s2).
         bind_res (free_argv argv s2) (\<lambda>s3. Ret (ret, s3))))))"

end
