(* ===== verification/Cache.thy ===== *)
theory Cache
  imports Log
begin

text \<open>
  What the buffer cache promises to the layers above it. \<open>cinv\<close> is the invariant of the cache for
  one device: the buffers are in one ring, no two hold the same block, and a buffer nobody holds
  agrees with the disk. \<open>view\<close> is the contents of a block as \<open>bread\<close> sees it. \<open>bread\<close> locks a buffer
  with the view of the block, \<open>brelse\<close> gives it back, and neither changes a view.
\<close>

section \<open>Invariant and view\<close>

definition keyed :: "u32 \<Rightarrow> u32 \<Rightarrow> buf \<Rightarrow> bool" where
  "keyed d n x \<longleftrightarrow> b_dev x = d \<and> b_blockno x = n"

definition cache_ring :: "(nat \<Rightarrow> buf) \<Rightarrow> nat list \<Rightarrow> bool" where
  "cache_ring f xs \<longleftrightarrow> bring f xs \<and> set xs = {..<NBUF}"

text \<open>\<open>L\<close>: the buffers locked, all by the process \<open>pid\<close>.\<close>

definition cinv :: "u32 \<Rightarrow> int \<Rightarrow> nat set \<Rightarrow> (nat \<Rightarrow> buf) \<Rightarrow> (u32 \<Rightarrow> byte list) \<Rightarrow> bool" where
  "cinv d pid L f D \<longleftrightarrow>
     (\<exists>xs. cache_ring f xs) \<and>
     (\<forall>b<NBUF. \<forall>c<NBUF. \<forall>n. keyed d n (f b) \<and> keyed d n (f c) \<longrightarrow> b = c) \<and>
     (\<forall>b<NBUF. b_dev (f b) = d \<and> b_valid (f b) \<and> b_refcnt (f b) = 0 \<longrightarrow> b_data (f b) = D (b_blockno (f b))) \<and>
     (\<forall>b<NBUF. sl_locked (b_lock (f b)) \<longleftrightarrow> b \<in> L) \<and>
     (\<forall>b\<in>L. b < NBUF \<and> b_refcnt (f b) \<noteq> 0 \<and> b_lock (f b) = \<lparr>sl_locked = True, sl_pid = pid\<rparr>)"

definition view :: "u32 \<Rightarrow> (nat \<Rightarrow> buf) \<Rightarrow> (u32 \<Rightarrow> byte list) \<Rightarrow> u32 \<Rightarrow> byte list" where
  "view d f D n =
     (case find (\<lambda>b. keyed d n (f b) \<and> b_valid (f b)) [0..<NBUF] of Some b \<Rightarrow> b_data (f b) | None \<Rightarrow> D n)"

definition busy :: "(nat \<Rightarrow> buf) \<Rightarrow> nat set" where
  "busy f = {b. b < NBUF \<and> b_refcnt (f b) \<noteq> 0}"

definition cache_free :: "'z kctx_scheme \<Rightarrow> bool" where
  "cache_free s \<longleftrightarrow> L_bcache \<notin> set (held s) \<and> (\<forall>b. L_sleep_buf b \<notin> set (held s))"

lemma cinv_unique: "cinv d pid L f D \<Longrightarrow> keyed d n (f b) \<Longrightarrow> keyed d n (f c) \<Longrightarrow> b < NBUF \<Longrightarrow> c < NBUF \<Longrightarrow> b = c"
  unfolding cinv_def by blast

lemma cinv_coherent:
  "cinv d pid L f D \<Longrightarrow> b < NBUF \<Longrightarrow> keyed d n (f b) \<Longrightarrow> b_valid (f b) \<Longrightarrow> b_refcnt (f b) = 0 \<Longrightarrow> b_data (f b) = D n"
  by (auto simp: cinv_def keyed_def)

lemma cinv_locked:
  "cinv d pid L f D \<Longrightarrow> b \<in> L \<Longrightarrow> b < NBUF \<and> b_refcnt (f b) \<noteq> 0 \<and> b_lock (f b) = \<lparr>sl_locked = True, sl_pid = pid\<rparr>"
  by (simp add: cinv_def)

lemma cinv_unlocked: "cinv d pid L f D \<Longrightarrow> b < NBUF \<Longrightarrow> b \<notin> L \<Longrightarrow> \<not> sl_locked (b_lock (f b))"
  by (simp add: cinv_def)

lemma find_SomeD: "find P ys = Some c \<Longrightarrow> c \<in> set ys \<and> P c"
  by (induction ys) (auto split: if_splits)

lemma find_range_Some: "find P [0..<k] = Some b \<Longrightarrow> b < k \<and> P b"
  by (auto simp: find_Some_iff)

lemma find_range_None: "find P [0..<k] = None \<longleftrightarrow> (\<forall>b<k. \<not> P b)"
  by (auto simp: find_None_iff)

lemma view_cached:
  assumes "cinv d pid L f D" and "b < NBUF" and "keyed d n (f b)"
  shows "view d f D n = (if b_valid (f b) then b_data (f b) else D n)"
proof (cases "find (\<lambda>b. keyed d n (f b) \<and> b_valid (f b)) [0..<NBUF]")
  case None
  then have "\<not> b_valid (f b)" using assms(2,3) by (auto simp: find_range_None)
  with None show ?thesis by (simp add: view_def)
next
  case (Some c)
  then have "c < NBUF" "keyed d n (f c)" "b_valid (f c)" using find_range_Some by fastforce+
  moreover from this have "c = b" using cinv_unique [OF assms(1)] assms(2,3) by blast
  ultimately show ?thesis using Some by (simp add: view_def)
qed

lemma view_uncached: "\<not> (\<exists>b<NBUF. keyed d n (f b)) \<Longrightarrow> view d f D n = D n"
  by (auto simp: view_def find_range_None split: option.split dest: find_range_Some)

lemma view_cong:
  assumes "\<And>b. b < NBUF \<Longrightarrow> b_dev (f b) = b_dev (g b) \<and> b_blockno (f b) = b_blockno (g b) \<and> b_valid (f b) = b_valid (g b) \<and> b_data (f b) = b_data (g b)"
  shows "view d f D = view d g D"
proof
  fix n
  have "find (\<lambda>b. keyed d n (f b) \<and> b_valid (f b)) [0..<NBUF] = find (\<lambda>b. keyed d n (g b) \<and> b_valid (g b)) [0..<NBUF]"
    using assms by (intro find_cong refl) (simp add: keyed_def)
  with assms show "view d f D n = view d g D n"
    by (auto simp: view_def split: option.split dest!: find_range_Some)
qed

section \<open>Getting a buffer\<close>

declare bget_cached.simps [simp del] bget_lru.simps [simp del]

lemma sleep_field_block: "sleep_field (get_block b) (put_block b)"
  by (simp add: sleep_field_def get_block_def put_block_def upd_buf_def)

lemma ring_next:
  assumes "cache_ring f xs"
  shows "linked f (xs @ [bhead]) \<and> bhead \<notin> set xs \<and> length xs = NBUF \<and> b_next (f bhead) = hd (xs @ [bhead])"
proof -
  have "length xs = NBUF" using assms by (metis bring_def cache_ring_def card_lessThan distinct_card)
  moreover have "linked f (xs @ [bhead])" "b_next (f bhead) = hd (xs @ [bhead])" "bhead \<notin> set xs"
    using assms by (cases xs; simp add: cache_ring_def bring_def)+
  ultimately show ?thesis by blast
qed

lemma ring_prev:
  assumes "cache_ring f xs"
  shows "linked f (bhead # xs) \<and> b_prev (f bhead) = last (bhead # xs)"
proof -
  obtain us p where p: "bhead # xs = us @ [p]" by (metis append_butlast_last_id list.discI)
  have "linked f (us @ p # [bhead])" using assms p unfolding cache_ring_def bring_def by (metis append.assoc append_Cons append_Nil)
  then show ?thesis unfolding p linked_append [of f us p "[bhead]"] by simp
qed

definition bget_hit :: "u32 \<Rightarrow> u32 \<Rightarrow> (nat \<Rightarrow> buf) \<Rightarrow> nat list \<Rightarrow> nat option" where
  "bget_hit d n f xs = find (\<lambda>b. keyed d n (f b)) xs"

definition bget_victim :: "(nat \<Rightarrow> buf) \<Rightarrow> nat list \<Rightarrow> nat option" where
  "bget_victim f xs = find (\<lambda>b. b_refcnt (f b) = 0) (rev xs)"

lemma bget_searches:
  assumes "cache_ring (bufs s) xs"
  shows "bget_cached (Suc NBUF) d n (b_next (bufs s bhead)) s = Ret (bget_hit d n (bufs s) xs)"
    and "bget_lru (Suc NBUF) (b_prev (bufs s bhead)) s = Ret (bget_victim (bufs s) xs)"
  using linked_find_next [of s xs "Suc NBUF" d n] linked_find_prev [of s xs "Suc NBUF"] ring_next [OF assms] ring_prev [OF assms]
  by (simp_all add: bget_hit_def bget_victim_def keyed_def)

text \<open>What \<open>bget\<close> makes of the buffer it finds, and of the one it recycles.\<close>

definition hit_buf :: "int \<Rightarrow> buf \<Rightarrow> buf" where
  "hit_buf pid x = x\<lparr>b_refcnt := b_refcnt x + 1, b_lock := \<lparr>sl_locked = True, sl_pid = pid\<rparr>\<rparr>"

definition new_buf :: "int \<Rightarrow> u32 \<Rightarrow> u32 \<Rightarrow> buf \<Rightarrow> buf" where
  "new_buf pid d n x = x\<lparr>b_dev := d, b_blockno := n, b_valid := False, b_refcnt := 1, b_lock := \<lparr>sl_locked = True, sl_pid = pid\<rparr>\<rparr>"

lemma bufs_held [simp]: "bufs (s\<lparr>held := h\<rparr>) = bufs s"
  by simp

lemma lock_block:
  assumes "L_sleep_buf b \<notin> set (held s)" and "\<not> sl_locked (b_lock (bufs s b))"
  shows "acquiresleep (L_sleep_buf b) (get_block b) (put_block b) s =
    Ret (upd_buf b (\<lambda>x. x\<lparr>b_lock := \<lparr>sl_locked = True, sl_pid = pr_pid (cur s)\<rparr>\<rparr>) s)"
  using acquiresleep_free [OF sleep_field_block assms(1)] assms(2) by (simp add: get_block_def put_block_def)

lemma lock_block_taken:
  assumes "L_sleep_buf b \<notin> set (held s)" and "sl_locked (b_lock (bufs s b))"
  shows "acquiresleep (L_sleep_buf b) (get_block b) (put_block b) s = Block (ChSleep (L_sleep_buf b))"
  using assms by (intro acquiresleep_taken [OF sleep_field_block]) (simp_all add: get_block_def)

lemma bget_spec:
  assumes "cache_ring (bufs s) xs" and "cache_free s"
  shows "bget d n s =
    (case bget_hit d n (bufs s) xs of
       Some b \<Rightarrow> if sl_locked (b_lock (bufs s b)) then Block (ChSleep (L_sleep_buf b))
                 else Ret (b, s\<lparr>bufs := (bufs s)(b := hit_buf (pr_pid (cur s)) (bufs s b))\<rparr>)
     | None \<Rightarrow>
         (case bget_victim (bufs s) xs of
            Some b \<Rightarrow> if sl_locked (b_lock (bufs s b)) then Block (ChSleep (L_sleep_buf b))
                      else Ret (b, s\<lparr>bufs := (bufs s)(b := new_buf (pr_pid (cur s)) d n (bufs s b))\<rparr>)
          | None \<Rightarrow> Panic ''bget: no buffers''))"
proof -
  let ?s1 = "s\<lparr>held := L_bcache # held s\<rparr>"
  have free: "L_bcache \<notin> set (held s)" "\<And>b. L_sleep_buf b \<notin> set (held s)" using assms(2) by (simp_all add: cache_free_def)
  have r: "cache_ring (bufs ?s1) xs" using assms(1) by simp
  have rel: "lock_release L_bcache (upd_buf b h ?s1) = Ret (upd_buf b h s)" for b h
    by (simp add: upd_buf_def)
  note srch = bget_searches [OF r, unfolded bufs_held]
  have acq: "bind_res (acquiresleep (L_sleep_buf b) (get_block b) (put_block b) (upd_buf b h s)) (\<lambda>s3. Ret (b, s3)) =
      (if sl_locked (b_lock (bufs s b)) then Block (ChSleep (L_sleep_buf b))
       else Ret (b, s\<lparr>bufs := (bufs s)(b := (h (bufs s b))\<lparr>b_lock := \<lparr>sl_locked = True, sl_pid = pr_pid (cur s)\<rparr>\<rparr>)\<rparr>))"
    if "\<And>x. b_lock (h x) = b_lock x" for b h
    using lock_block [of b "upd_buf b h s"] lock_block_taken [of b "upd_buf b h s"] free that by (simp add: upd_buf_def)
  show ?thesis
    unfolding bget_def lock_acquire_free [OF free(1)] bind_res_simps bufs_held srch
    by (auto simp: rel acq hit_buf_def new_buf_def split: option.split)
qed

section \<open>Reading a block\<close>

lemma bring_links: "bring f xs \<Longrightarrow> (\<And>x. b_next (g x) = b_next (f x)) \<Longrightarrow> (\<And>x. b_prev (g x) = b_prev (f x)) \<Longrightarrow> bring g xs"
  using bring_cong [of g f xs] by simp

lemma cinv_lock:
  assumes "cinv d pid L f D" and "b < NBUF" and "keyed d n x" and "\<And>c. c < NBUF \<Longrightarrow> c \<noteq> b \<Longrightarrow> \<not> keyed d n (f c)"
    and "b_refcnt x \<noteq> 0" and "b_lock x = \<lparr>sl_locked = True, sl_pid = pid\<rparr>" and "b_next x = b_next (f b)" and "b_prev x = b_prev (f b)"
  shows "cinv d pid (insert b L) (f(b := x)) D"
proof -
  obtain xs where "bring f xs" "set xs = {..<NBUF}" using assms(1) by (auto simp: cinv_def cache_ring_def)
  moreover from this(1) have "bring (f(b := x)) xs" by (rule bring_links) (simp_all add: assms)
  ultimately have ring: "\<exists>xs. cache_ring (f(b := x)) xs" by (auto simp: cache_ring_def)
  have key: "keyed d m x \<longleftrightarrow> m = n" for m using assms(3) by (auto simp: keyed_def)
  have uniq: "\<forall>c<NBUF. \<forall>e<NBUF. \<forall>m. keyed d m ((f(b := x)) c) \<and> keyed d m ((f(b := x)) e) \<longrightarrow> c = e"
    using assms(4) cinv_unique [OF assms(1)] by (auto simp: key)
  have rest: "\<forall>c<NBUF. b_dev ((f(b := x)) c) = d \<and> b_valid ((f(b := x)) c) \<and> b_refcnt ((f(b := x)) c) = 0 \<longrightarrow>
      b_data ((f(b := x)) c) = D (b_blockno ((f(b := x)) c))"
    "\<forall>c<NBUF. sl_locked (b_lock ((f(b := x)) c)) \<longleftrightarrow> c \<in> insert b L"
    "\<forall>c\<in>insert b L. c < NBUF \<and> b_refcnt ((f(b := x)) c) \<noteq> 0 \<and> b_lock ((f(b := x)) c) = \<lparr>sl_locked = True, sl_pid = pid\<rparr>"
    using assms(1,2,5,6) by (simp_all add: cinv_def)
  show ?thesis unfolding cinv_def using ring uniq rest by blast
qed

lemma view_lock:
  assumes "cinv d pid L f D" and "b < NBUF" and "keyed d n x" and "\<And>c. c < NBUF \<Longrightarrow> c \<noteq> b \<Longrightarrow> \<not> keyed d n (f c)" and "b_valid x"
    and "b_refcnt (f b) = 0 \<or> keyed d n (f b)" and "cinv d pid' L' (f(b := x)) D"
  shows "view d (f(b := x)) D = (view d f D)(n := b_data x)"
proof
  fix m
  let ?g = "f(b := x)"
  consider "m = n" | c where "m \<noteq> n" "c < NBUF" "c \<noteq> b" "keyed d m (f c)" | "m \<noteq> n" "keyed d m (f b)"
    | "m \<noteq> n" "\<not> (\<exists>c<NBUF. keyed d m (f c))" using assms(2) by blast
  then show "view d ?g D m = ((view d f D)(n := b_data x)) m"
  proof cases
    case 1
    then show ?thesis using view_cached [OF assms(7,2)] assms(3,5) by simp
  next
    case (2 c)
    then show ?thesis using view_cached [OF assms(7), of c m] view_cached [OF assms(1), of c m] by simp
  next
    case 3
    then have r: "b_refcnt (f b) = 0" using assms(6) by (auto simp: keyed_def)
    have "view d f D m = D m" using view_cached [OF assms(1,2) 3(2)] cinv_coherent [OF assms(1,2) 3(2) _ r] by simp
    moreover have "\<not> (\<exists>c<NBUF. keyed d m (?g c))"
      using 3 assms(3) cinv_unique [OF assms(1)] assms(2) by (auto simp: keyed_def)
    ultimately show ?thesis using 3(1) view_uncached by simp
  next
    case 4
    then have "\<not> (\<exists>c<NBUF. keyed d m (?g c))" using assms(3) by (auto simp: keyed_def)
    with 4 show ?thesis using view_uncached by simp
  qed
qed

lemma find_hit:
  assumes "cinv d pid L f D" and "cache_ring f xs" and "b < NBUF" and "keyed d n (f b)"
  shows "bget_hit d n f xs = Some b"
proof (cases "bget_hit d n f xs")
  case None
  then show ?thesis using assms(2-4) by (auto simp: bget_hit_def cache_ring_def find_None_iff)
next
  case (Some c)
  then have "c \<in> set xs" "keyed d n (f c)" unfolding bget_hit_def by (auto dest: find_SomeD)
  then show ?thesis using Some cinv_unique [OF assms(1,4)] assms(2,3) by (auto simp: cache_ring_def)
qed

lemma find_victim:
  assumes "cache_ring f xs" and "b < NBUF" and "b_refcnt (f b) = 0"
  shows "\<exists>v. bget_victim f xs = Some v \<and> v < NBUF \<and> b_refcnt (f v) = 0"
proof (cases "bget_victim f xs")
  case None
  then show ?thesis using assms by (auto simp: bget_victim_def cache_ring_def find_None_iff)
next
  case (Some c)
  then have "c \<in> set xs" "b_refcnt (f c) = 0" unfolding bget_victim_def by (auto dest: find_SomeD)
  then show ?thesis using Some assms(1) by (simp add: cache_ring_def)
qed

text \<open>What \<open>bread\<close> returns: a buffer locked for the caller, with the block's contents.\<close>

definition read_buf :: "u32 \<Rightarrow> int \<Rightarrow> u32 \<Rightarrow> byte list \<Rightarrow> buf \<Rightarrow> buf \<Rightarrow> bool" where
  "read_buf d pid n v old x \<longleftrightarrow>
     keyed d n x \<and> b_valid x \<and> b_data x = v \<and> b_refcnt x = b_refcnt old + 1 \<and>
     b_lock x = \<lparr>sl_locked = True, sl_pid = pid\<rparr> \<and> b_next x = b_next old \<and> b_prev x = b_prev old \<and>
     (b_refcnt old = 0 \<or> keyed d n old)"

lemma bread_spec:
  assumes inv: "cinv d pid L (bufs s) (disk s)" and free: "cache_free s" and pid: "pid = pr_pid (cur s)"
    and nl: "\<And>b. b \<in> L \<Longrightarrow> \<not> keyed d n (bufs s b)"
    and room: "(\<exists>b<NBUF. keyed d n (bufs s b)) \<or> (\<exists>b<NBUF. b_refcnt (bufs s b) = 0)"
  shows "\<exists>b x. bread d n s = Ret (b, s\<lparr>bufs := (bufs s)(b := x)\<rparr>) \<and> b < NBUF \<and> b \<notin> L \<and>
    (\<forall>c<NBUF. c \<noteq> b \<longrightarrow> \<not> keyed d n (bufs s c)) \<and> read_buf d pid n (view d (bufs s) (disk s) n) (bufs s b) x"
proof -
  obtain xs where xs: "cache_ring (bufs s) xs" using inv by (auto simp: cinv_def)
  note bg = bget_spec [OF xs free, of d n]
  show ?thesis
  proof (cases "\<exists>b<NBUF. keyed d n (bufs s b)")
    case True
    then obtain b where b: "b < NBUF" "keyed d n (bufs s b)" by blast
    then have "b \<notin> L" "\<not> sl_locked (b_lock (bufs s b))" using nl cinv_unlocked [OF inv] by blast+
    with bg b find_hit [OF inv xs b] have g: "bget d n s = Ret (b, s\<lparr>bufs := (bufs s)(b := hit_buf pid (bufs s b))\<rparr>)"
      by (simp add: pid)
    let ?x = "if b_valid (bufs s b) then hit_buf pid (bufs s b) else (hit_buf pid (bufs s b))\<lparr>b_data := disk s n, b_valid := True\<rparr>"
    have "bread d n s = Ret (b, s\<lparr>bufs := (bufs s)(b := ?x)\<rparr>)"
      using b(2) by (simp add: bread_def g hit_buf_def keyed_def disk_rw_def upd_buf_def)
    moreover have "read_buf d pid n (view d (bufs s) (disk s) n) (bufs s b) ?x"
      using b(2) view_cached [OF inv b] by (simp add: read_buf_def hit_buf_def keyed_def)
    ultimately show ?thesis using b \<open>b \<notin> L\<close> cinv_unique [OF inv b(2)] by blast
  next
    case False
    then have "bget_hit d n (bufs s) xs = None" using xs by (auto simp: bget_hit_def find_None_iff cache_ring_def)
    moreover obtain v where v: "bget_victim (bufs s) xs = Some v" "v < NBUF" "b_refcnt (bufs s v) = 0"
      using find_victim [OF xs] room False by blast
    moreover have nv: "v \<notin> L" using cinv_locked [OF inv] v(3) by blast
    moreover from this have "\<not> sl_locked (b_lock (bufs s v))" using cinv_unlocked [OF inv v(2)] by blast
    ultimately have g: "bget d n s = Ret (v, s\<lparr>bufs := (bufs s)(v := new_buf pid d n (bufs s v))\<rparr>)"
      using bg by (simp add: pid)
    let ?x = "(new_buf pid d n (bufs s v))\<lparr>b_data := view d (bufs s) (disk s) n, b_valid := True\<rparr>"
    have "bread d n s = Ret (v, s\<lparr>bufs := (bufs s)(v := ?x)\<rparr>)"
      using view_uncached [OF False, of "disk s"] by (simp add: bread_def g new_buf_def disk_rw_def upd_buf_def)
    moreover have "read_buf d pid n (view d (bufs s) (disk s) n) (bufs s v) ?x"
      using v(3) by (simp add: read_buf_def new_buf_def keyed_def)
    ultimately show ?thesis using v(2) nv False by blast
  qed
qed

section \<open>The operations on the state\<close>

definition cst :: "u32 \<Rightarrow> nat set \<Rightarrow> 'z blocks_scheme \<Rightarrow> bool" where
  "cst d L s \<longleftrightarrow> cinv d (pr_pid (cur s)) L (bufs s) (disk s) \<and> cache_free s"

definition vw :: "u32 \<Rightarrow> 'z blocks_scheme \<Rightarrow> u32 \<Rightarrow> byte list" where
  "vw d s = view d (bufs s) (disk s)"

text \<open>Nothing but the cache, the disk and the wakeups differs.\<close>

definition cache_frame :: "'z blocks_scheme \<Rightarrow> 'z blocks_scheme \<Rightarrow> bool" where
  "cache_frame s s' \<longleftrightarrow> (\<exists>w f D l. s' = s\<lparr>wakes := w, bufs := f, disk := D, disk_log := l\<rparr>)"

text \<open>The block a buffer is for and its contents.\<close>

definition same_block :: "buf \<Rightarrow> buf \<Rightarrow> bool" where
  "same_block x y \<longleftrightarrow> b_dev x = b_dev y \<and> b_blockno x = b_blockno y \<and> b_valid x = b_valid y \<and> b_data x = b_data y"

lemma cache_frame_refl [simp]: "cache_frame s s"
proof -
  have "s = s\<lparr>wakes := wakes s, bufs := bufs s, disk := disk s, disk_log := disk_log s\<rparr>" by simp
  then show ?thesis unfolding cache_frame_def by blast
qed

lemma cache_frame_trans [trans]:
  assumes "cache_frame s t" and "cache_frame t u"
  shows "cache_frame s u"
proof -
  obtain w f D l where "t = s\<lparr>wakes := w, bufs := f, disk := D, disk_log := l\<rparr>" using assms(1) by (auto simp: cache_frame_def)
  moreover obtain w' f' D' l' where "u = t\<lparr>wakes := w', bufs := f', disk := D', disk_log := l'\<rparr>" using assms(2) by (auto simp: cache_frame_def)
  ultimately have "u = s\<lparr>wakes := w', bufs := f', disk := D', disk_log := l'\<rparr>" by simp
  then show ?thesis unfolding cache_frame_def by blast
qed

lemma cst_locked:
  assumes "cst d L s" and "b \<in> L"
  shows "b < NBUF" "b_refcnt (bufs s b) \<noteq> 0" "b_lock (bufs s b) = \<lparr>sl_locked = True, sl_pid = pr_pid (cur s)\<rparr>"
  using assms cinv_locked [of d _ L "bufs s" "disk s" b] by (auto simp: cst_def)

lemma bread_cst:
  assumes c: "cst d L s" and nl: "\<And>b. b \<in> L \<Longrightarrow> \<not> keyed d n (bufs s b)"
    and room: "(\<exists>b<NBUF. keyed d n (bufs s b)) \<or> (\<exists>b<NBUF. b_refcnt (bufs s b) = 0)"
    and ov: "\<And>b. b < NBUF \<Longrightarrow> b_refcnt (bufs s b) + 1 \<noteq> 0"
  shows "\<exists>b x s'. bread d n s = Ret (b, s') \<and> s' = s\<lparr>bufs := (bufs s)(b := x)\<rparr> \<and> cst d (insert b L) s' \<and> vw d s' = vw d s \<and>
    b < NBUF \<and> b \<notin> L \<and> keyed d n x \<and> b_valid x \<and> b_data x = vw d s n \<and> b_refcnt x = b_refcnt (bufs s b) + 1 \<and>
    (b_refcnt (bufs s b) = 0 \<or> keyed d n (bufs s b))"
proof -
  have inv: "cinv d (pr_pid (cur s)) L (bufs s) (disk s)" and free: "cache_free s" using c by (simp_all add: cst_def)
  obtain b x where b: "bread d n s = Ret (b, s\<lparr>bufs := (bufs s)(b := x)\<rparr>)" "b < NBUF" "b \<notin> L"
    and u: "\<And>c. c < NBUF \<Longrightarrow> c \<noteq> b \<Longrightarrow> \<not> keyed d n (bufs s c)"
    and r: "read_buf d (pr_pid (cur s)) n (view d (bufs s) (disk s) n) (bufs s b) x"
    using bread_spec [OF inv free refl nl room] by blast
  have i: "cinv d (pr_pid (cur s)) (insert b L) ((bufs s)(b := x)) (disk s)"
    using r b(2) ov by (intro cinv_lock [OF inv b(2) _ u]) (auto simp: read_buf_def)
  have "view d ((bufs s)(b := x)) (disk s) = (view d (bufs s) (disk s))(n := b_data x)"
    using r by (intro view_lock [OF inv b(2) _ u _ _ i]) (auto simp: read_buf_def)
  then have "view d ((bufs s)(b := x)) (disk s) = view d (bufs s) (disk s)"
    using r by (simp add: read_buf_def)
  with i free b r show ?thesis
    by (intro exI [of _ b] exI [of _ x] exI [of _ "s\<lparr>bufs := (bufs s)(b := x)\<rparr>"]) (simp add: cst_def vw_def read_buf_def cache_free_def)
qed

lemma cinv_disk:
  assumes "cinv d pid L f D" and "\<And>b. b < NBUF \<Longrightarrow> b_dev (f b) = d \<Longrightarrow> b_refcnt (f b) = 0 \<Longrightarrow> D' (b_blockno (f b)) = D (b_blockno (f b))"
  shows "cinv d pid L f D'"
proof -
  have "\<forall>b<NBUF. b_dev (f b) = d \<and> b_valid (f b) \<and> b_refcnt (f b) = 0 \<longrightarrow> b_data (f b) = D' (b_blockno (f b))"
    using assms by (simp add: cinv_def)
  with assms(1) show ?thesis unfolding cinv_def by blast
qed

text \<open>Changing the data of a locked buffer and writing it: the disk and the view get it.\<close>

lemma holds_block:
  assumes "cst d L s" and "b \<in> L"
  shows "holdingsleep (L_sleep_buf b) (get_block b) s = Ret (True, s)"
  using holdingsleep_free [OF sleep_field_block [of b], of "L_sleep_buf b" s] cst_locked [OF assms] assms(1)
  by (simp add: get_block_def cst_def cache_free_def)

lemma bwrite_cst:
  fixes v :: "byte list" and s :: "'z blocks_scheme"
  assumes c: "cst d L s" and b: "b \<in> L" "keyed d n (bufs s b)" "b_valid (bufs s b)"
  defines "x \<equiv> (bufs s b)\<lparr>b_data := v\<rparr>"
  defines "s' \<equiv> s\<lparr>bufs := (bufs s)(b := x), disk := (disk s)(n := v), disk_log := disk_log s @ [(n, v)]\<rparr>"
  shows "bwrite b (set_data b v s) = Ret s'" and "cst d L s'" and "vw d s' = (vw d s)(n := v)"
proof -
  have inv: "cinv d (pr_pid (cur s)) L (bufs s) (disk s)" and free: "cache_free s" using c by (simp_all add: cst_def)
  note l = cst_locked [OF c b(1)]
  have u: "\<And>e. e < NBUF \<Longrightarrow> e \<noteq> b \<Longrightarrow> \<not> keyed d n (bufs s e)" using cinv_unique [OF inv b(2)] l(1) by blast
  have k: "keyed d n x" "b_valid x" "b_refcnt x \<noteq> 0" "b_next x = b_next (bufs s b)" "b_prev x = b_prev (bufs s b)"
    "b_lock x = \<lparr>sl_locked = True, sl_pid = pr_pid (cur s)\<rparr>" "b_data x = v"
    using b l by (simp_all add: x_def keyed_def)
  have L: "insert b L = L" using b(1) by blast
  have i1: "cinv d (pr_pid (cur s)) L ((bufs s)(b := x)) (disk s)"
    using cinv_lock [OF inv l(1) k(1) _ k(3,6,4,5)] u by (metis L)
  have v1: "view d ((bufs s)(b := x)) (disk s) = (view d (bufs s) (disk s))(n := v)"
    using view_lock [OF inv l(1) k(1) _ k(2) disjI2 [OF b(2)] i1] u k(7) by metis
  have c1: "cst d L (s\<lparr>bufs := (bufs s)(b := x)\<rparr>)" using i1 free by (simp add: cst_def cache_free_def)
  have sd: "set_data b v s = s\<lparr>bufs := (bufs s)(b := x)\<rparr>" by (simp add: set_data_def upd_buf_def x_def)
  show "bwrite b (set_data b v s) = Ret s'"
    using holds_block [OF c1 b(1)] b(2) by (simp add: bwrite_def sd disk_rw_def x_def keyed_def s'_def)
  have "\<And>e. e < NBUF \<Longrightarrow> b_dev (((bufs s)(b := x)) e) = d \<Longrightarrow> b_blockno (((bufs s)(b := x)) e) = n \<Longrightarrow> e = b"
    using u by (auto simp: keyed_def split: if_splits)
  then have i2: "cinv d (pr_pid (cur s)) L ((bufs s)(b := x)) ((disk s)(n := v))"
    using k(3) by (intro cinv_disk [OF i1]) (metis fun_upd_apply)
  then show "cst d L s'" using free by (simp add: cst_def s'_def cache_free_def)
  show "vw d s' = (vw d s)(n := v)"
  proof
    fix m
    show "vw d s' m = ((vw d s)(n := v)) m"
    proof (cases "m = n")
      case True
      then show ?thesis using view_cached [OF i2 l(1), of n] k by (simp add: vw_def s'_def)
    next
      case False
      then have "view d ((bufs s)(b := x)) ((disk s)(n := v)) m = view d ((bufs s)(b := x)) (disk s) m"
        by (simp add: view_def split: option.split)
      with False show ?thesis by (simp add: vw_def s'_def v1)
    qed
  qed
qed

section \<open>Giving a buffer back\<close>

definition strip :: "buf \<Rightarrow> buf" where
  "strip x = x\<lparr>b_prev := 0, b_next := 0\<rparr>"

lemma relink_frame: "link_front b (unlink b s) = s\<lparr>bufs := bufs (link_front b (unlink b s))\<rparr>"
  by (simp add: link_front_def unlink_def set_bnext_def set_bprev_def upd_buf_def Let_def)

lemma strip_links [simp]: "strip (x\<lparr>b_next := v\<rparr>) = strip x" "strip (x\<lparr>b_prev := v\<rparr>) = strip x"
  by (simp_all add: strip_def)

lemma strip_fields:
  assumes "strip x = strip y"
  shows "same_block x y" "b_refcnt x = b_refcnt y" "b_lock x = b_lock y"
  using assms by (cases x; cases y; simp add: strip_def same_block_def)+

lemma strip_set: "strip (bufs (set_bnext b v s) c) = strip (bufs s c)" "strip (bufs (set_bprev b v s) c) = strip (bufs s c)"
  by simp_all

lemma relink_strip: "strip (bufs (link_front b (unlink b s)) c) = strip (bufs s c)"
  unfolding link_front_def unlink_def Let_def strip_set ..

lemma relink_ring:
  assumes "cache_ring (bufs s) xs" and "b < NBUF"
  shows "cache_ring (bufs (link_front b (unlink b s))) (b # remove1 b xs)"
proof -
  obtain us vs where uv: "xs = us @ b # vs" "b \<notin> set us" using assms by (metis cache_ring_def lessThan_iff split_list_first)
  have r: "bring (bufs s) (us @ b # vs)" and set: "set xs = {..<NBUF}" using assms(1) by (simp_all add: cache_ring_def uv)
  then have "b \<notin> set (us @ vs)" by (auto simp: bring_def)
  then have "bring (bufs (link_front b (unlink b s))) (b # us @ vs)"
    using assms(2) by (intro link_front_ring [OF unlink_ring [OF r]]) auto
  moreover have "set (b # us @ vs) = {..<NBUF}" using set uv by auto
  ultimately show ?thesis using uv by (simp add: cache_ring_def remove1_append)
qed

text \<open>\<open>brelse\<close> by the last holder moves the buffer to the front of the list.\<close>

lemma brelse_ring:
  assumes "cache_ring (bufs s) xs" and "cache_free s" and "b < NBUF" and "b_lock (bufs s b) = \<lparr>sl_locked = True, sl_pid = pr_pid (cur s)\<rparr>"
  shows "\<exists>f. brelse b s = Ret (s\<lparr>wakes := wakes s @ [ChSleep (L_sleep_buf b)], bufs := f\<rparr>) \<and>
    cache_ring f (if b_refcnt (bufs s b) = 1 then b # remove1 b xs else xs) \<and>
    (\<forall>c. strip (f c) = strip (((bufs s)(b := (bufs s b)\<lparr>b_lock := \<lparr>sl_locked = False, sl_pid = 0\<rparr>, b_refcnt := b_refcnt (bufs s b) - 1\<rparr>)) c))"
proof -
  let ?y = "(bufs s b)\<lparr>b_lock := \<lparr>sl_locked = False, sl_pid = 0\<rparr>, b_refcnt := b_refcnt (bufs s b) - 1\<rparr>"
  let ?s3 = "s\<lparr>wakes := wakes s @ [ChSleep (L_sleep_buf b)], bufs := (bufs s)(b := ?y)\<rparr>"
  let ?t = "s\<lparr>wakes := wakes s @ [ChSleep (L_sleep_buf b)], held := L_bcache # held s, bufs := (bufs s)(b := ?y)\<rparr>"
  have free: "L_bcache \<notin> set (held s)" "L_sleep_buf b \<notin> set (held s)" using assms(2) by (simp_all add: cache_free_def)
  have h: "holdingsleep (L_sleep_buf b) (get_block b) s = Ret (True, s)"
    using holdingsleep_free [OF sleep_field_block [of b] free(2)] assms(4) by (simp add: get_block_def)
  have rs: "releasesleep (L_sleep_buf b) (get_block b) (put_block b) s =
      Ret (wakeup_ev (ChSleep (L_sleep_buf b)) (put_block b \<lparr>sl_locked = False, sl_pid = 0\<rparr> s))"
    by (rule releasesleep_free [OF sleep_field_block free(2)])
  have e: "brelse b s = lock_release L_bcache (if b_refcnt ?y = 0 then link_front b (unlink b ?t) else ?t)"
    using free by (simp add: brelse_def h rs put_block_def upd_buf_def wakeup_ev_def)
  have "bring (bufs s) xs" using assms(1) by (simp add: cache_ring_def)
  then have "bring ((bufs s)(b := ?y)) xs" by (rule bring_links) simp_all
  then have r: "cache_ring (bufs ?t) xs" using assms(1) by (simp add: cache_ring_def)
  have z: "b_refcnt ?y = 0 \<longleftrightarrow> b_refcnt (bufs s b) = 1" by simp
  show ?thesis
  proof (cases "b_refcnt (bufs s b) = 1")
    case True
    let ?f = "bufs (link_front b (unlink b ?t))"
    have "lock_release L_bcache (?t\<lparr>bufs := ?f\<rparr>) = Ret (s\<lparr>wakes := wakes s @ [ChSleep (L_sleep_buf b)], bufs := ?f\<rparr>)" by simp
    then have "lock_release L_bcache (link_front b (unlink b ?t)) = Ret (s\<lparr>wakes := wakes s @ [ChSleep (L_sleep_buf b)], bufs := ?f\<rparr>)"
      unfolding relink_frame [of b ?t, symmetric] .
    then have "brelse b s = Ret (s\<lparr>wakes := wakes s @ [ChSleep (L_sleep_buf b)], bufs := ?f\<rparr>)"
      unfolding e z if_P [OF True] .
    moreover have "\<forall>c. strip (?f c) = strip (((bufs s)(b := ?y)) c)" by (simp add: relink_strip)
    ultimately show ?thesis using True relink_ring [OF r assms(3)] by auto
  next
    case False
    then have "brelse b s = Ret ?s3" using e by simp
    with False r show ?thesis by auto
  qed
qed

lemma cinv_release:
  assumes inv: "cinv d pid L f D" and b: "b \<in> L" and ring: "cache_ring g xs"
    and coh: "b_refcnt (f b) = 1 \<Longrightarrow> b_dev (f b) = d \<Longrightarrow> b_valid (f b) \<Longrightarrow> b_data (f b) = D (b_blockno (f b))"
    and g: "\<And>c. same_block (g c) (f c)" "\<And>c. b_refcnt (g c) = (if c = b then b_refcnt (f b) - 1 else b_refcnt (f c))"
      "\<And>c. b_lock (g c) = (if c = b then \<lparr>sl_locked = False, sl_pid = 0\<rparr> else b_lock (f c))"
  shows "cinv d pid (L - {b}) g D"
proof -
  have k: "b_dev (g c) = b_dev (f c)" "b_blockno (g c) = b_blockno (f c)" "b_valid (g c) = b_valid (f c)" "b_data (g c) = b_data (f c)" for c
    using g(1) [of c] by (simp_all add: same_block_def)
  have "\<forall>b<NBUF. \<forall>c<NBUF. \<forall>n. keyed d n (g b) \<and> keyed d n (g c) \<longrightarrow> b = c"
    using inv by (simp add: cinv_def keyed_def k)
  moreover have "b_data (g c) = D (b_blockno (g c))" if "c < NBUF" "b_dev (g c) = d" "b_valid (g c)" "b_refcnt (g c) = 0" for c
    using that inv coh by (cases "c = b") (simp_all add: cinv_def k g(2))
  moreover have "\<forall>c<NBUF. sl_locked (b_lock (g c)) \<longleftrightarrow> c \<in> L - {b}" using inv by (simp add: cinv_def g(3))
  moreover have "\<forall>c\<in>L - {b}. c < NBUF \<and> b_refcnt (g c) \<noteq> 0 \<and> b_lock (g c) = \<lparr>sl_locked = True, sl_pid = pid\<rparr>"
    using inv by (simp add: cinv_def g)
  ultimately show ?thesis unfolding cinv_def using ring by blast
qed

lemma brelse_cst:
  assumes c: "cst d L s" and b: "b \<in> L"
    and coh: "b_refcnt (bufs s b) = 1 \<Longrightarrow> b_dev (bufs s b) = d \<Longrightarrow> b_valid (bufs s b) \<Longrightarrow> b_data (bufs s b) = disk s (b_blockno (bufs s b))"
  shows "\<exists>s'. brelse b s = Ret s' \<and> cache_frame s s' \<and> cst d (L - {b}) s' \<and> vw d s' = vw d s \<and> disk s' = disk s \<and> disk_log s' = disk_log s \<and>
    (\<forall>c. same_block (bufs s' c) (bufs s c) \<and> b_refcnt (bufs s' c) = (if c = b then b_refcnt (bufs s b) - 1 else b_refcnt (bufs s c)))"
proof -
  have inv: "cinv d (pr_pid (cur s)) L (bufs s) (disk s)" and free: "cache_free s" using c by (simp_all add: cst_def)
  obtain xs where xs: "cache_ring (bufs s) xs" using inv by (auto simp: cinv_def)
  note l = cst_locked [OF c b]
  let ?y = "(bufs s b)\<lparr>b_lock := \<lparr>sl_locked = False, sl_pid = 0\<rparr>, b_refcnt := b_refcnt (bufs s b) - 1\<rparr>"
  obtain f ys where f: "brelse b s = Ret (s\<lparr>wakes := wakes s @ [ChSleep (L_sleep_buf b)], bufs := f\<rparr>)" "cache_ring f ys"
    "\<And>e. strip (f e) = strip (((bufs s)(b := ?y)) e)"
    using brelse_ring [OF xs free l(1,3)] by blast
  note st = strip_fields [OF f(3)]
  have sb: "same_block (((bufs s)(b := ?y)) e) (bufs s e)" for e by (simp add: same_block_def)
  have g: "same_block (f e) (bufs s e)" "b_refcnt (f e) = (if e = b then b_refcnt (bufs s b) - 1 else b_refcnt (bufs s e))"
      "b_lock (f e) = (if e = b then \<lparr>sl_locked = False, sl_pid = 0\<rparr> else b_lock (bufs s e))" for e
    using st [of e] sb [of e] by (auto simp: same_block_def)
  have i: "cinv d (pr_pid (cur s)) (L - {b}) f (disk s)"
    by (rule cinv_release [OF inv b f(2) coh g])
  have v: "view d f (disk s) = view d (bufs s) (disk s)" using g(1) by (intro view_cong) (simp add: same_block_def)
  let ?s = "s\<lparr>wakes := wakes s @ [ChSleep (L_sleep_buf b)], bufs := f\<rparr>"
  have "?s = s\<lparr>wakes := wakes s @ [ChSleep (L_sleep_buf b)], bufs := f, disk := disk s, disk_log := disk_log s\<rparr>" by simp
  then have "cache_frame s ?s" unfolding cache_frame_def by blast
  with f(1) i v g free show ?thesis by (intro exI [of _ ?s]) (simp add: cst_def vw_def cache_free_def)
qed

lemma bunpin_cst:
  assumes c: "cst d L s" and b: "b < NBUF" "b_refcnt (bufs s b) \<noteq> 1" "b_refcnt (bufs s b) \<noteq> 0"
  defines "s' \<equiv> s\<lparr>bufs := (bufs s)(b := (bufs s b)\<lparr>b_refcnt := b_refcnt (bufs s b) - 1\<rparr>)\<rparr>"
  shows "bunpin b s = Ret s'" and "cst d L s'" and "vw d s' = vw d s"
proof -
  let ?f = "(bufs s)(b := (bufs s b)\<lparr>b_refcnt := b_refcnt (bufs s b) - 1\<rparr>)"
  have inv: "cinv d (pr_pid (cur s)) L (bufs s) (disk s)" and free: "cache_free s" using c by (simp_all add: cst_def)
  show "bunpin b s = Ret s'" using free by (simp add: bunpin_def upd_buf_def s'_def cache_free_def)
  have k: "keyed d n (?f e) = keyed d n (bufs s e)" for n e by (simp add: keyed_def)
  obtain xs where "cache_ring (bufs s) xs" using inv by (auto simp: cinv_def)
  then have "cache_ring ?f xs" unfolding cache_ring_def using bring_links [of "bufs s" xs ?f] by simp
  moreover have "\<forall>b<NBUF. \<forall>c<NBUF. \<forall>n. keyed d n (?f b) \<and> keyed d n (?f c) \<longrightarrow> b = c"
    using inv unfolding k cinv_def by blast
  moreover have "\<forall>b<NBUF. b_dev (?f b) = d \<and> b_valid (?f b) \<and> b_refcnt (?f b) = 0 \<longrightarrow> b_data (?f b) = disk s (b_blockno (?f b))"
    using inv b by (simp add: cinv_def)
  moreover have "\<forall>b<NBUF. sl_locked (b_lock (?f b)) \<longleftrightarrow> b \<in> L" using inv by (simp add: cinv_def)
  moreover have "\<forall>c\<in>L. c < NBUF \<and> b_refcnt (?f c) \<noteq> 0 \<and> b_lock (?f c) = \<lparr>sl_locked = True, sl_pid = pr_pid (cur s)\<rparr>"
    using inv b by (simp add: cinv_def)
  ultimately have "cinv d (pr_pid (cur s)) L ?f (disk s)" unfolding cinv_def by blast
  with free show "cst d L s'" by (simp add: cst_def s'_def cache_free_def)
  show "vw d s' = vw d s" unfolding vw_def s'_def by (simp, intro view_cong) simp
qed

section \<open>What the cache promises\<close>

text \<open>
  C20. \<open>bget\<close> returns the buffer that holds the block if there is one, locked and with one more
  reference; otherwise it recycles, of the buffers without references, the one released least
  recently, and it panics only when every buffer is referenced. When another process has locked
  the buffer it waits for it.
\<close>

theorem bget_hit_or_lru:
  assumes "cache_ring (bufs s) xs" and "cache_free s"
  shows "bget d n s =
    (case find (\<lambda>b. keyed d n (bufs s b)) xs of
       Some b \<Rightarrow> if sl_locked (b_lock (bufs s b)) then Block (ChSleep (L_sleep_buf b))
                 else Ret (b, s\<lparr>bufs := (bufs s)(b := hit_buf (pr_pid (cur s)) (bufs s b))\<rparr>)
     | None \<Rightarrow>
         (case find (\<lambda>b. b_refcnt (bufs s b) = 0) (rev xs) of
            Some b \<Rightarrow> if sl_locked (b_lock (bufs s b)) then Block (ChSleep (L_sleep_buf b))
                      else Ret (b, s\<lparr>bufs := (bufs s)(b := new_buf (pr_pid (cur s)) d n (bufs s b))\<rparr>)
          | None \<Rightarrow> Panic ''bget: no buffers''))"
  using bget_spec [OF assms] unfolding bget_hit_def bget_victim_def .

text \<open>
  C21. \<open>brelse\<close> drops one reference and the lock; the last reference moves the buffer to the front of
  the list, so that the list stays ordered by last use. Nothing else of any buffer changes.
\<close>

theorem brelse_moves_to_front:
  assumes "cache_ring (bufs s) xs" and "cache_free s" and "b < NBUF" and "b_lock (bufs s b) = \<lparr>sl_locked = True, sl_pid = pr_pid (cur s)\<rparr>"
  shows "\<exists>f. brelse b s = Ret (s\<lparr>wakes := wakes s @ [ChSleep (L_sleep_buf b)], bufs := f\<rparr>) \<and>
    cache_ring f (if b_refcnt (bufs s b) = 1 then b # remove1 b xs else xs) \<and>
    (\<forall>c. strip (f c) = strip (((bufs s)(b := (bufs s b)\<lparr>b_lock := \<lparr>sl_locked = False, sl_pid = 0\<rparr>, b_refcnt := b_refcnt (bufs s b) - 1\<rparr>)) c))"
  by (rule brelse_ring [OF assms])

text \<open>
  C19. With a buffer left, \<open>bread\<close> returns a buffer locked by the caller with the current contents of
  the block: what was last put into the cache, or what is on the disk. No block's contents
  change, and the invariant of the cache is kept.
\<close>

theorem bread_returns_contents:
  assumes "cst d L s" and "\<And>b. b \<in> L \<Longrightarrow> \<not> keyed d n (bufs s b)"
    and "(\<exists>b<NBUF. keyed d n (bufs s b)) \<or> (\<exists>b<NBUF. b_refcnt (bufs s b) = 0)"
    and "\<And>b. b < NBUF \<Longrightarrow> b_refcnt (bufs s b) + 1 \<noteq> 0"
  shows "\<exists>b s'. bread d n s = Ret (b, s') \<and> cst d (insert b L) s' \<and> b \<notin> L \<and> keyed d n (bufs s' b) \<and>
    b_data (bufs s' b) = vw d s n \<and> vw d s' = vw d s \<and> disk s' = disk s"
  using bread_cst [OF assms] by fastforce

text \<open>A cache to apply them to: block 50 of device 1 in buffer 0, every other buffer unused.\<close>

definition demo_bufs :: "bool \<Rightarrow> nat \<Rightarrow> buf" where
  "demo_bufs pin b =
     \<lparr>b_valid = (pin \<and> b = 0), b_dev = (if pin \<and> b = 0 then 1 else 0), b_blockno = (if pin \<and> b = 0 then 50 else 0), b_lock = initsleeplock,
      b_refcnt = (if pin \<and> b = 0 then 1 else 0), b_prev = (if b = 0 then NBUF else b - 1), b_next = (if b = NBUF then 0 else Suc b),
      b_data = replicate BSIZE 7\<rparr>"

definition demo_blocks :: "bool \<Rightarrow> (u32 \<Rightarrow> byte list) \<Rightarrow> blocks" where
  "demo_blocks pin D = pipes.extend demo_pipes \<lparr>bufs = demo_bufs pin, disk = D, disk_log = []\<rparr>"

abbreviation zero_disk :: "u32 \<Rightarrow> byte list" where "zero_disk \<equiv> \<lambda>_. replicate BSIZE 0"

lemma demo_ring: "cache_ring (demo_bufs pin) [0..<NBUF]"
proof -
  have "linked (demo_bufs pin) (bhead # [0..<NBUF] @ [bhead])" by (simp add: demo_bufs_def NBUF_def MAXOPBLOCKS_def upt_rec)
  then show ?thesis by (auto simp: cache_ring_def bring_def)
qed

lemma demo_cinv: "cinv 1 p {} (demo_bufs pin) D"
  using demo_ring [of pin] unfolding cinv_def by (auto simp: demo_bufs_def keyed_def initsleeplock_def split: if_splits)

lemma demo_blocks_fields: "bufs (demo_blocks pin D) = demo_bufs pin" "disk (demo_blocks pin D) = D" "held (demo_blocks pin D) = []"
  by (simp_all add: demo_blocks_def pipes.defs demo_pipes_ok(3))

lemma demo_free: "cache_free (demo_blocks pin D)"
  by (simp add: cache_free_def demo_blocks_fields)

theorem bget_hit_or_lru_witness:
  "\<exists>s' t'. bget 1 50 (demo_blocks True zero_disk) = Ret (0, s') \<and> bget 1 51 (demo_blocks True zero_disk) = Ret (29, t')"
proof -
  have u: "[0..<NBUF] = 0 # [Suc 0..<29] @ [29]" by (simp add: NBUF_def MAXOPBLOCKS_def upt_rec)
  have f: "find (\<lambda>b. keyed 1 51 (demo_bufs True b)) [0..<NBUF] = None" by (auto simp: find_None_iff demo_bufs_def keyed_def)
  note r = bget_hit_or_lru [of "demo_blocks True zero_disk" "[0..<NBUF]", unfolded demo_blocks_fields, OF demo_ring demo_free]
  have "find (\<lambda>b. keyed 1 50 (demo_bufs True b)) [0..<NBUF] = Some 0" unfolding u by (simp add: demo_bufs_def keyed_def)
  moreover have "find (\<lambda>b. b_refcnt (demo_bufs True b) = 0) (rev [0..<NBUF]) = Some 29" unfolding u by (simp add: demo_bufs_def)
  moreover have "\<not> sl_locked (b_lock (demo_bufs True b))" for b by (simp add: demo_bufs_def initsleeplock_def)
  ultimately show ?thesis using r [of 1 50] r [of 1 51] f by simp
qed

theorem bread_returns_contents_witness:
  "\<exists>b s'. bread 1 50 (demo_blocks True zero_disk) = Ret (b, s') \<and> b_data (bufs s' b) = vw 1 (demo_blocks True zero_disk) 50"
proof -
  have "cst 1 {} (demo_blocks True zero_disk)" using demo_cinv demo_free by (simp add: cst_def demo_blocks_fields)
  moreover have "keyed 1 50 (bufs (demo_blocks True zero_disk) 0)" by (simp add: demo_blocks_fields demo_bufs_def keyed_def)
  moreover have "b_refcnt (bufs (demo_blocks True zero_disk) b) + 1 \<noteq> 0" for b by (simp add: demo_blocks_fields demo_bufs_def)
  moreover have "0 < NBUF" by (simp add: NBUF_def MAXOPBLOCKS_def)
  ultimately show ?thesis using bread_returns_contents [of 1 "{}" "demo_blocks True zero_disk" 50] by auto
qed

theorem brelse_moves_to_front_witness:
  "\<exists>s1 f. bget 1 51 (demo_blocks True zero_disk) = Ret (29, s1) \<and> brelse 29 s1 = Ret (s1\<lparr>wakes := wakes s1 @ [ChSleep (L_sleep_buf 29)], bufs := f\<rparr>) \<and>
     cache_ring f (29 # [0..<29])"
proof -
  let ?s = "demo_blocks True zero_disk"
  have u: "[0..<NBUF] = [0..<29] @ [29]" by (simp add: NBUF_def MAXOPBLOCKS_def upt_rec)
  have f: "find (\<lambda>b. keyed 1 51 (demo_bufs True b)) [0..<NBUF] = None" by (auto simp: find_None_iff demo_bufs_def keyed_def)
  let ?x = "new_buf (pr_pid (cur ?s)) 1 51 (demo_bufs True 29)"
  let ?s1 = "?s\<lparr>bufs := (demo_bufs True)(29 := ?x)\<rparr>"
  have "find (\<lambda>b. b_refcnt (demo_bufs True b) = 0) (rev [0..<NBUF]) = Some 29" unfolding u by (simp add: demo_bufs_def)
  then have g: "bget 1 51 ?s = Ret (29, ?s1)"
    using bget_spec [of ?s "[0..<NBUF]" 1 51, unfolded demo_blocks_fields, OF demo_ring demo_free] f
    by (simp add: bget_hit_def bget_victim_def demo_bufs_def initsleeplock_def)
  have "bring (demo_bufs True) [0..<NBUF]" using demo_ring by (simp add: cache_ring_def)
  then have "bring ((demo_bufs True)(29 := ?x)) [0..<NBUF]" by (rule bring_links) (simp_all add: new_buf_def)
  then have r: "cache_ring (bufs ?s1) [0..<NBUF]" by (auto simp: cache_ring_def)
  have "remove1 29 [0..<NBUF] = [0..<29]" unfolding u by (simp add: remove1_append)
  with g brelse_moves_to_front [OF r, of 29] demo_free [of True zero_disk] show ?thesis
    by (auto simp: cache_free_def new_buf_def NBUF_def MAXOPBLOCKS_def)
qed

end
