(* ===== verification/Block_Codec.thy ===== *)
theory Block_Codec
  imports Fs
begin

text \<open>
  Reading back what is written into a block: integers at byte offsets, the array of the log header,
  and on-disk inodes (\<open>struct dinode\<close>). A write changes no byte outside its field.
\<close>

section \<open>Bytes at an offset\<close>

definition splice :: "nat \<Rightarrow> byte list \<Rightarrow> byte list \<Rightarrow> byte list" where
  "splice off bs d = take off d @ bs @ drop (off + length bs) d"

lemma put32_splice: "put32 off v d = splice off (le_bytes 4 v) d"
  by (simp add: put32_def splice_def)

lemma put16_splice: "put16 off v d = splice off (le_bytes 2 v) d"
  by (simp add: put16_def splice_def)

lemma length_splice [simp]: "off + length bs \<le> length d \<Longrightarrow> length (splice off bs d) = length d"
  by (simp add: splice_def)

lemma splice_same: "off + length bs \<le> length d \<Longrightarrow> take (length bs) (drop off (splice off bs d)) = bs"
  by (simp add: splice_def)

lemma splice_before: "a + n \<le> off \<Longrightarrow> off + length bs \<le> length d \<Longrightarrow> take n (drop a (splice off bs d)) = take n (drop a d)"
  by (rule nth_equalityI) (auto simp: splice_def nth_append)

lemma splice_after: "off + length bs \<le> a \<Longrightarrow> off + length bs \<le> length d \<Longrightarrow> drop a (splice off bs d) = drop a d"
  by (rule nth_equalityI) (auto simp: splice_def nth_append)

lemma get32_put32_same [simp]: "off + 4 \<le> length d \<Longrightarrow> get32 off (put32 off v d) = v"
  using splice_same [of off "le_bytes 4 v" d] by (simp add: get32_def put32_splice le_word_bytes)

lemma get16_put16_same [simp]: "off + 2 \<le> length d \<Longrightarrow> get16 off (put16 off v d) = v"
  using splice_same [of off "le_bytes 2 v" d] by (simp add: get16_def put16_splice le_word_bytes)

lemma length_put [simp]: "off + 4 \<le> length d \<Longrightarrow> length (put32 off v d) = length d" "off + 2 \<le> length d \<Longrightarrow> length (put16 off w d) = length d"
  by (simp_all add: put32_splice put16_splice)

text \<open>Fields that do not overlap.\<close>

lemma get_put_other:
  assumes "a + 4 \<le> off \<or> off + 4 \<le> a" and "off + 4 \<le> length d"
  shows "get32 a (put32 off v d) = get32 a d"
  using assms splice_before [of a 4 off "le_bytes 4 v" d] splice_after [of off "le_bytes 4 v" a d]
  by (auto simp: get32_def put32_splice)

lemma get16_put32_other:
  assumes "a + 2 \<le> off \<or> off + 4 \<le> a" and "off + 4 \<le> length d"
  shows "get16 a (put32 off v d) = get16 a d"
  using assms splice_before [of a 2 off "le_bytes 4 v" d] splice_after [of off "le_bytes 4 v" a d]
  by (auto simp: get16_def put32_splice)

lemma get32_put16_other:
  assumes "a + 4 \<le> off \<or> off + 2 \<le> a" and "off + 2 \<le> length d"
  shows "get32 a (put16 off v d) = get32 a d"
  using assms splice_before [of a 4 off "le_bytes 2 v" d] splice_after [of off "le_bytes 2 v" a d]
  by (auto simp: get32_def put16_splice)

lemma get16_put16_other:
  assumes "a + 2 \<le> off \<or> off + 2 \<le> a" and "off + 2 \<le> length d"
  shows "get16 a (put16 off v d) = get16 a d"
  using assms splice_before [of a 2 off "le_bytes 2 v" d] splice_after [of off "le_bytes 2 v" a d]
  by (auto simp: get16_def put16_splice)

section \<open>The log header\<close>

lemma length_write_blocks [simp]: "4 + 4 * k \<le> length d \<Longrightarrow> length (write_blocks k bs d) = length d"
  by (induction k) simp_all

lemma write_blocks_get:
  "4 + 4 * k \<le> length d \<Longrightarrow> get32 (4 + 4 * i) (write_blocks k bs d) = (if i < k then bs ! i else get32 (4 + 4 * i) d)"
proof (induction k)
  case (Suc k)
  then show ?case by (cases "i = k") (auto simp: get_put_other)
qed simp

lemma write_blocks_count: "4 + 4 * k \<le> length d \<Longrightarrow> get32 0 (write_blocks k bs d) = get32 0 d"
  by (induction k) (simp_all add: get_put_other)

lemma read_write_blocks: "k \<le> n \<Longrightarrow> 4 + 4 * n \<le> length d \<Longrightarrow> k \<le> length bs \<Longrightarrow> read_blocks k (write_blocks n bs d) = take k bs"
  by (induction k) (simp_all add: write_blocks_get take_Suc_conv_app_nth)

section \<open>On-disk inodes\<close>

lemma length_put_addrs [simp]: "off + 4 * k \<le> length d \<Longrightarrow> length (put_addrs off k as d) = length d"
  by (induction k) simp_all

lemma get32_put_addrs:
  "off + 4 * k \<le> length d \<Longrightarrow> a + 4 \<le> off \<Longrightarrow> get32 a (put_addrs off k as d) = get32 a d"
  by (induction k) (simp_all add: get_put_other)

lemma get16_put_addrs:
  "off + 4 * k \<le> length d \<Longrightarrow> a + 2 \<le> off \<Longrightarrow> get16 a (put_addrs off k as d) = get16 a d"
  by (induction k) (simp_all add: get16_put32_other)

lemma get32_put_addrs_elem:
  "off + 4 * k \<le> length d \<Longrightarrow> i < k \<Longrightarrow> get32 (off + 4 * i) (put_addrs off k as d) = as ! i"
proof (induction k)
  case (Suc k)
  then show ?case by (cases "i = k") (auto simp: get_put_other)
qed simp

lemma get_put_addrs:
  "j \<le> k \<Longrightarrow> off + 4 * k \<le> length d \<Longrightarrow> j \<le> length as \<Longrightarrow> get_addrs off j (put_addrs off k as d) = take j as"
  by (induction j) (simp_all add: get32_put_addrs_elem take_Suc_conv_app_nth)

lemmas field_simps_block = get_put_other get16_put32_other get32_put16_other get16_put16_other get32_put_addrs get16_put_addrs

lemma put_dinode_outside:
  assumes "off + 64 \<le> length d"
  shows "take off (put_dinode off x d) = take off d" and "drop (off + 64) (put_dinode off x d) = drop (off + 64) d"
proof -
  have a: "take off (put_addrs (off + 12) k as e) = take off e \<and> drop (off + 64) (put_addrs (off + 12) k as e) = drop (off + 64) e"
    if "k \<le> 13" "off + 64 \<le> length e" for k as e
    using that
  proof (induction k)
    case (Suc k)
    then have "take off (put_addrs (off + 12) k as e) = take off e" "drop (off + 64) (put_addrs (off + 12) k as e) = drop (off + 64) e" by simp_all
    with Suc.prems show ?case
      using splice_before [of 0 off "off + 12 + 4 * k" "le_bytes 4 (as ! k)" "put_addrs (off + 12) k as e"]
        splice_after [of "off + 12 + 4 * k" "le_bytes 4 (as ! k)" "off + 64" "put_addrs (off + 12) k as e"] by (simp add: put32_splice)
  qed simp
  show "take off (put_dinode off x d) = take off d" and "drop (off + 64) (put_dinode off x d) = drop (off + 64) d"
    using assms by (simp_all add: put_dinode_def NDIRECT_def a, simp_all add: put32_splice put16_splice splice_after splice_before [where a = 0, simplified])
qed

text \<open>
  C25. An inode written to its place in a block by \<open>iupdate\<close> is what \<open>ilock\<close> reads back from there:
  every field that lives on disk, and no other byte of the block is changed.
\<close>

theorem dinode_roundtrip:
  assumes "off + 64 \<le> length d" and "length (i_addrs x) = NDIRECT + 1"
  shows "get_dinode off (put_dinode off x d) y =
      y\<lparr>i_type := i_type x, i_major := i_major x, i_minor := i_minor x, i_nlink := i_nlink x, i_size := i_size x, i_addrs := i_addrs x\<rparr> \<and>
    length (put_dinode off x d) = length d \<and> take off (put_dinode off x d) = take off d \<and>
    drop (off + 64) (put_dinode off x d) = drop (off + 64) d"
  using assms put_dinode_outside [OF assms(1)]
  by (simp add: get_dinode_def put_dinode_def NDIRECT_def field_simps_block get_put_addrs)

text \<open>An inode to apply it to: a file of one block, in the second slot of a block.\<close>

definition demo_inode :: inode where
  "demo_inode =
     \<lparr>i_dev = 1, i_inum = 17, i_ref = 1, i_lock = \<lparr>sl_locked = True, sl_pid = 1\<rparr>, i_valid = True, i_type = 2, i_major = 0, i_minor = 0,
      i_nlink = 1, i_size = 700, i_addrs = 46 # replicate 12 0\<rparr>"

theorem dinode_roundtrip_witness:
  "get_dinode 64 (put_dinode 64 demo_inode (replicate 1024 0)) (demo_inode\<lparr>i_size := 0, i_addrs := []\<rparr>) = demo_inode \<and>
   length (put_dinode 64 demo_inode (replicate 1024 0)) = 1024"
  using dinode_roundtrip [of 64 "replicate 1024 0" demo_inode "demo_inode\<lparr>i_size := 0, i_addrs := []\<rparr>"]
  by (simp add: demo_inode_def NDIRECT_def)

end
