(* ===== verification/Log_Crash.thy ===== *)
theory Log_Crash
  imports Cache Block_Codec
begin

text \<open>
  Atomicity of transactions. \<open>commit\<close> is run from a state in which the blocks of the transaction
  are pinned in the cache and nothing else is held; a crash cuts the sequence of its disk writes
  at any point, and recovery starts from an empty cache and the disk found. What recovery leaves
  is the disk before the transaction when the cut is before the write of the header, and the
  disk with every block of the transaction written when it is after it.

  Each block write is taken to be atomic, as the code takes it to be.
\<close>

section \<open>Pinned blocks\<close>

text \<open>
  The buffers of the blocks \<open>B\<close> are pinned once, those in \<open>L\<close> are locked as well, and no other
  reference is held.
\<close>

definition pinned :: "u32 \<Rightarrow> u32 set \<Rightarrow> nat set \<Rightarrow> (nat \<Rightarrow> buf) \<Rightarrow> bool" where
  "pinned d B L f \<longleftrightarrow>
     (\<forall>b<NBUF. b_refcnt (f b) = (if b_dev (f b) = d \<and> b_blockno (f b) \<in> B then 1 else 0) + (if b \<in> L then 1 else 0)) \<and>
     (\<forall>n\<in>B. \<exists>b<NBUF. keyed d n (f b))"

definition cache :: "u32 \<Rightarrow> u32 set \<Rightarrow> nat set \<Rightarrow> 'z blocks_scheme \<Rightarrow> bool" where
  "cache d B L s \<longleftrightarrow> cst d L s \<and> pinned d B L (bufs s) \<and> finite L"

text \<open>The cache works, the contents of no block change.\<close>

definition still :: "u32 \<Rightarrow> 'z blocks_scheme \<Rightarrow> 'z blocks_scheme \<Rightarrow> bool" where
  "still d s s' \<longleftrightarrow> cache_frame s s' \<and> vw d s' = vw d s \<and> disk s' = disk s \<and> disk_log s' = disk_log s"

lemma pinned_refcnt:
  assumes "pinned d B L f" and "b < NBUF"
  shows "b_refcnt (f b) = 0 \<longleftrightarrow> \<not> (b_dev (f b) = d \<and> b_blockno (f b) \<in> B) \<and> b \<notin> L"
    and "b_refcnt (f b) = 1 \<longleftrightarrow> (b_dev (f b) = d \<and> b_blockno (f b) \<in> B) \<noteq> (b \<in> L)"
    and "b_refcnt (f b) + 1 \<noteq> 0"
  using assms unfolding pinned_def by auto

lemma pinned_cached: "pinned d B L f \<Longrightarrow> n \<in> B \<Longrightarrow> \<exists>b<NBUF. keyed d n (f b)"
  by (simp add: pinned_def)

lemma pinned_room:
  assumes "cinv d pid L f D" and "pinned d B L f" and "finite B" and "finite L" and "card B + card L < NBUF"
  shows "\<exists>b<NBUF. b_refcnt (f b) = 0"
proof (rule ccontr)
  assume no: "\<not> ?thesis"
  let ?P = "{b. b < NBUF \<and> b_dev (f b) = d \<and> b_blockno (f b) \<in> B}"
  have "{..<NBUF} \<subseteq> ?P \<union> L" using no pinned_refcnt(1) [OF assms(2)] by auto
  moreover have "finite (?P \<union> L)" using assms(4) by simp
  ultimately have "NBUF \<le> card (?P \<union> L)" using card_mono [of "?P \<union> L" "{..<NBUF}"] by simp
  also have "\<dots> \<le> card ?P + card L" by (rule card_Un_le)
  also have "card ?P \<le> card B"
  proof (rule card_inj_on_le [where f = "\<lambda>b. b_blockno (f b)"])
    show "inj_on (\<lambda>b. b_blockno (f b)) ?P" using cinv_unique [OF assms(1)] by (auto simp: inj_on_def keyed_def)
  qed (use assms(3) in auto)
  finally show False using assms(5) by linarith
qed

lemma bread_pin:
  assumes c: "cache d B L s" and nl: "\<And>b. b \<in> L \<Longrightarrow> \<not> keyed d n (bufs s b)" and B: "finite B"
    and room: "n \<in> B \<or> card B + card L < NBUF"
  shows "\<exists>b s'. bread d n s = Ret (b, s') \<and> cache d B (insert b L) s' \<and> b \<notin> L \<and> keyed d n (bufs s' b) \<and> b_valid (bufs s' b) \<and>
    b_data (bufs s' b) = vw d s n \<and> still d s s' \<and> (\<forall>c\<in>L. bufs s' c = bufs s c)"
proof -
  have cs: "cst d L s" and p: "pinned d B L (bufs s)" and fin: "finite L" using c by (simp_all add: cache_def)
  have inv: "cinv d (pr_pid (cur s)) L (bufs s) (disk s)" using cs by (simp add: cst_def)
  have "(\<exists>b<NBUF. keyed d n (bufs s b)) \<or> (\<exists>b<NBUF. b_refcnt (bufs s b) = 0)"
    using room pinned_cached [OF p] pinned_room [OF inv p B fin] by blast
  from bread_cst [OF cs nl this pinned_refcnt(3) [OF p]] obtain b x s' where
    r: "bread d n s = Ret (b, s')" "s' = s\<lparr>bufs := (bufs s)(b := x)\<rparr>" "cst d (insert b L) s'" "vw d s' = vw d s"
    "b < NBUF" "b \<notin> L" "keyed d n x" "b_valid x" "b_data x = vw d s n" "b_refcnt x = b_refcnt (bufs s b) + 1"
    "b_refcnt (bufs s b) = 0 \<or> keyed d n (bufs s b)" by blast
  have inv': "cinv d (pr_pid (cur s)) (insert b L) ((bufs s)(b := x)) (disk s)" using r(2,3) by (simp add: cst_def)
  have nb: "keyed d n (bufs s b)" if nB: "n \<in> B"
  proof -
    obtain e where e: "e < NBUF" "keyed d n (bufs s e)" using pinned_cached [OF p nB] by blast
    have "e = b"
    proof (rule ccontr)
      assume "e \<noteq> b"
      then show False using cinv_unique [OF inv', of n e b] e r(5,7) by simp
    qed
    with e(2) show ?thesis by simp
  qed
  have "b_refcnt x = (if b_dev x = d \<and> b_blockno x \<in> B then 1 else 0) + 1"
  proof (cases "n \<in> B")
    case True
    then show ?thesis using nb [OF True] pinned_refcnt(2) [OF p r(5)] r(6,7,10) by (simp add: keyed_def)
  next
    case False
    then have "b_refcnt (bufs s b) = 0" using r(6,11) pinned_refcnt(1) [OF p r(5)] by (auto simp: keyed_def)
    with False r(7,10) show ?thesis by (simp add: keyed_def)
  qed
  moreover have "\<exists>e<NBUF. keyed d m (((bufs s)(b := x)) e)" if m: "m \<in> B" for m
  proof -
    obtain e where e: "e < NBUF" "keyed d m (bufs s e)" using pinned_cached [OF p m] by blast
    show ?thesis
    proof (cases "e = b")
      case True
      then have "b_refcnt (bufs s b) \<noteq> 0" using pinned_refcnt(1) [OF p r(5)] e m by (simp add: keyed_def)
      then have "m = n" using r(11) e(2) True by (simp add: keyed_def)
      with r(5,7) show ?thesis by auto
    next
      case False
      with e show ?thesis by auto
    qed
  qed
  ultimately have p': "pinned d B (insert b L) ((bufs s)(b := x))" using p by (auto simp: pinned_def)
  have "s' = s\<lparr>wakes := wakes s, bufs := (bufs s)(b := x), disk := disk s, disk_log := disk_log s\<rparr>" by (simp add: r(2))
  then have "cache_frame s s'" unfolding cache_frame_def by blast
  then have "still d s s'" using r(2,4) by (simp add: still_def)
  with r p' fin show ?thesis by (intro exI [of _ b] exI [of _ s']) (auto simp: cache_def)
qed

text \<open>One block is written, on the disk and in the view.\<close>

definition put :: "u32 \<Rightarrow> u32 \<Rightarrow> byte list \<Rightarrow> 'z blocks_scheme \<Rightarrow> 'z blocks_scheme \<Rightarrow> bool" where
  "put d n v s s' \<longleftrightarrow>
     cache_frame s s' \<and> vw d s' = (vw d s)(n := v) \<and> disk s' = (disk s)(n := v) \<and> disk_log s' = disk_log s @ [(n, v)]"

lemma still_refl [simp]: "still d s s"
  by (simp add: still_def)

lemma still_trans [trans]: "still d s t \<Longrightarrow> still d t u \<Longrightarrow> still d s u"
  by (auto simp: still_def intro: cache_frame_trans)

lemma still_put [trans]: "still d s t \<Longrightarrow> put d n v t u \<Longrightarrow> put d n v s u"
  by (auto simp: still_def put_def intro: cache_frame_trans)

lemma put_still [trans]: "put d n v s t \<Longrightarrow> still d t u \<Longrightarrow> put d n v s u"
  by (auto simp: still_def put_def intro: cache_frame_trans)

lemma bwrite_pin:
  fixes v :: "byte list" and s :: "'z blocks_scheme"
  assumes c: "cache d B L s" and b: "b \<in> L" "keyed d n (bufs s b)" "b_valid (bufs s b)"
  shows "\<exists>s'. bwrite b (set_data b v s) = Ret s' \<and> cache d B L s' \<and> put d n v s s' \<and>
    (\<forall>c. c \<noteq> b \<longrightarrow> bufs s' c = bufs s c) \<and> keyed d n (bufs s' b) \<and> b_data (bufs s' b) = v"
proof -
  let ?s = "s\<lparr>bufs := (bufs s)(b := (bufs s b)\<lparr>b_data := v\<rparr>), disk := (disk s)(n := v), disk_log := disk_log s @ [(n, v)]\<rparr>"
  have cs: "cst d L s" using c by (simp add: cache_def)
  note w = bwrite_cst [OF cs b, of v]
  have "pinned d B L (bufs ?s)" using c by (auto simp: cache_def pinned_def keyed_def)
  moreover have "?s = s\<lparr>wakes := wakes s, bufs := (bufs s)(b := (bufs s b)\<lparr>b_data := v\<rparr>), disk := (disk s)(n := v), disk_log := disk_log s @ [(n, v)]\<rparr>"
    by simp
  then have "cache_frame s ?s" unfolding cache_frame_def by blast
  ultimately show ?thesis using w b c by (intro exI [of _ ?s]) (simp add: cache_def put_def keyed_def)
qed

lemma brelse_pin:
  assumes c: "cache d B L s" and b: "b \<in> L" "keyed d n (bufs s b)" and coh: "n \<in> B \<or> b_data (bufs s b) = disk s n"
  shows "\<exists>s'. brelse b s = Ret s' \<and> cache d B (L - {b}) s' \<and> still d s s' \<and> (\<forall>c. same_block (bufs s' c) (bufs s c))"
proof -
  have cs: "cst d L s" and p: "pinned d B L (bufs s)" using c by (simp_all add: cache_def)
  have bN: "b < NBUF" using cst_locked [OF cs b(1)] by simp
  have "b_data (bufs s b) = disk s (b_blockno (bufs s b))" if "b_refcnt (bufs s b) = 1"
    using pinned_refcnt(2) [OF p bN] that b coh by (auto simp: keyed_def)
  from brelse_cst [OF cs b(1) this] obtain s' where r: "brelse b s = Ret s'" "cache_frame s s'" "cst d (L - {b}) s'" "vw d s' = vw d s"
    "disk s' = disk s" "disk_log s' = disk_log s"
    "\<And>e. same_block (bufs s' e) (bufs s e)" "\<And>e. b_refcnt (bufs s' e) = (if e = b then b_refcnt (bufs s b) - 1 else b_refcnt (bufs s e))"
    by blast
  have k: "b_dev (bufs s' e) = b_dev (bufs s e)" "b_blockno (bufs s' e) = b_blockno (bufs s e)" for e
    using r(7) [of e] by (simp_all add: same_block_def)
  have "pinned d B (L - {b}) (bufs s')" using p b(1) by (simp add: pinned_def k r(8) keyed_def)
  with r c show ?thesis by (intro exI [of _ s']) (simp add: cache_def still_def)
qed

lemma bunpin_pin:
  assumes c: "cache d B L s" and b: "b \<in> L" "keyed d n (bufs s b)" "n \<in> B"
  shows "\<exists>s'. bunpin b s = Ret s' \<and> cache d (B - {n}) L s' \<and> still d s s' \<and> (\<forall>c. same_block (bufs s' c) (bufs s c))"
proof -
  have cs: "cst d L s" and p: "pinned d B L (bufs s)" using c by (simp_all add: cache_def)
  have inv: "cinv d (pr_pid (cur s)) L (bufs s) (disk s)" using cs by (simp add: cst_def)
  have bN: "b < NBUF" using cst_locked [OF cs b(1)] by simp
  let ?f = "(bufs s)(b := (bufs s b)\<lparr>b_refcnt := b_refcnt (bufs s b) - 1\<rparr>)"
  have two: "b_refcnt (bufs s b) = 1 + 1" using p bN b by (simp add: pinned_def keyed_def)
  have u: "b_blockno (bufs s e) \<noteq> n" if "e < NBUF" "e \<noteq> b" "b_dev (bufs s e) = d" for e
    using cinv_unique [OF inv b(2), of e] bN that by (auto simp: keyed_def)
  have "pinned d (B - {n}) L ?f"
    unfolding pinned_def
  proof (intro conjI allI impI ballI)
    fix e assume e: "e < NBUF"
    show "b_refcnt (?f e) = (if b_dev (?f e) = d \<and> b_blockno (?f e) \<in> B - {n} then 1 else 0) + (if e \<in> L then 1 else 0)"
      using p e two b u [of e] by (cases "e = b") (simp_all add: pinned_def keyed_def)
  next
    fix m assume "m \<in> B - {n}"
    then show "\<exists>e<NBUF. keyed d m (?f e)" using p by (auto simp: pinned_def keyed_def)
  qed
  moreover have "s\<lparr>bufs := ?f\<rparr> = s\<lparr>wakes := wakes s, bufs := ?f, disk := disk s, disk_log := disk_log s\<rparr>" by simp
  then have "cache_frame s (s\<lparr>bufs := ?f\<rparr>)" unfolding cache_frame_def by blast
  ultimately show ?thesis using bunpin_cst [OF cs bN] two c
    by (intro exI [of _ "s\<lparr>bufs := ?f\<rparr>"]) (simp add: cache_def still_def same_block_def)
qed

section \<open>One round of each loop\<close>

lemma frame_log:
  fixes s :: "'z log_scheme"
  assumes "cache_frame s s'"
  shows "log_dev s' = log_dev s" "log_start s' = log_start s" "lh_n s' = lh_n s" "lh_block s' = lh_block s" "cur s' = cur s" "held s' = held s"
  using assms by (auto simp: cache_frame_def)

lemma still_frame: "still d s s' \<Longrightarrow> cache_frame s s'"
  by (simp add: still_def)

lemma same_keyed: "same_block x y \<Longrightarrow> keyed d n x = keyed d n y"
  by (simp add: same_block_def keyed_def)

text \<open>Reading two blocks, the second of them pinned, or with room for both.\<close>

lemma read_two:
  assumes c: "cache d B {} s" and B: "finite B" "card B < NBUF" "m \<notin> B" "m \<noteq> n" and n: "n \<in> B \<or> card B + 1 < NBUF"
  shows "\<exists>bm s1 bn s2. bread d m s = Ret (bm, s1) \<and> still d s s1 \<and> bread d n s1 = Ret (bn, s2) \<and> still d s s2 \<and> cache d B {bm, bn} s2 \<and>
    bm \<noteq> bn \<and> keyed d m (bufs s2 bm) \<and> keyed d n (bufs s2 bn) \<and> b_valid (bufs s2 bm) \<and> b_valid (bufs s2 bn) \<and>
    b_data (bufs s2 bm) = vw d s m \<and> b_data (bufs s2 bn) = vw d s n"
proof -
  obtain bm s1 where 1: "bread d m s = Ret (bm, s1)" "cache d B {bm} s1" "keyed d m (bufs s1 bm)" "b_valid (bufs s1 bm)"
    "b_data (bufs s1 bm) = vw d s m" "still d s s1"
    using bread_pin [OF c _ B(1), of m] B(2) by auto
  have "\<not> keyed d n (bufs s1 bm)" using 1(3) B(4) by (simp add: keyed_def)
  then obtain bn s2 where 2: "bread d n s1 = Ret (bn, s2)" "cache d B (insert bn {bm}) s2" "bn \<noteq> bm" "keyed d n (bufs s2 bn)" "b_valid (bufs s2 bn)"
    "b_data (bufs s2 bn) = vw d s1 n" "still d s1 s2" "bufs s2 bm = bufs s1 bm"
    using bread_pin [OF 1(2) _ B(1), of n] n by auto
  have "still d s s2" using 1(6) 2(7) by (rule still_trans)
  moreover have "vw d s1 n = vw d s n" using 1(6) by (simp add: still_def)
  moreover have "cache d B {bm, bn} s2" using 2(2) by (simp add: insert_commute)
  ultimately show ?thesis using 1 2(1,3-8)
    by (intro exI [of _ bm] exI [of _ s1] exI [of _ bn] exI [of _ s2]) auto
qed

lemma write_log_step:
  fixes s :: "'z log_scheme"
  assumes c: "cache d B {} s" and d: "d = log_dev s" and B: "finite B" "card B < NBUF"
    and m: "m = log_start s + of_nat tail + 1" "m \<notin> B" and n: "n = lh_block s ! tail" "n \<in> B"
  shows "\<exists>s'. write_log_loop (Suc k) tail s = write_log_loop k (Suc tail) s' \<and> cache d B {} s' \<and> put d m (vw d s n) s s'"
proof -
  have mn: "m \<noteq> n" using m(2) n(2) by blast
  obtain bm s1 bn s2 where r: "bread d m s = Ret (bm, s1)" "still d s s1" "bread d n s1 = Ret (bn, s2)" "still d s s2" "cache d B {bm, bn} s2"
    "bm \<noteq> bn" "keyed d m (bufs s2 bm)" "keyed d n (bufs s2 bn)" "b_valid (bufs s2 bm)" "b_data (bufs s2 bn) = vw d s n"
    using read_two [OF c B m(2) mn disjI1 [OF n(2)]] by blast
  obtain s3 where 3: "bwrite bm (set_data bm (vw d s n) s2) = Ret s3" "cache d B {bm, bn} s3" "put d m (vw d s n) s2 s3"
    "bufs s3 bn = bufs s2 bn" "keyed d m (bufs s3 bm)" "b_data (bufs s3 bm) = vw d s n"
    using bwrite_pin [OF r(5) _ r(7,9), of "vw d s n"] r(6) by auto
  obtain s4 where 4: "brelse bn s3 = Ret s4" "cache d B {bm} s4" "still d s3 s4" "\<And>c. same_block (bufs s4 c) (bufs s3 c)"
    using brelse_pin [OF 3(2), of bn n] r(6,8) 3(4) n(2) by (auto simp: insert_Diff_if)
  have "b_data (bufs s4 bm) = disk s4 m" using 4(3) 3(3,6) 4(4) [of bm] by (simp add: still_def put_def same_block_def)
  moreover have "keyed d m (bufs s4 bm)" using same_keyed [OF 4(4)] 3(5) by simp
  ultimately obtain s5 where 5: "brelse bm s4 = Ret s5" "cache d B {} s5" "still d s4 s5"
    using brelse_pin [OF 4(2), of bm m] by auto
  note f1 = frame_log [OF still_frame [OF r(2)]]
  have "put d m (vw d s n) s s5" using still_put [OF r(4)] put_still [OF 3(3)] still_trans [OF 4(3) 5(3)] by blast
  moreover have "write_log_loop (Suc k) tail s = write_log_loop k (Suc tail) s5"
    using r(1,3,10) 3(1) 4(1) 5(1) by (simp add: d [symmetric] m(1) [symmetric] n(1) [symmetric] f1)
  ultimately show ?thesis using 5(2) by blast
qed

lemma vw_unpinned:
  assumes "cache d B {} s" and "m \<notin> B"
  shows "vw d s m = disk s m"
proof -
  have inv: "cinv d (pr_pid (cur s)) {} (bufs s) (disk s)" and p: "pinned d B {} (bufs s)" using assms(1) by (simp_all add: cache_def cst_def)
  show ?thesis
  proof (cases "\<exists>b<NBUF. keyed d m (bufs s b)")
    case True
    then obtain b where b: "b < NBUF" "keyed d m (bufs s b)" by blast
    then have "b_refcnt (bufs s b) = 0" using pinned_refcnt(1) [OF p b(1)] assms(2) by (simp add: keyed_def)
    then show ?thesis using view_cached [OF inv b] cinv_coherent [OF inv b] by (simp add: vw_def)
  next
    case False
    then show ?thesis by (simp add: vw_def view_uncached)
  qed
qed

lemma install_step:
  fixes s :: "'z log_scheme"
  assumes c: "cache d B {} s" and d: "d = log_dev s" and B: "finite B" "card B < NBUF"
    and m: "m = log_start s + of_nat tail + 1" "m \<notin> B" "m \<noteq> n" and n: "n = lh_block s ! tail" "recovering \<and> B = {} \<or> \<not> recovering \<and> n \<in> B"
  shows "\<exists>s'. install_loop recovering (Suc k) tail s = install_loop recovering k (Suc tail) s' \<and>
    cache d (if recovering then B else B - {n}) {} s' \<and> put d n (vw d s m) s s'"
proof -
  let ?B = "if recovering then B else B - {n}"
  have room: "n \<in> B \<or> card B + 1 < NBUF" using n(2) by (auto simp: NBUF_def MAXOPBLOCKS_def)
  obtain bm s1 bn s2 where r: "bread d m s = Ret (bm, s1)" "still d s s1" "bread d n s1 = Ret (bn, s2)" "still d s s2" "cache d B {bm, bn} s2"
    "bm \<noteq> bn" "keyed d m (bufs s2 bm)" "keyed d n (bufs s2 bn)" "b_valid (bufs s2 bn)" "b_data (bufs s2 bm) = vw d s m"
    using read_two [OF c B m(2,3) room] by blast
  obtain s3 where 3: "bwrite bn (set_data bn (vw d s m) s2) = Ret s3" "cache d B {bm, bn} s3" "put d n (vw d s m) s2 s3"
    "bufs s3 bm = bufs s2 bm" "keyed d n (bufs s3 bn)" "b_data (bufs s3 bn) = vw d s m"
    using bwrite_pin [OF r(5) _ r(8,9), of "vw d s m"] r(6) by auto
  obtain s4 where 4: "(if recovering then Ret s3 else bunpin bn s3) = Ret s4" "cache d ?B {bm, bn} s4" "still d s3 s4" "\<And>c. same_block (bufs s4 c) (bufs s3 c)"
  proof (cases recovering)
    case True
    then show ?thesis using that [of s3] 3(2) by (simp add: same_block_def)
  next
    case False
    then show ?thesis using that bunpin_pin [OF 3(2) _ 3(5)] n(2) by auto
  qed
  have f: "vw d s m = disk s4 m"
    using vw_unpinned [OF c m(2)] r(4) 3(3) 4(3) m(3) by (simp add: still_def put_def)
  have "keyed d m (bufs s4 bm)" "b_data (bufs s4 bm) = disk s4 m"
    using same_keyed [OF 4(4)] 4(4) [of bm] r(7,10) 3(4) f by (simp_all add: same_block_def)
  then obtain s5 where 5: "brelse bm s4 = Ret s5" "cache d ?B {bn} s5" "still d s4 s5" "\<And>c. same_block (bufs s5 c) (bufs s4 c)"
    using brelse_pin [OF 4(2), of bm m] r(6) by (auto simp: insert_Diff_if)
  have "keyed d n (bufs s5 bn)" "b_data (bufs s5 bn) = disk s5 n"
    using same_keyed [OF 5(4)] same_keyed [OF 4(4)] 3(3,5,6) 4(3,4) 5(3,4) by (simp_all add: same_block_def still_def put_def)
  then obtain s6 where 6: "brelse bn s5 = Ret s6" "cache d ?B {} s6" "still d s5 s6"
    using brelse_pin [OF 5(2), of bn n] by auto
  note f1 = frame_log [OF still_frame [OF r(2)]]
  have "put d n (vw d s m) s s6"
    using still_put [OF r(4)] put_still [OF 3(3)] still_trans [OF 4(3) still_trans [OF 5(3) 6(3)]] by blast
  moreover have "install_loop recovering (Suc k) tail s = install_loop recovering k (Suc tail) s6"
    using r(1,3,10) 3(1) 4(1) 5(1) 6(1) by (simp add: d [symmetric] m(1) [symmetric] n(1) [symmetric] f1)
  ultimately show ?thesis using 6(2) by blast
qed

section \<open>The loops\<close>

definition replay :: "(u32 \<Rightarrow> byte list) \<Rightarrow> (u32 \<times> byte list) list \<Rightarrow> u32 \<Rightarrow> byte list" where
  "replay D ws = foldl (\<lambda>D (n, v). D(n := v)) D ws"

definition puts :: "u32 \<Rightarrow> (u32 \<times> byte list) list \<Rightarrow> 'z blocks_scheme \<Rightarrow> 'z blocks_scheme \<Rightarrow> bool" where
  "puts d ws s s' \<longleftrightarrow>
     cache_frame s s' \<and> vw d s' = replay (vw d s) ws \<and> disk s' = replay (disk s) ws \<and> disk_log s' = disk_log s @ ws"

lemma replay_simps [simp]: "replay D [] = D" "replay D ((n, v) # ws) = replay (D(n := v)) ws" "replay D (us @ ws) = replay (replay D us) ws"
  by (simp_all add: replay_def)

lemma replay_other: "n \<notin> fst ` set ws \<Longrightarrow> replay D ws n = D n"
  by (induction ws arbitrary: D) auto

lemma replay_written: "distinct (map fst ws) \<Longrightarrow> (n, v) \<in> set ws \<Longrightarrow> replay D ws n = v"
  by (induction ws arbitrary: D) (auto simp: replay_other image_iff)

lemma puts_refl [simp]: "puts d [] s s"
  by (simp add: puts_def)

lemma puts_Cons: "put d n v s t \<Longrightarrow> puts d ws t u \<Longrightarrow> puts d ((n, v) # ws) s u"
  by (auto simp: put_def puts_def intro: cache_frame_trans)

lemma puts_append: "puts d us s t \<Longrightarrow> puts d ws t u \<Longrightarrow> puts d (us @ ws) s u"
  by (auto simp: puts_def intro: cache_frame_trans)

lemma puts_single: "put d n v s t \<longleftrightarrow> puts d [(n, v)] s t"
  by (auto simp: put_def puts_def)

lemma puts_frame: "puts d ws s s' \<Longrightarrow> cache_frame s s'"
  by (simp add: puts_def)

lemma put_frame: "put d n v s s' \<Longrightarrow> cache_frame s s'"
  by (simp add: put_def)

definition log_writes :: "u32 \<Rightarrow> nat \<Rightarrow> nat \<Rightarrow> 'z log_scheme \<Rightarrow> (u32 \<times> byte list) list" where
  "log_writes d tail k s = map (\<lambda>i. (log_start s + of_nat i + 1, vw d s (lh_block s ! i))) [tail..<tail + k]"

definition home_writes :: "u32 \<Rightarrow> nat \<Rightarrow> nat \<Rightarrow> 'z log_scheme \<Rightarrow> (u32 \<times> byte list) list" where
  "home_writes d tail k s = map (\<lambda>i. (lh_block s ! i, vw d s (log_start s + of_nat i + 1))) [tail..<tail + k]"

lemma write_log_loop_spec:
  fixes s :: "'z log_scheme"
  assumes "cache d B {} s" and "d = log_dev s" and B: "finite B" "card B < NBUF"
    and "\<And>i. tail \<le> i \<Longrightarrow> i < tail + k \<Longrightarrow> lh_block s ! i \<in> B \<and> log_start s + of_nat i + 1 \<notin> B"
  shows "\<exists>s'. write_log_loop k tail s = Ret s' \<and> cache d B {} s' \<and> puts d (log_writes d tail k s) s s'"
  using assms(1,2,5)
proof (induction k arbitrary: tail s)
  case 0
  then show ?case by (auto simp: log_writes_def)
next
  case (Suc k)
  let ?m = "log_start s + of_nat tail + 1" and ?n = "lh_block s ! tail"
  obtain s1 where s1: "write_log_loop (Suc k) tail s = write_log_loop k (Suc tail) s1" "cache d B {} s1" "put d ?m (vw d s ?n) s s1"
    using write_log_step [OF Suc.prems(1,2) B refl _ refl, of tail k] Suc.prems(3) [of tail] by auto
  note f = frame_log [OF put_frame [OF s1(3)]]
  have d1: "d = log_dev s1" using Suc.prems(2) by (simp add: f)
  have pre: "lh_block s1 ! i \<in> B \<and> log_start s1 + of_nat i + 1 \<notin> B" if "Suc tail \<le> i" "i < Suc tail + k" for i
    using Suc.prems(3) [of i] that by (simp add: f)
  obtain s' where s': "write_log_loop k (Suc tail) s1 = Ret s'" "cache d B {} s'" "puts d (log_writes d (Suc tail) k s1) s1 s'"
    using Suc.IH [of s1 "Suc tail", OF s1(2) d1] pre by auto
  have "vw d s1 (lh_block s ! i) = vw d s (lh_block s ! i)" if "tail \<le> i" "i < tail + Suc k" for i
    using s1(3) Suc.prems(3) [OF that] Suc.prems(3) [of tail] by (auto simp: put_def)
  then have "log_writes d tail (Suc k) s = (?m, vw d s ?n) # log_writes d (Suc tail) k s1"
    by (simp add: log_writes_def f upt_conv_Cons del: upt_Suc)
  with s1 s' show ?case by (auto intro: puts_Cons)
qed

lemma install_loop_spec:
  fixes s :: "'z log_scheme"
  assumes "cache d B {} s" and "d = log_dev s" and "finite B" and "card B < NBUF" and "recovering \<Longrightarrow> B = {}"
    and "\<And>i. tail \<le> i \<Longrightarrow> i < tail + k \<Longrightarrow> (recovering \<or> lh_block s ! i \<in> B) \<and> log_start s + of_nat i + 1 \<notin> B"
    and "\<And>i j. tail \<le> i \<Longrightarrow> i < tail + k \<Longrightarrow> tail \<le> j \<Longrightarrow> j < tail + k \<Longrightarrow>
      lh_block s ! i \<noteq> log_start s + of_nat j + 1 \<and> (lh_block s ! i = lh_block s ! j \<longrightarrow> i = j)"
  shows "\<exists>s'. install_loop recovering k tail s = Ret s' \<and>
    cache d (if recovering then B else B - (!) (lh_block s) ` {tail..<tail + k}) {} s' \<and> puts d (home_writes d tail k s) s s'"
  using assms
proof (induction k arbitrary: tail s B)
  case 0
  then show ?case by (auto simp: home_writes_def)
next
  case (Suc k)
  let ?m = "log_start s + of_nat tail + 1" and ?n = "lh_block s ! tail"
  let ?B = "if recovering then B else B - {?n}"
  have mn: "?m \<notin> B" "?m \<noteq> ?n" "recovering \<and> B = {} \<or> \<not> recovering \<and> ?n \<in> B"
    using Suc.prems(5) Suc.prems(6) [of tail] Suc.prems(7) [of tail tail] by auto
  obtain s1 where s1: "install_loop recovering (Suc k) tail s = install_loop recovering k (Suc tail) s1" "cache d ?B {} s1" "put d ?n (vw d s ?m) s s1"
    using install_step [OF Suc.prems(1,2,3,4) refl mn(1,2) refl mn(3), of k] by blast
  note f = frame_log [OF put_frame [OF s1(3)]]
  have d1: "d = log_dev s1" using Suc.prems(2) by (simp add: f)
  have fin: "finite ?B" "card ?B < NBUF" "recovering \<Longrightarrow> ?B = {}"
    using Suc.prems(3,4,5) card_mono [of B ?B] by (auto intro: le_less_trans)
  have p1: "(recovering \<or> lh_block s1 ! i \<in> ?B) \<and> log_start s1 + of_nat i + 1 \<notin> ?B" if "Suc tail \<le> i" "i < Suc tail + k" for i
    using Suc.prems(6) [of i] Suc.prems(7) [of i tail] that by (auto simp: f)
  have p2: "lh_block s1 ! i \<noteq> log_start s1 + of_nat j + 1 \<and> (lh_block s1 ! i = lh_block s1 ! j \<longrightarrow> i = j)"
    if "Suc tail \<le> i" "i < Suc tail + k" "Suc tail \<le> j" "j < Suc tail + k" for i j
    using Suc.prems(7) [of i j] that by (simp add: f)
  obtain s' where s': "install_loop recovering k (Suc tail) s1 = Ret s'"
    "cache d (if recovering then ?B else ?B - (!) (lh_block s1) ` {Suc tail..<Suc tail + k}) {} s'" "puts d (home_writes d (Suc tail) k s1) s1 s'"
    using Suc.IH [of ?B s1 "Suc tail", OF s1(2) d1 fin p1 p2] by auto
  have "{tail..<tail + Suc k} = insert tail {Suc tail..<Suc tail + k}" by auto
  then have sets: "(if recovering then ?B else ?B - (!) (lh_block s1) ` {Suc tail..<Suc tail + k}) =
      (if recovering then B else B - (!) (lh_block s) ` {tail..<tail + Suc k})" by (auto simp: f)
  have "vw d s1 (log_start s + of_nat i + 1) = vw d s (log_start s + of_nat i + 1)" if "tail \<le> i" "i < tail + Suc k" for i
    using s1(3) Suc.prems(7) [of tail i] that by (auto simp: put_def)
  then have "home_writes d tail (Suc k) s = (?n, vw d s ?m) # home_writes d (Suc tail) k s1"
    by (simp add: home_writes_def f upt_conv_Cons del: upt_Suc)
  with s1 s' sets show ?case by (auto intro: puts_Cons)
qed

section \<open>The header\<close>

lemma write_head_spec:
  fixes s :: "'z log_scheme"
  assumes c: "cache d B {} s" and d: "d = log_dev s" and B: "finite B" "card B < NBUF" and st: "log_start s \<notin> B"
  shows "\<exists>s'. write_head s = Ret s' \<and> cache d B {} s' \<and>
    put d (log_start s) (write_blocks (nat (lh_n s)) (lh_block s) (put32 0 (of_int (lh_n s)) (disk s (log_start s)))) s s'"
proof -
  let ?n = "log_start s"
  obtain b s1 where 1: "bread d ?n s = Ret (b, s1)" "cache d B {b} s1" "keyed d ?n (bufs s1 b)" "b_valid (bufs s1 b)"
    "b_data (bufs s1 b) = vw d s ?n" "still d s s1"
    using bread_pin [OF c _ B(1), of ?n] B(2) by auto
  note f = frame_log [OF still_frame [OF 1(6)]]
  let ?h = "write_blocks (nat (lh_n s)) (lh_block s) (put32 0 (of_int (lh_n s)) (disk s ?n))"
  obtain s2 where 2: "bwrite b (set_data b ?h s1) = Ret s2" "cache d B {b} s2" "put d ?n ?h s1 s2" "keyed d ?n (bufs s2 b)" "b_data (bufs s2 b) = ?h"
    using bwrite_pin [OF 1(2) _ 1(3,4), of ?h] by auto
  then have "b_data (bufs s2 b) = disk s2 ?n" by (simp add: put_def)
  then obtain s3 where 3: "brelse b s2 = Ret s3" "cache d B {} s3" "still d s2 s3"
    using brelse_pin [OF 2(2) _ 2(4)] by auto
  have "put d ?n ?h s s3" using still_put [OF 1(6)] put_still [OF 2(3) 3(3)] by blast
  moreover have "write_head s = Ret s3"
    using 1(1,5) 2(1) 3(1) vw_unpinned [OF c st] by (simp add: write_head_def d [symmetric] f)
  ultimately show ?thesis using 3(2) by blast
qed

lemma read_head_spec:
  fixes s :: "'z log_scheme"
  assumes c: "cache d {} {} s" and d: "d = log_dev s" and n: "sint (get32 0 (disk s (log_start s))) \<le> int LOGSIZE"
  shows "\<exists>t. read_head s = Ret t \<and> cache d {} {} t \<and> vw d t = vw d s \<and> disk t = disk s \<and> log_dev t = d \<and> log_start t = log_start s \<and>
    lh_n t = sint (get32 0 (disk s (log_start s))) \<and>
    lh_block t = read_blocks (nat (lh_n t)) (disk s (log_start s)) @ drop (nat (lh_n t)) (lh_block s)"
proof -
  let ?n = "log_start s"
  obtain b s1 where 1: "bread d ?n s = Ret (b, s1)" "cache d {} {b} s1" "keyed d ?n (bufs s1 b)" "b_data (bufs s1 b) = vw d s ?n" "still d s s1"
    using bread_pin [OF c, of ?n] by (auto simp: NBUF_def MAXOPBLOCKS_def)
  note f = frame_log [OF still_frame [OF 1(5)]]
  have v: "vw d s ?n = disk s ?n" by (rule vw_unpinned [OF c]) simp
  let ?h = "disk s ?n"
  let ?t = "s1\<lparr>lh_n := sint (get32 0 ?h), lh_block := read_blocks (nat (sint (get32 0 ?h))) ?h @ drop (nat (sint (get32 0 ?h))) (lh_block s1)\<rparr>"
  have "cache d {} {b} ?t" using 1(2) by (simp add: cache_def cst_def cache_free_def)
  moreover have "keyed d ?n (bufs ?t b)" "b_data (bufs ?t b) = disk ?t ?n" using 1(3,4,5) v by (simp_all add: still_def)
  ultimately obtain t where t: "brelse b ?t = Ret t" "cache d {} {} t" "still d ?t t"
    using brelse_pin [of d "{}" "{b}" ?t b ?n] by auto
  have "read_head s = Ret t" using 1(1,4) v n t(1) by (simp add: read_head_def d [symmetric])
  moreover note frame_log [OF still_frame [OF t(3)]]
  moreover have "vw d ?t = vw d s1" by (simp add: vw_def)
  ultimately show ?thesis using t 1(5) f d by (simp add: still_def)
qed

section \<open>Recovery\<close>

definition log_slot :: "u32 \<Rightarrow> nat \<Rightarrow> u32" where
  "log_slot start i = start + of_nat i + 1"

definition log_area :: "u32 \<Rightarrow> u32 set" where
  "log_area start = insert start (log_slot start ` {..<LOGSIZE})"

lemma small_word_inj:
  assumes "(of_nat i :: u32) = of_nat j" and "i < 2 ^ 32" and "j < 2 ^ 32"
  shows "i = j"
  using arg_cong [OF assms(1), of unat] assms(2,3) by (simp add: unat_of_nat)

lemma log_slot_neq:
  assumes "i < LOGSIZE"
  shows "log_slot start i \<noteq> start"
proof
  assume "log_slot start i = start"
  then have "(of_nat (Suc i) :: u32) = of_nat 0" by (simp add: log_slot_def add.assoc add.commute)
  then show False using small_word_inj [of "Suc i" 0] assms by (simp add: LOGSIZE_def MAXOPBLOCKS_def)
qed

lemma log_slot_inj:
  assumes "i < LOGSIZE" and "j < LOGSIZE" and "log_slot start i = log_slot start j"
  shows "i = j"
  using assms small_word_inj [of i j] by (simp add: log_slot_def LOGSIZE_def MAXOPBLOCKS_def)

text \<open>The blocks a header on disk lists.\<close>

definition disk_list :: "(u32 \<Rightarrow> byte list) \<Rightarrow> u32 \<Rightarrow> u32 list" where
  "disk_list D start = read_blocks (nat (sint (get32 0 (D start)))) (D start)"

lemma length_read_blocks [simp]: "length (read_blocks k d) = k"
  by (induction k) simp_all

text \<open>Recovery copies each listed block from its log slot to its place and clears the header.\<close>

lemma recover_spec:
  fixes r :: "'z log_scheme"
  assumes c: "cache d {} {} r" and d: "d = log_dev r" and D: "D = disk r" and bl: "bl = disk_list D (log_start r)"
    and cnt: "sint (get32 0 (D (log_start r))) = int (length bl)" "length bl \<le> LOGSIZE"
    and ok: "distinct bl" "set bl \<inter> log_area (log_start r) = {}"
  shows "\<exists>r'. recover_from_log r = Ret r' \<and>
    (\<forall>x. x \<noteq> log_start r \<longrightarrow> disk r' x = replay D (map (\<lambda>i. (bl ! i, D (log_slot (log_start r) i))) [0..<length bl]) x)"
proof -
  let ?st = "log_start r" and ?n = "length bl"
  have h: "sint (get32 0 (disk r ?st)) = int ?n" "read_blocks ?n (disk r ?st) = bl"
    using cnt(1) unfolding D bl disk_list_def by simp_all
  then have le: "sint (get32 0 (disk r ?st)) \<le> int LOGSIZE" using cnt(2) by simp
  obtain t where t: "read_head r = Ret t" "cache d {} {} t" "vw d t = vw d r" "disk t = disk r" "log_dev t = d" "log_start t = ?st"
    "lh_n t = int ?n" "lh_block t = bl @ drop ?n (lh_block r)"
    using read_head_spec [OF c d le] unfolding h nat_int by (elim exE conjE) (rule that, simp_all add: h)
  have nb: "lh_block t ! i = bl ! i" if "i < ?n" for i using that by (simp add: t(8) nth_append)
  have p1: "(True \<or> lh_block t ! i \<in> {}) \<and> log_start t + of_nat i + 1 \<notin> {}" for i by simp
  have p2: "lh_block t ! i \<noteq> log_start t + of_nat j + 1 \<and> (lh_block t ! i = lh_block t ! j \<longrightarrow> i = j)"
    if "0 \<le> i" "i < 0 + ?n" "0 \<le> j" "j < 0 + ?n" for i j
  proof -
    have "bl ! i \<in> set bl" "log_slot ?st j \<in> log_area ?st" using that cnt(2) by (auto simp: log_area_def)
    then have "bl ! i \<noteq> log_slot ?st j" using ok(2) by auto
    then show ?thesis using that ok(1) by (simp add: nb t(6) log_slot_def nth_eq_iff_index_eq)
  qed
  obtain u where u: "install_loop True ?n 0 t = Ret u" "cache d {} {} u" "puts d (home_writes d 0 ?n t) t u"
    using install_loop_spec [of d "{}" t True 0 ?n, OF t(2) t(5) [symmetric] _ _ _ p1 p2] by (auto simp: NBUF_def MAXOPBLOCKS_def)
  note f = frame_log [OF puts_frame [OF u(3)]]
  have vd: "vw d t x = D x" for x using vw_unpinned [OF t(2)] by (simp add: t(4) D)
  have hw: "home_writes d 0 ?n t = map (\<lambda>i. (bl ! i, D (log_slot ?st i))) [0..<?n]"
    by (simp add: home_writes_def t(6) nb vd log_slot_def)
  let ?u = "u\<lparr>lh_n := 0\<rparr>"
  have cu: "cache d {} {} ?u" using u(2) by (simp add: cache_def cst_def cache_free_def)
  obtain r' where r': "write_head ?u = Ret r'" "cache d {} {} r'"
    "put d (log_start ?u) (write_blocks (nat (lh_n ?u)) (lh_block ?u) (put32 0 (of_int (lh_n ?u)) (disk ?u (log_start ?u)))) ?u r'"
    using write_head_spec [OF cu] t(5) f by (auto simp: NBUF_def MAXOPBLOCKS_def)
  have "disk r' x = replay D (map (\<lambda>i. (bl ! i, D (log_slot ?st i))) [0..<?n]) x" if "x \<noteq> ?st" for x
    using r'(3) that u(3) f t(4,6) by (simp add: put_def puts_def hw D)
  moreover have "recover_from_log r = Ret r'" using t(1,7) u(1) r'(1) by (simp add: recover_from_log_def install_trans_def)
  ultimately show ?thesis by blast
qed

section \<open>Commit\<close>

definition logged :: "'z log_scheme \<Rightarrow> u32 list" where
  "logged s = take (nat (lh_n s)) (lh_block s)"

text \<open>
  The state in which the last \<open>end_op\<close> commits: the blocks of the transaction, fewer than there
  are buffers, are pinned, and the log on disk is empty.
\<close>

definition log_ready :: "u32 \<Rightarrow> 'z log_scheme \<Rightarrow> bool" where
  "log_ready d s \<longleftrightarrow>
     d = log_dev s \<and> cache d (set (logged s)) {} s \<and> 0 < lh_n s \<and> lh_n s < int NBUF \<and> length (lh_block s) = LOGSIZE \<and>
     distinct (logged s) \<and> set (logged s) \<inter> log_area (log_start s) = {} \<and>
     get32 0 (disk s (log_start s)) = 0 \<and> length (disk s (log_start s)) = BSIZE"

definition head_of :: "'z log_scheme \<Rightarrow> byte list" where
  "head_of s = write_blocks (nat (lh_n s)) (lh_block s) (put32 0 (of_int (lh_n s)) (disk s (log_start s)))"

definition to_log :: "u32 \<Rightarrow> 'z log_scheme \<Rightarrow> (u32 \<times> byte list) list" where
  "to_log d s = map (\<lambda>i. (log_slot (log_start s) i, vw d s (logged s ! i))) [0..<length (logged s)]"

definition to_home :: "u32 \<Rightarrow> 'z log_scheme \<Rightarrow> (u32 \<times> byte list) list" where
  "to_home d s = map (\<lambda>n. (n, vw d s n)) (logged s)"

definition commit_writes :: "u32 \<Rightarrow> 'z log_scheme \<Rightarrow> (u32 \<times> byte list) list" where
  "commit_writes d s = to_log d s @ [(log_start s, head_of s)] @ to_home d s @ [(log_start s, put32 0 0 (head_of s))]"

lemma log_ready_facts:
  assumes "log_ready d s"
  shows "length (logged s) = nat (lh_n s)" "length (logged s) < LOGSIZE" "card (set (logged s)) < NBUF" "int (length (logged s)) = lh_n s"
    "i < length (logged s) \<Longrightarrow> lh_block s ! i = logged s ! i"
    "i < length (logged s) \<Longrightarrow> log_slot (log_start s) i \<notin> set (logged s)" "log_start s \<notin> set (logged s)"
proof -
  have n: "0 < lh_n s" "lh_n s < 30" "length (lh_block s) = 30" and a: "set (logged s) \<inter> log_area (log_start s) = {}" and dis: "distinct (logged s)"
    using assms by (simp_all add: log_ready_def NBUF_def LOGSIZE_def MAXOPBLOCKS_def)
  show len: "length (logged s) = nat (lh_n s)" using n by (simp add: logged_def)
  show L: "length (logged s) < LOGSIZE" using n len by (simp add: LOGSIZE_def MAXOPBLOCKS_def)
  show "card (set (logged s)) < NBUF" using n len distinct_card [OF dis] by (simp add: NBUF_def MAXOPBLOCKS_def)
  show "int (length (logged s)) = lh_n s" using n len by simp
  show "lh_block s ! i = logged s ! i" if "i < length (logged s)" using that len by (simp add: logged_def)
  show "log_slot (log_start s) i \<notin> set (logged s)" if "i < length (logged s)" using that L a by (auto simp: log_area_def)
  show "log_start s \<notin> set (logged s)" using a by (auto simp: log_area_def)
qed

lemma map_fst_to_log: "map fst (to_log d s) = map (log_slot (log_start s)) [0..<length (logged s)]"
  by (simp add: to_log_def comp_def)

lemma distinct_to_log: "length (logged s) \<le> LOGSIZE \<Longrightarrow> distinct (map fst (to_log d s))"
  by (auto simp: map_fst_to_log distinct_map inj_on_def dest: log_slot_inj [rotated 2])

lemma to_log_not_start: "length (logged s) \<le> LOGSIZE \<Longrightarrow> log_start s \<notin> fst ` set (to_log d s)"
  by (auto simp: to_log_def image_image dest!: log_slot_neq [THEN not_sym, THEN notE, rotated])

lemma commit_spec:
  fixes s :: "'z log_scheme"
  assumes R: "log_ready d s"
  shows "\<exists>s'. commit s = Ret s' \<and> cache d {} {} s' \<and> lh_n s' = 0 \<and>
    disk s' = replay (disk s) (commit_writes d s) \<and> disk_log s' = disk_log s @ commit_writes d s"
proof -
  let ?B = "set (logged s)" and ?n = "length (logged s)" and ?st = "log_start s"
  have d: "d = log_dev s" and c: "cache d ?B {} s" and dis: "distinct (logged s)" and n0: "0 < lh_n s" using R unfolding log_ready_def by blast+
  note F = log_ready_facts [OF R]
  have L: "?n \<le> LOGSIZE" using F(2) by simp
  have lw: "log_writes d 0 ?n s = to_log d s" using F(5) by (simp add: log_writes_def to_log_def log_slot_def)
  have "\<And>i. 0 \<le> i \<Longrightarrow> i < 0 + ?n \<Longrightarrow> lh_block s ! i \<in> ?B \<and> ?st + of_nat i + 1 \<notin> ?B" using F(5,6) by (auto simp: log_slot_def)
  then obtain s1 where 1: "write_log_loop ?n 0 s = Ret s1" "cache d ?B {} s1" "puts d (to_log d s) s s1"
    using write_log_loop_spec [OF c d _ F(3), of 0 ?n] lw by auto
  note f1 = frame_log [OF puts_frame [OF 1(3)]]
  have "disk s1 ?st = disk s ?st" using 1(3) replay_other [OF to_log_not_start [OF L]] by (simp add: puts_def)
  then obtain s2 where 2: "write_head s1 = Ret s2" "cache d ?B {} s2" "put d ?st (head_of s) s1 s2"
    using write_head_spec [OF 1(2) _ _ F(3)] d f1 F(7) by (auto simp: head_of_def)
  note f2 = frame_log [OF put_frame [OF 2(3)]]
  have v2: "vw d s2 (log_slot ?st i) = vw d s (logged s ! i)" if "i < ?n" for i
  proof -
    have "vw d s2 (log_slot ?st i) = replay (vw d s) (to_log d s) (log_slot ?st i)"
      using 2(3) 1(3) log_slot_neq [of i ?st] that F(2) by (simp add: put_def puts_def)
    also have "\<dots> = vw d s (logged s ! i)"
      using that by (intro replay_written [OF distinct_to_log [OF L]]) (auto simp: to_log_def)
    finally show ?thesis .
  qed
  have "home_writes d 0 ?n s2 = map (\<lambda>i. (logged s ! i, vw d s (logged s ! i))) [0..<?n]"
    using v2 F(5) by (simp add: home_writes_def f1 f2 log_slot_def)
  also have "\<dots> = map (\<lambda>n. (n, vw d s n)) (map ((!) (logged s)) [0..<?n])" by simp
  finally have hw: "home_writes d 0 ?n s2 = to_home d s" by (simp only: map_nth to_home_def)
  have p1: "(False \<or> lh_block s2 ! i \<in> ?B) \<and> log_start s2 + of_nat i + 1 \<notin> ?B" if "0 \<le> i" "i < 0 + ?n" for i
    using F(5,6) [of i] that by (auto simp: log_slot_def f1 f2)
  have p2: "lh_block s2 ! i \<noteq> log_start s2 + of_nat j + 1 \<and> (lh_block s2 ! i = lh_block s2 ! j \<longrightarrow> i = j)"
    if "0 \<le> i" "i < 0 + ?n" "0 \<le> j" "j < 0 + ?n" for i j
  proof -
    have ij: "i < ?n" "j < ?n" using that by simp_all
    then have "logged s ! i \<noteq> log_slot ?st j" using F(6) [of j] nth_mem [of i "logged s"] by metis
    with ij dis show ?thesis by (simp add: F(5) log_slot_def f1 f2 nth_eq_iff_index_eq)
  qed
  have img: "(!) (lh_block s2) ` {0..<0 + ?n} = ?B" using F(5) by (auto simp: f1 f2 set_conv_nth)
  obtain s3 where 3: "install_loop False ?n 0 s2 = Ret s3" "cache d {} {} s3" "puts d (to_home d s) s2 s3"
    using install_loop_spec [of d ?B s2 False 0 ?n, OF 2(2) _ _ F(3) _ p1 p2] d f1 f2 hw img by auto
  note f3 = frame_log [OF puts_frame [OF 3(3)]]
  let ?s3 = "s3\<lparr>lh_n := 0\<rparr>"
  have c3: "cache d {} {} ?s3" using 3(2) by (simp add: cache_def cst_def cache_free_def)
  have "disk s3 ?st = disk s2 ?st" using 3(3) replay_other [of ?st "to_home d s"] F(7) by (auto simp: puts_def to_home_def image_image)
  then have h: "disk s3 ?st = head_of s" using 2(3) by (simp add: put_def)
  obtain s4 where 4: "write_head ?s3 = Ret s4" "cache d {} {} s4" "put d ?st (put32 0 0 (head_of s)) ?s3 s4"
    using write_head_spec [OF c3] d f1 f2 f3 h by (auto simp: NBUF_def MAXOPBLOCKS_def)
  have "commit s = Ret s4"
    using n0 1(1) 2(1) 3(1) 4(1) F(1) f1 f2 by (simp add: commit_def write_log_def install_trans_def)
  moreover have "disk s4 = replay (disk s) (commit_writes d s)" "disk_log s4 = disk_log s @ commit_writes d s"
    using 1(3) 2(3) 3(3) 4(3) by (simp_all add: puts_def put_def commit_writes_def)
  moreover have "lh_n s4 = 0" using frame_log(3) [OF put_frame [OF 4(3)]] by simp
  ultimately show ?thesis using 4(2) by blast
qed

section \<open>Crashes\<close>

text \<open>The disk the transaction is to leave.\<close>

definition committed_disk :: "u32 \<Rightarrow> 'z log_scheme \<Rightarrow> u32 \<Rightarrow> byte list" where
  "committed_disk d s x = (if x \<in> set (logged s) then vw d s x else disk s x)"

text \<open>The machine is started again with the disk \<open>D\<close> and nothing modified in the cache.\<close>

definition rebooted :: "u32 \<Rightarrow> u32 \<Rightarrow> (u32 \<Rightarrow> byte list) \<Rightarrow> 'y log_scheme \<Rightarrow> bool" where
  "rebooted d start D r \<longleftrightarrow> cache d {} {} r \<and> log_dev r = d \<and> log_start r = start \<and> disk r = D"

lemma recover_empty:
  assumes "rebooted d start D r" and "get32 0 (D start) = 0"
  shows "\<exists>r'. recover_from_log r = Ret r' \<and> (\<forall>x. x \<noteq> start \<longrightarrow> disk r' x = D x)"
proof -
  have "disk_list D start = []" using assms(2) by (simp add: disk_list_def)
  moreover have rb: "cache d {} {} r" "d = log_dev r" "D = disk r" "log_start r = start" using assms(1) by (simp_all add: rebooted_def)
  ultimately have "[] = disk_list D (log_start r)" by simp
  from recover_spec [OF rb(1-3) this] show ?thesis using assms(2) by (simp add: rb(4))
qed

lemma to_home_fst: "fst ` set (to_home d s) = set (logged s)"
  by (auto simp: to_home_def image_image)

lemma replay_home: "distinct (logged s) \<Longrightarrow> x \<in> set (logged s) \<Longrightarrow> replay D (to_home d s) x = vw d s x"
  by (rule replay_written) (auto simp: to_home_def comp_def)

lemma sint_count:
  assumes "0 \<le> n" and "n < int LOGSIZE"
  shows "sint (of_int n :: u32) = n"
  using assms by (simp add: LOGSIZE_def MAXOPBLOCKS_def sint_sbintrunc' signed_take_bit_int_eq_self)

lemma head_of_facts:
  assumes R: "log_ready d s"
  shows "length (head_of s) = BSIZE" "sint (get32 0 (head_of s)) = int (length (logged s))" "read_blocks (length (logged s)) (head_of s) = logged s"
proof -
  have l: "length (disk s (log_start s)) = BSIZE" "length (lh_block s) = LOGSIZE" using R by (simp_all add: log_ready_def)
  note F = log_ready_facts [OF R]
  have fits: "4 + 4 * nat (lh_n s) \<le> BSIZE" using F(1,2) by (simp add: BSIZE_def LOGSIZE_def MAXOPBLOCKS_def)
  then have d: "4 + 4 * nat (lh_n s) \<le> length (put32 0 (of_int (lh_n s)) (disk s (log_start s)))" using l by (simp add: BSIZE_def)
  show "length (head_of s) = BSIZE" using d l by (simp add: head_of_def BSIZE_def)
  have "get32 0 (head_of s) = of_int (lh_n s)" using write_blocks_count [OF d] l by (simp add: head_of_def BSIZE_def)
  then show "sint (get32 0 (head_of s)) = int (length (logged s))" using sint_count [of "lh_n s"] F(2,4) by simp
  show "read_blocks (length (logged s)) (head_of s) = logged s"
    using read_write_blocks [of "nat (lh_n s)" "nat (lh_n s)" _ "lh_block s"] d F(1,2) l by (simp add: head_of_def logged_def)
qed

lemma recover_committed:
  assumes R: "log_ready d s" and r: "rebooted d (log_start s) D r"
    and h: "D (log_start s) = head_of s" and slots: "\<And>i. i < length (logged s) \<Longrightarrow> D (log_slot (log_start s) i) = vw d s (logged s ! i)"
    and home: "\<And>x. x \<notin> log_area (log_start s) \<Longrightarrow> x \<notin> set (logged s) \<Longrightarrow> D x = disk s x"
  shows "\<exists>r'. recover_from_log r = Ret r' \<and> (\<forall>x. x \<notin> log_area (log_start s) \<longrightarrow> disk r' x = committed_disk d s x)"
proof -
  let ?st = "log_start s" and ?n = "length (logged s)"
  note F = log_ready_facts [OF R]
  note H = head_of_facts [OF R]
  have ok: "distinct (logged s)" "set (logged s) \<inter> log_area (log_start r) = {}" using R r by (simp_all add: log_ready_def rebooted_def)
  have rb: "cache d {} {} r" "d = log_dev r" "D = disk r" "log_start r = ?st" using r by (simp_all add: rebooted_def)
  have "logged s = disk_list D (log_start r)" using H by (simp add: disk_list_def rb(4) h)
  from recover_spec [OF rb(1-3) this _ _ ok] obtain r' where r': "recover_from_log r = Ret r'"
    "\<And>x. x \<noteq> ?st \<Longrightarrow> disk r' x = replay D (map (\<lambda>i. (logged s ! i, D (log_slot ?st i))) [0..<?n]) x"
    using H(2) F(2) by (auto simp: rb(4) h)
  have "map (\<lambda>i. (logged s ! i, D (log_slot ?st i))) [0..<?n] = map (\<lambda>n. (n, vw d s n)) (map ((!) (logged s)) [0..<?n])"
    using slots by simp
  then have m: "map (\<lambda>i. (logged s ! i, D (log_slot ?st i))) [0..<?n] = to_home d s" by (simp only: map_nth to_home_def)
  have "disk r' x = committed_disk d s x" if "x \<notin> log_area ?st" for x
  proof -
    have "x \<noteq> ?st" using that by (auto simp: log_area_def)
    then show ?thesis using r'(2) [of x] replay_home [OF ok(1)] replay_other [of x "to_home d s"] home [OF that]
      by (simp add: m to_home_fst committed_disk_def)
  qed
  with r'(1) show ?thesis by blast
qed

text \<open>The three stretches of the sequence of writes at which it may be cut.\<close>

lemma commit_parts:
  assumes "log_ready d s"
  shows "length (to_log d s) = length (logged s)" "length (to_home d s) = length (logged s)" "length (logged s) \<le> LOGSIZE"
    "fst ` set (to_log d s) \<subseteq> log_area (log_start s)"
  using log_ready_facts(2) [OF assms] by (auto simp: to_log_def to_home_def log_area_def)

lemma fst_take: "fst ` set (take j ws) \<subseteq> fst ` set ws"
  by (auto dest: in_set_takeD)

lemma crash_before_head:
  assumes R: "log_ready d s" and k: "k \<le> length (logged s)"
    and rb: "rebooted d (log_start s) (replay (disk s) (take k (commit_writes d s))) r"
  shows "\<exists>r'. recover_from_log r = Ret r' \<and> (\<forall>x. x \<notin> log_area (log_start s) \<longrightarrow> disk r' x = disk s x)"
proof -
  let ?D = "replay (disk s) (take k (commit_writes d s))"
  note C = commit_parts [OF R]
  have t: "take k (commit_writes d s) = take k (to_log d s)" using k by (simp add: commit_writes_def C)
  have D: "?D x = disk s x" if "x \<notin> fst ` set (to_log d s)" for x
    using replay_other [of x "take k (to_log d s)"] fst_take [of k "to_log d s"] that unfolding t by blast
  have "get32 0 (?D (log_start s)) = 0" using D [OF to_log_not_start [OF C(3)]] R by (simp add: log_ready_def)
  then obtain r' where "recover_from_log r = Ret r'" "\<And>x. x \<noteq> log_start s \<Longrightarrow> disk r' x = ?D x"
    using recover_empty [OF rb] by auto
  moreover have "x \<noteq> log_start s \<and> x \<notin> fst ` set (to_log d s)" if "x \<notin> log_area (log_start s)" for x
    using that C(4) by (auto simp: log_area_def)
  ultimately show ?thesis using D by auto
qed

lemma crash_after_head:
  assumes R: "log_ready d s" and j: "j \<le> length (logged s)"
    and rb: "rebooted d (log_start s) (replay (disk s) (take (length (logged s) + 1 + j) (commit_writes d s))) r"
  shows "\<exists>r'. recover_from_log r = Ret r' \<and> (\<forall>x. x \<notin> log_area (log_start s) \<longrightarrow> disk r' x = committed_disk d s x)"
proof -
  let ?st = "log_start s" and ?D = "replay (disk s) (take (length (logged s) + 1 + j) (commit_writes d s))"
  let ?E = "(replay (disk s) (to_log d s))(?st := head_of s)"
  note C = commit_parts [OF R]
  note F = log_ready_facts [OF R]
  have t: "?D = replay ?E (take j (to_home d s))" using j by (simp add: commit_writes_def C)
  have D: "?D x = ?E x" if "x \<notin> set (logged s)" for x
    using replay_other [of x "take j (to_home d s)"] fst_take [of j "to_home d s"] that unfolding t to_home_fst by blast
  have "?D (log_slot ?st i) = vw d s (logged s ! i)" if i: "i < length (logged s)" for i
  proof -
    have "replay (disk s) (to_log d s) (log_slot ?st i) = vw d s (logged s ! i)"
      using i by (intro replay_written [OF distinct_to_log [OF C(3)]]) (auto simp: to_log_def)
    then show ?thesis using D [OF F(6) [OF i]] log_slot_neq [of i ?st] i F(2) by simp
  qed
  moreover have "?D x = disk s x" if "x \<notin> log_area ?st" "x \<notin> set (logged s)" for x
    using D [OF that(2)] replay_other [of x "to_log d s" "disk s"] C(4) that(1) by (auto simp: log_area_def)
  moreover have "?D ?st = head_of s" using D [OF F(7)] by simp
  ultimately show ?thesis using recover_committed [OF R rb] by simp
qed

lemma crash_at_end:
  assumes R: "log_ready d s" and k: "2 * length (logged s) + 2 \<le> k"
    and rb: "rebooted d (log_start s) (replay (disk s) (take k (commit_writes d s))) r"
  shows "\<exists>r'. recover_from_log r = Ret r' \<and> (\<forall>x. x \<notin> log_area (log_start s) \<longrightarrow> disk r' x = committed_disk d s x)"
proof -
  let ?st = "log_start s" and ?D = "replay (disk s) (take k (commit_writes d s))"
  let ?E = "replay ((replay (disk s) (to_log d s))(?st := head_of s)) (to_home d s)"
  note C = commit_parts [OF R]
  have dis: "distinct (logged s)" using R by (simp add: log_ready_def)
  have t: "?D = ?E(?st := put32 0 0 (head_of s))" using k by (simp add: commit_writes_def C)
  have "get32 0 (?D ?st) = 0" unfolding t using head_of_facts(1) [OF R] by (simp add: BSIZE_def)
  then obtain r' where r': "recover_from_log r = Ret r'" "\<And>x. x \<noteq> ?st \<Longrightarrow> disk r' x = ?D x"
    using recover_empty [OF rb] by blast
  have "disk r' x = committed_disk d s x" if x: "x \<notin> log_area ?st" for x
  proof -
    have "x \<noteq> ?st" "x \<notin> fst ` set (to_log d s)" using x C(4) by (auto simp: log_area_def)
    then show ?thesis using r'(2) [of x] replay_home [OF dis] replay_other [of x]
      unfolding t by (simp add: committed_disk_def to_home_fst)
  qed
  with r'(1) show ?thesis by blast
qed

text \<open>
  C2. Transactions are atomic. \<open>commit\<close> of a transaction that fits the buffer cache returns, and
  for every point at which the sequence of its disk writes may be cut, recovery from the disk at
  that point returns and leaves every block outside the log area either as it was before the
  transaction, when the cut is before the header is written, or as the transaction wants it.
\<close>

theorem commit_crash_atomic:
  fixes s :: "'z log_scheme" and d :: u32
  assumes "log_ready d s"
  shows "\<exists>s' ws. commit s = Ret s' \<and> disk_log s' = disk_log s @ ws \<and> disk s' = replay (disk s) ws \<and>
    (\<forall>k (r :: 'y log_scheme). rebooted d (log_start s) (replay (disk s) (take k ws)) r \<longrightarrow>
      (\<exists>r'. recover_from_log r = Ret r' \<and>
        (\<forall>x. x \<notin> log_area (log_start s) \<longrightarrow> disk r' x = (if k \<le> length (logged s) then disk s x else committed_disk d s x))))"
proof -
  let ?n = "length (logged s)" and ?ws = "commit_writes d s"
  have "\<exists>r'. recover_from_log r = Ret r' \<and>
      (\<forall>x. x \<notin> log_area (log_start s) \<longrightarrow> disk r' x = (if k \<le> ?n then disk s x else committed_disk d s x))"
    if rb: "rebooted d (log_start s) (replay (disk s) (take k ?ws)) r" for k and r :: "'y log_scheme"
  proof -
    consider "k \<le> ?n" | "?n < k" "k = ?n + 1 + (k - ?n - 1)" "k - ?n - 1 \<le> ?n" | "?n < k" "2 * ?n + 2 \<le> k" by linarith
    then show ?thesis
    proof cases
      case 1
      then show ?thesis using crash_before_head [OF assms 1 rb] by simp
    next
      case 2
      then show ?thesis using crash_after_head [OF assms 2(3)] rb by simp
    next
      case 3
      then show ?thesis using crash_at_end [OF assms 3(2) rb] by simp
    qed
  qed
  with commit_spec [OF assms] show ?thesis by blast
qed

text \<open>A transaction of one block, 50, whose new contents are in buffer 0; the log starts at block 2.\<close>

definition demo_log :: "bool \<Rightarrow> (u32 \<Rightarrow> byte list) \<Rightarrow> log" where
  "demo_log pin D =
     blocks.extend (demo_blocks pin D)
       \<lparr>log_start = 2, log_size = 30, log_outstanding = 0, log_committing = True, log_dev = 1, lh_n = 1, lh_block = 50 # replicate 29 0\<rparr>"

lemma demo_log_fields:
  "bufs (demo_log pin D) = demo_bufs pin" "disk (demo_log pin D) = D" "held (demo_log pin D) = []" "log_start (demo_log pin D) = 2"
  "log_dev (demo_log pin D) = 1" "logged (demo_log pin D) = [50]" "lh_n (demo_log pin D) = 1" "length (lh_block (demo_log pin D)) = LOGSIZE"
  by (simp_all add: demo_log_def demo_blocks_def blocks.defs pipes.defs demo_pipes_ok(3) logged_def LOGSIZE_def MAXOPBLOCKS_def)

lemma demo_cache: "cache 1 (if pin then {50} else {}) {} (demo_log pin D)"
proof -
  have "cinv 1 p {} (demo_bufs pin) D" for p
    using demo_ring [of pin] unfolding cinv_def by (auto simp: demo_bufs_def keyed_def initsleeplock_def split: if_splits)
  moreover have "pinned 1 (if pin then {50} else {}) {} (demo_bufs pin)"
    by (auto simp: pinned_def demo_bufs_def keyed_def NBUF_def MAXOPBLOCKS_def)
  ultimately show ?thesis by (simp add: cache_def cst_def cache_free_def demo_log_fields)
qed

lemma demo_log_ready: "log_ready 1 (demo_log True zero_disk)"
proof -
  have "log_slot 2 i \<noteq> 50" if "i < LOGSIZE" for i
  proof
    assume "log_slot 2 i = 50"
    then have "(of_nat (i + 3) :: u32) = of_nat 50" by (simp add: log_slot_def)
    then show False using small_word_inj [of "i + 3" 50] that by (simp add: LOGSIZE_def MAXOPBLOCKS_def)
  qed
  then have "(50 :: u32) \<notin> log_area 2" by (auto simp: log_area_def)
  moreover have "get32 0 (replicate BSIZE 0) = 0"
  proof -
    have "take 4 (drop 0 (replicate BSIZE 0)) = replicate 4 (0 :: byte)" by (simp add: BSIZE_def)
    also have "\<dots> = [0, 0, 0, 0]" by (simp add: numeral_eq_Suc)
    finally show ?thesis by (simp add: get32_def le_word_def)
  qed
  ultimately show ?thesis
    using demo_cache [of True zero_disk] by (simp add: log_ready_def demo_log_fields NBUF_def MAXOPBLOCKS_def)
qed

theorem commit_crash_atomic_witness:
  "\<exists>s' ws r'. commit (demo_log True zero_disk) = Ret s' \<and> disk s' = replay zero_disk ws \<and>
     recover_from_log (demo_log False (replay zero_disk (take 2 ws))) = Ret r' \<and> disk r' 50 = replicate BSIZE 7"
proof -
  have "rebooted 1 2 D (demo_log False D)" for D
    using demo_cache [of False D] by (simp add: rebooted_def demo_log_fields)
  moreover have "(50 :: u32) \<notin> log_area 2" using demo_log_ready by (simp add: log_ready_def demo_log_fields)
  moreover have "committed_disk 1 (demo_log True zero_disk) 50 = replicate BSIZE 7"
    by (simp add: committed_disk_def demo_log_fields vw_def view_def NBUF_def MAXOPBLOCKS_def upt_rec demo_bufs_def keyed_def)
  ultimately show ?thesis
    using commit_crash_atomic [OF demo_log_ready, where 'y = unit] unfolding demo_log_fields by fastforce
qed

end
