(* ===== verification/Proc.thy ===== *)
theory Proc
  imports Grace Exec
begin

text \<open>
  Processes (kernel/proc.c) on the RCU process list. The state joins the machine and the list
  heap of theory List_Proc with the rest of the kernel, \<open>kern\<close>, as the running process sees it.

  Heap objects come from \<open>knmalloc\<close> at the level of objects: the next unused address \<open>brk\<close>, never
  null (\<open>knmorecore\<close> does not return null when \<open>kalloc\<close> fails: it faults); what the memory
  holds before it is written is \<open>raw_node\<close> and \<open>raw_proc\<close>. A freed node is gone: using it is
  \<open>Fault\<close>. \<open>freeproc\<close> clears a \<open>struct proc\<close> and does not free it, so a stale pointer reads zeros.

  \<open>polled\<close> is what \<open>synchronize_rcu\<close> finds of the CPUs at its iterations, the rest of the
  machine running meanwhile: it may be anything, and a call whose grace period does not end is
  \<open>NoReturn\<close>.

  \<open>swtch\<close> is an argument: what the rest of the machine does until this thread runs again. The
  addresses \<open>trampoline\<close> and \<open>forkret\<close> are arguments too. The debugging output (\<open>printf\<close>,
  \<open>print_proc\<close>, \<open>print_list\<close>, \<open>procdump\<close>) is left out, and so is the matched pair of
  \<open>push_off\<close> and \<open>pop_off\<close> around the read in \<open>myproc\<close>.
\<close>

record psys = rcu +
  kern :: files
  bitmap :: "bool list"
  unique_id :: int
  nextpid :: int
  initproc :: addr
  brk :: addr
  raw_node :: t_node
  raw_proc :: proc
  polled :: cpu_env

section \<open>Access to the objects\<close>

definition myproc :: "'z mach_scheme \<Rightarrow> addr" where
  "myproc s = cpu_proc (mycpu s)"

definition set_myproc :: "addr \<Rightarrow> 'z mach_scheme \<Rightarrow> 'z mach_scheme" where
  "set_myproc p s = upd_mycpu (\<lambda>c. c\<lparr>cpu_proc := p\<rparr>) s"

definition upd_proc :: "addr \<Rightarrow> (proc \<Rightarrow> proc) \<Rightarrow> 'z rcu_scheme \<Rightarrow> 'z rcu_scheme res" where
  "upd_proc p f s = bind_res (get_proc p s) (\<lambda>x. Ret (s\<lparr>procs := (procs s)(p \<mapsto> f x)\<rparr>))"

definition knmalloc_node :: "'z psys_scheme \<Rightarrow> addr \<times> 'z psys_scheme" where
  "knmalloc_node s = (brk s, s\<lparr>brk := Suc (brk s), nodes := (nodes s)(brk s \<mapsto> raw_node s)\<rparr>)"

definition knmalloc_proc :: "'z psys_scheme \<Rightarrow> addr \<times> 'z psys_scheme" where
  "knmalloc_proc s = (brk s, s\<lparr>brk := Suc (brk s), procs := (procs s)(brk s \<mapsto> raw_proc s)\<rparr>)"

definition knfree_node :: "addr \<Rightarrow> 'z rcu_scheme \<Rightarrow> 'z rcu_scheme res" where
  "knfree_node a s = (if nodes s a = None then Fault else Ret (s\<lparr>nodes := (nodes s)(a := None)\<rparr>))"

definition knfree_proc :: "addr \<Rightarrow> 'z rcu_scheme \<Rightarrow> 'z rcu_scheme res" where
  "knfree_proc a s = (if procs s a = None then Fault else Ret (s\<lparr>procs := (procs s)(a := None)\<rparr>))"

text \<open>An operation of the rest of the kernel, run by the current process if there is one.\<close>

definition in_kern :: "(files \<Rightarrow> ('a \<times> files) res) \<Rightarrow> 'z psys_scheme \<Rightarrow> ('a \<times> 'z psys_scheme) res" where
  "in_kern f s =
     (if myproc s = 0 then bind_res (f (kern s)) (\<lambda>(r, k). Ret (r, s\<lparr>kern := k\<rparr>))
      else bind_res (get_proc (myproc s) s) (\<lambda>x.
        bind_res (f ((kern s)\<lparr>cur := x\<rparr>)) (\<lambda>(r, k).
        Ret (r, s\<lparr>procs := (procs s)(myproc s \<mapsto> cur k), kern := k\<rparr>))))"

definition in_kern_unit :: "(files \<Rightarrow> files res) \<Rightarrow> 'z psys_scheme \<Rightarrow> 'z psys_scheme res" where
  "in_kern_unit f s = bind_res (in_kern (\<lambda>k. bind_res (f k) (\<lambda>k1. Ret ((), k1))) s) (\<lambda>(_, s1). Ret s1)"

section \<open>Allocation\<close>

definition procinit :: "'z rcu_scheme \<Rightarrow> 'z rcu_scheme" where
  "procinit s =
     init_list L_rcu (s\<lparr>locks := (locks s)(L_pid := initlock ''nextpid'', L_wait := initlock ''wait_lock'')\<rparr>)"

definition allocpid :: "'z psys_scheme \<Rightarrow> (int \<times> 'z psys_scheme) res" where
  "allocpid s =
     bind_res (acquire L_pid s) (\<lambda>s1.
     let pid = nextpid s1 in
     bind_res (release L_pid (s1\<lparr>nextpid := pid + 1\<rparr>)) (\<lambda>s2. Ret (pid, s2)))"

definition allocproc :: "u64 \<Rightarrow> u64 \<Rightarrow> 'z psys_scheme \<Rightarrow> (addr \<times> 'z psys_scheme) res" where
  "allocproc trampoline forkret s =
     (let (p, s0) = knmalloc_proc s in
      bind_res (allocpid s0) (\<lambda>(pid, s1).
      bind_res (upd_proc p (\<lambda>x. x\<lparr>pr_pid := pid, pr_state := USED, pr_uid := unique_id s1, pr_p_uid := -1\<rparr>) s1) (\<lambda>s2.
      let s3 = s2\<lparr>unique_id := unique_id s2 + 1\<rparr> in
      case find (\<lambda>n. \<not> bitmap s3 ! n) [0..<NPROC] of
        None \<Rightarrow> Panic ''kernelstack overflow''
      | Some n \<Rightarrow>
          bind_res (upd_proc p (\<lambda>x. x\<lparr>pr_nKStack := n, pr_lock := initlock ''proc'', pr_kstack := KSTACK n\<rparr>)
            (s3\<lparr>bitmap := (bitmap s3)[n := True]\<rparr>)) (\<lambda>s4.
          bind_res (in_kern kalloc s4) (\<lambda>(tf, s5).
          if tf = 0 then bind_res (knfree_proc p s5) (\<lambda>s6. Ret (0, s6))
          else
            bind_res (upd_proc p (\<lambda>x. x\<lparr>pr_trapframe := tf\<rparr>) s5) (\<lambda>s6.
            bind_res (get_proc p s6) (\<lambda>x.
            bind_res (in_kern (proc_pagetable trampoline x) s6) (\<lambda>(pt, s7).
            bind_res (upd_proc p (\<lambda>x. x\<lparr>pr_pagetable := pt\<rparr>) s7) (\<lambda>s8.
            if pt = 0 then bind_res (knfree_proc p s8) (\<lambda>s9. Ret (0, s9))
            else
              bind_res (upd_proc p (\<lambda>x. x\<lparr>pr_context := zero_context\<lparr>cx_ra := forkret, cx_sp := pr_kstack x + PGSIZE\<rparr>,
                 pr_ofile := replicate NOFILE None, pr_killed := False, pr_chan := null_chan, pr_parent := 0, pr_xstate := 0, pr_cwd := None\<rparr>) s8)
              (\<lambda>s9. Ret (p, s9)))))))))))"

definition freeproc :: "addr \<Rightarrow> bool \<Rightarrow> 'z psys_scheme \<Rightarrow> 'z psys_scheme res" where
  "freeproc p flag s =
     bind_res (get_proc p s) (\<lambda>x.
     bind_res
       (if flag then
          bind_res (if pr_trapframe x \<noteq> 0 then in_kern_unit (kfree (pr_trapframe x)) s else Ret s) (\<lambda>s1.
          bind_res (if pr_pagetable x \<noteq> 0 then in_kern_unit (proc_freepagetable (pr_pagetable x) (pr_sz x)) s1 else Ret s1) (\<lambda>s2.
          Ret (s2\<lparr>bitmap := (bitmap s2)[pr_nKStack x := False]\<rparr>)))
        else Ret s)
       (upd_proc p (\<lambda>_. zero_proc)))"

definition initcode :: "byte list" where
  "initcode =
     [0x17, 0x05, 0x00, 0x00, 0x13, 0x05, 0x45, 0x02,
      0x97, 0x05, 0x00, 0x00, 0x93, 0x85, 0x35, 0x02,
      0x93, 0x08, 0x70, 0x00, 0x73, 0x00, 0x00, 0x00,
      0x93, 0x08, 0x20, 0x00, 0x73, 0x00, 0x00, 0x00,
      0xef, 0xf0, 0x9f, 0xff, 0x2f, 0x69, 0x6e, 0x69,
      0x74, 0x00, 0x00, 0x24, 0x00, 0x00, 0x00, 0x00,
      0x00, 0x00, 0x00, 0x00]"

text \<open>A node for the process \<open>p\<close>, put at the front of the list.\<close>

definition add_node :: "addr \<Rightarrow> 'z psys_scheme \<Rightarrow> 'z psys_scheme res" where
  "add_node p s =
     (let (a, s1) = knmalloc_node s in
      list_add_rcu a L_rcu (s1\<lparr>nodes := (nodes s1)(a \<mapsto> \<lparr>nd_process = p, nd_next = 0\<rparr>)\<rparr>))"

definition userinit :: "u64 \<Rightarrow> u64 \<Rightarrow> 'z psys_scheme \<Rightarrow> 'z psys_scheme res" where
  "userinit trampoline forkret s =
     bind_res (allocproc trampoline forkret s) (\<lambda>(p, s0).
     let s1 = s0\<lparr>initproc := p\<rparr> in
     bind_res (get_proc p s1) (\<lambda>x.
     bind_res (in_kern_unit (uvminit (pr_pagetable x) initcode) s1) (\<lambda>s2.
     let k = kern s2;
         m1 = store64 (tf_addr (pr_trapframe x) epc) 0 (pmem k);
         s3 = s2\<lparr>kern := k\<lparr>pmem := store64 (tf_addr (pr_trapframe x) tf_sp) PGSIZE m1\<rparr>\<rparr> in
     bind_res (in_kern (namei [slash]) s3) (\<lambda>(cwd, s4).
     bind_res (upd_proc p (\<lambda>x. x\<lparr>pr_sz := PGSIZE, pr_name := ''initcode'', pr_cwd := cwd, pr_state := RUNNABLE\<rparr>) s4) (add_node p)))))"

section \<open>Replacing the version of a process\<close>

text \<open>
  The pattern of every update: a new node with a copy of \<open>*p\<close>, changed by \<open>f\<close>. The node's \<open>next\<close>
  is whatever the memory holds until the list operation sets it.
\<close>

definition copy_node :: "addr \<Rightarrow> (proc \<Rightarrow> proc) \<Rightarrow> 'z psys_scheme \<Rightarrow> (addr \<times> addr \<times> 'z psys_scheme) res" where
  "copy_node p f s =
     (let (a, s1) = knmalloc_node s; (q, s2) = knmalloc_proc s1 in
      bind_res (get_proc p s2) (\<lambda>x.
      Ret (a, q, s2\<lparr>nodes := (nodes s2)(a \<mapsto> (raw_node s2)\<lparr>nd_process := q\<rparr>), procs := (procs s2)(q \<mapsto> f x)\<rparr>)))"

text \<open>\<open>freeproc(node->process, 0); knfree(node);\<close> of the node the list operation took out, if any.\<close>

definition free_old :: "addr option \<Rightarrow> 'z psys_scheme \<Rightarrow> 'z psys_scheme res" where
  "free_old fr s =
     (case fr of None \<Rightarrow> Fault
      | Some a \<Rightarrow> bind_res (get_node a s) (\<lambda>n. bind_res (freeproc (nd_process n) False s) (knfree_node a)))"

definition growproc :: "int \<Rightarrow> 'z psys_scheme \<Rightarrow> (int \<times> 'z psys_scheme) res" where
  "growproc n s =
     bind_res (copy_node (myproc s) id s) (\<lambda>(a, q, s1).
     bind_res (get_proc (myproc s1) s1) (\<lambda>x.
     let sz = ucast (pr_sz x) :: u32; pt = pr_pagetable x; sz' = ucast (sz + of_int n) :: u64 in
     bind_res (if n > 0 then in_kern (uvmalloc pt (ucast sz) sz') s1
               else if n < 0 then in_kern (uvmdealloc pt (ucast sz) sz') s1
               else Ret (ucast sz, s1)) (\<lambda>(sz1, s2).
     let sz2 = ucast sz1 :: u32 in
     if n > 0 \<and> sz2 = 0 then Ret (-1, s2)
     else
       bind_res (upd_proc q (\<lambda>y. y\<lparr>pr_sz := ucast sz2\<rparr>) s2) (\<lambda>s3.
       bind_res (list_update_rcu a (myproc s3) L_rcu s3) (\<lambda>(found, fr, s4).
       if found = 0 then Panic ''proc disappeared''
       else
         bind_res (synchronize_rcu (polled s4) (cpuid s4) L_rcu s4) (\<lambda>s5.
         bind_res (free_old fr s5) (\<lambda>s6.
         Ret (0, set_myproc q s6))))))))"

section \<open>fork\<close>

fun dup_files :: "nat \<Rightarrow> nat \<Rightarrow> addr \<Rightarrow> nat option list \<Rightarrow> 'z psys_scheme \<Rightarrow> 'z psys_scheme res" where
  "dup_files 0 i np ofile s = Ret s"
| "dup_files (Suc k) i np ofile s =
     (case ofile ! i of None \<Rightarrow> dup_files k (Suc i) np ofile s
      | Some f \<Rightarrow>
          bind_res (in_kern (filedup f) s) (\<lambda>(g, s1).
          bind_res (upd_proc np (\<lambda>x. x\<lparr>pr_ofile := (pr_ofile x)[i := Some g]\<rparr>) s1) (dup_files k (Suc i) np ofile)))"

text \<open>\<open>*(np->trapframe) = *(process.trapframe); np->trapframe->a0 = 0;\<close> in physical memory.\<close>

definition copy_trapframe :: "u64 \<Rightarrow> u64 \<Rightarrow> pmem \<Rightarrow> pmem" where
  "copy_trapframe src dst m = store64 (tf_addr dst tf_a0) 0 (write_bytes dst (read_bytes src 288 m) m)"

definition fork :: "u64 \<Rightarrow> u64 \<Rightarrow> 'z psys_scheme \<Rightarrow> (int \<times> 'z psys_scheme) res" where
  "fork trampoline forkret s =
     (let p = myproc s in
      bind_res (get_proc p s) (\<lambda>process.
      bind_res (allocproc trampoline forkret s) (\<lambda>(np, s1).
      if np = 0 then Ret (-1, s1)
      else
        bind_res (get_proc np s1) (\<lambda>x.
        bind_res (in_kern (uvmcopy (pr_pagetable process) (pr_pagetable x) (pr_sz process)) s1) (\<lambda>(r, s2).
        if r < 0 then bind_res (freeproc np False s2) (\<lambda>s3. Ret (-1, s3))
        else
          bind_res (upd_proc np (\<lambda>x. x\<lparr>pr_sz := pr_sz process\<rparr>) s2) (\<lambda>s3.
          let k = kern s3;
              s4 = s3\<lparr>kern := k\<lparr>pmem := copy_trapframe (pr_trapframe process) (pr_trapframe x) (pmem k)\<rparr>\<rparr> in
          bind_res (dup_files NOFILE 0 np (pr_ofile process) s4) (\<lambda>s5.
          bind_res (case pr_cwd process of None \<Rightarrow> Fault | Some c \<Rightarrow> in_kern (idup c) s5) (\<lambda>(cwd, s6).
          bind_res (upd_proc np (\<lambda>x. x\<lparr>pr_cwd := Some cwd, pr_name := pr_name process\<rparr>) s6) (\<lambda>s7.
          bind_res (get_proc np s7) (\<lambda>y.
          bind_res (acquire L_wait s7) (\<lambda>s8.
          bind_res (get_proc p s8) (\<lambda>pp.
          bind_res (upd_proc np (\<lambda>x. x\<lparr>pr_parent := p, pr_p_uid := pr_uid pp\<rparr>) s8) (\<lambda>s9.
          bind_res (release L_wait s9) (\<lambda>s10.
          bind_res (upd_proc np (\<lambda>x. x\<lparr>pr_state := RUNNABLE\<rparr>) s10) (\<lambda>s11.
          bind_res (add_node np s11) (\<lambda>s12. Ret (pr_pid y, s12)))))))))))))))))"

section \<open>Loops over the list\<close>

text \<open>
  \<open>for (node = process_list; node != 0; node = node->next)\<close>: the body may leave the loop with a
  result. The next pointer is read from the node after the body.
\<close>

definition cont_loop :: "'a res \<Rightarrow> ('a \<Rightarrow> 'b res option) \<Rightarrow> 'b res option" where
  "cont_loop r f = (case r of Ret x \<Rightarrow> f x | Panic m \<Rightarrow> Some (Panic m) | Block c \<Rightarrow> Some (Block c)
     | Fault \<Rightarrow> Some Fault | NoReturn \<Rightarrow> Some NoReturn)"

lemma cont_loop_mono [partial_function_mono]:
  "(\<And>x. mono_option (\<lambda>f. C x f)) \<Longrightarrow> mono_option (\<lambda>f. cont_loop r (\<lambda>x. C x f))"
  by (cases r) (simp_all add: cont_loop_def monotone_def flat_ord_def)

lemma cont_loop_simps [simp]:
  "cont_loop (Ret x) f = f x" "cont_loop (Panic m) f = Some (Panic m)" "cont_loop (Block c) f = Some (Block c)"
  "cont_loop Fault f = Some Fault" "cont_loop NoReturn f = Some NoReturn"
  by (simp_all add: cont_loop_def)

partial_function (option) for_nodes ::
    "(addr \<Rightarrow> 'b \<Rightarrow> 'z psys_scheme \<Rightarrow> ('r option \<times> 'b \<times> 'z psys_scheme) res) \<Rightarrow> addr \<Rightarrow> 'b \<Rightarrow> 'z psys_scheme \<Rightarrow>
     ('r option \<times> 'b \<times> 'z psys_scheme) res option" where
  "for_nodes body a b s =
     (if a = 0 then Some (Ret (None, b, s))
      else cont_loop (body a b s) (\<lambda>(r, b1, s1).
        if r \<noteq> None then Some (Ret (r, b1, s1))
        else cont_loop (get_node a s1) (\<lambda>n. for_nodes body (nd_next n) b1 s1)))"

definition proc_of :: "addr \<Rightarrow> 'z rcu_scheme \<Rightarrow> (addr \<times> proc) res" where
  "proc_of a s = bind_res (get_node a s) (\<lambda>n. bind_res (get_proc (nd_process n) s) (\<lambda>x. Ret (nd_process n, x)))"

section \<open>Locks inside processes\<close>

definition acquire_plock :: "addr \<Rightarrow> 'z rcu_scheme \<Rightarrow> 'z rcu_scheme res" where
  "acquire_plock p s =
     bind_res (get_proc p s) (\<lambda>x.
     bind_res (acquire_lk (L_proc p) (pr_lock x) s) (\<lambda>(lk, s1). upd_proc p (\<lambda>x. x\<lparr>pr_lock := lk\<rparr>) s1))"

definition release_plock :: "addr \<Rightarrow> 'z rcu_scheme \<Rightarrow> 'z rcu_scheme res" where
  "release_plock p s =
     bind_res (get_proc p s) (\<lambda>x.
     bind_res (release_lk (pr_lock x) s) (\<lambda>(lk, s1). upd_proc p (\<lambda>x. x\<lparr>pr_lock := lk\<rparr>) s1))"

section \<open>wakeup and kill\<close>

definition wakeup_lock :: "chan \<Rightarrow> addr \<Rightarrow> unit \<Rightarrow> 'z psys_scheme \<Rightarrow> (unit option \<times> unit \<times> 'z psys_scheme) res" where
  "wakeup_lock chan a u s =
     (if chan \<noteq> ChTicks then
        bind_res (proc_of a s) (\<lambda>(p, _).
        bind_res (acquire_plock p s) (\<lambda>s1. bind_res (release_plock p s1) (\<lambda>s2. Ret (None, u, s2))))
      else Ret (None, u, s))"

definition wakeup_node :: "chan \<Rightarrow> addr \<Rightarrow> unit \<Rightarrow> 'z psys_scheme \<Rightarrow> (unit option \<times> unit \<times> 'z psys_scheme) res" where
  "wakeup_node chan a u s =
     bind_res (proc_of a s) (\<lambda>(p, x).
     bind_res
       (if p \<noteq> myproc s \<and> pr_state x = SLEEPING \<and> pr_chan x = chan then
          bind_res (copy_node p id s) (\<lambda>(new, q, s1).
          bind_res (rcu_read_unlock s1) (\<lambda>s2.
          bind_res (upd_proc q (\<lambda>y. y\<lparr>pr_state := RUNNABLE\<rparr>) s2) (\<lambda>s3.
          bind_res (list_update_rcu new p L_rcu s3) (\<lambda>(_, fr, s4).
          bind_res (synchronize_rcu (polled s4) (cpuid s4) L_rcu s4) (free_old fr)))))
        else rcu_read_unlock s)
       (\<lambda>s5. Ret (None, u, rcu_read_lock s5)))"

definition wakeup :: "chan \<Rightarrow> 'z psys_scheme \<Rightarrow> 'z psys_scheme res" where
  "wakeup chan s =
     (let s0 = rcu_read_lock s in
      bind_res (from_loop (for_nodes (wakeup_lock chan) (process_list s0) () s0)) (\<lambda>(_, _, s1).
      bind_res (from_loop (for_nodes (wakeup_node chan) (process_list s1) () s1)) (\<lambda>(_, _, s2).
      rcu_read_unlock s2)))"

text \<open>
  \<open>kill\<close> allocates the node only: the copy goes to wherever the fresh memory's first word points.
\<close>

definition kill_node :: "int \<Rightarrow> addr \<Rightarrow> unit \<Rightarrow> 'z psys_scheme \<Rightarrow> (unit option \<times> unit \<times> 'z psys_scheme) res" where
  "kill_node pid a u s =
     bind_res (proc_of a s) (\<lambda>(p, x).
     if pr_pid x = pid then
       (let (new, s1) = knmalloc_node s in
        bind_res (get_node new s1) (\<lambda>n.
        bind_res (upd_proc (nd_process n) (\<lambda>_. x) s1) (\<lambda>s2.
        bind_res (rcu_read_unlock s2) (\<lambda>s3.
        bind_res (upd_proc (nd_process n) (\<lambda>y. y\<lparr>pr_killed := True,
          pr_state := if pr_state y = SLEEPING then RUNNABLE else pr_state y\<rparr>) s3) (\<lambda>s4.
        bind_res (list_update_rcu new p L_rcu s4) (\<lambda>(_, fr, s5).
        bind_res (synchronize_rcu (polled s5) (cpuid s5) L_rcu s5) (\<lambda>s6.
        bind_res (free_old fr s6) (\<lambda>s7. Ret (Some (), u, s7)))))))))
     else bind_res (rcu_read_unlock s) (\<lambda>s1. Ret (None, u, rcu_read_lock s1)))"

definition kill :: "int \<Rightarrow> 'z psys_scheme \<Rightarrow> (int \<times> 'z psys_scheme) res" where
  "kill pid s =
     (let s0 = rcu_read_lock s in
      bind_res (from_loop (for_nodes (kill_node pid) (process_list s0) () s0)) (\<lambda>(r, _, s1).
      if r \<noteq> None then Ret (0, s1) else bind_res (rcu_read_unlock s1) (\<lambda>s2. Ret (-1, s2))))"

section \<open>Giving up the CPU\<close>

text \<open>The checks of \<open>sched\<close> only print; the first one reads \<open>*p\<close>.\<close>

definition sched :: "('z psys_scheme \<Rightarrow> 'z psys_scheme res) \<Rightarrow> 'z psys_scheme \<Rightarrow> 'z psys_scheme res" where
  "sched swtch s =
     bind_res (get_proc (myproc s) s) (\<lambda>_.
     let intena = cpu_intena (mycpu s) in
     bind_res (swtch s) (\<lambda>s1. Ret (upd_mycpu (\<lambda>c. c\<lparr>cpu_intena := intena\<rparr>) s1)))"

definition yield :: "('z psys_scheme \<Rightarrow> 'z psys_scheme res) \<Rightarrow> 'z psys_scheme \<Rightarrow> 'z psys_scheme res" where
  "yield swtch s =
     (let p = myproc s in
      bind_res (copy_node p (\<lambda>x. x\<lparr>pr_state := RUNNABLE\<rparr>) s) (\<lambda>(new, q, s1).
      bind_res (list_update_rcu new p L_rcu s1) (\<lambda>(found, fr, s2).
      bind_res (if found = 0 then Ret s2 else free_old fr (set_myproc q s2)) (sched swtch))))"

definition sleep :: "('z psys_scheme \<Rightarrow> 'z psys_scheme res) \<Rightarrow> chan \<Rightarrow> lockid \<Rightarrow> 'z psys_scheme \<Rightarrow> 'z psys_scheme res" where
  "sleep swtch chan lk s =
     (let p = myproc s in
      bind_res (acquire_plock p s) (\<lambda>s1.
      bind_res (release lk s1) (\<lambda>s2.
      bind_res (copy_node p (\<lambda>x. x\<lparr>pr_chan := chan, pr_state := SLEEPING\<rparr>) (rcu_read_lock s2)) (\<lambda>(new, q, s3).
      bind_res (list_update_rcu new p L_rcu s3) (\<lambda>(_, fr, s4).
      bind_res (release_plock q s4) (\<lambda>s5.
      bind_res (synchronize_rcu (polled s5) (cpuid s5) L_rcu s5) (\<lambda>s6.
      bind_res (free_old fr s6) (\<lambda>s7.
      bind_res (upd_proc q (\<lambda>x. x\<lparr>pr_lock := zero_spinlock\<rparr>) (set_myproc q s7)) (\<lambda>s8.
      bind_res (sched swtch s8) (\<lambda>s9.
      let p = myproc s9 in
      bind_res (copy_node p (\<lambda>x. x\<lparr>pr_chan := null_chan\<rparr>) s9) (\<lambda>(new2, q2, s10).
      bind_res (list_update_rcu new2 p L_rcu s10) (\<lambda>(found, fr2, s11).
      if found = 0 then Panic (''[SLEEP] List_update_rcu failed'' @ [CHR 0x0A])
      else
        bind_res (synchronize_rcu (polled s11) (cpuid s11) L_rcu s11) (\<lambda>s12.
        bind_res (free_old fr2 s12) (\<lambda>s13.
        bind_res (acquire lk (set_myproc q2 s13)) rcu_read_unlock))))))))))))))"

section \<open>exit and wait\<close>

definition reparent_node :: "addr \<Rightarrow> addr \<Rightarrow> unit \<Rightarrow> 'z psys_scheme \<Rightarrow> (unit option \<times> unit \<times> 'z psys_scheme) res" where
  "reparent_node p a u s =
     bind_res (proc_of a s) (\<lambda>(c, x).
     bind_res (get_proc p s) (\<lambda>px.
     bind_res
       (if pr_p_uid x = pr_uid px then
          bind_res (copy_node c id s) (\<lambda>(new, q, s1).
          bind_res (rcu_read_unlock s1) (\<lambda>s2.
          bind_res (upd_proc q (\<lambda>y. y\<lparr>pr_parent := initproc s2, pr_p_uid := 0\<rparr>) s2) (\<lambda>s3.
          bind_res (list_update_rcu new p L_rcu s3) (\<lambda>(_, fr, s4).
          bind_res (synchronize_rcu (polled s4) (cpuid s4) L_rcu s4) (\<lambda>s5.
          bind_res (free_old fr s5) (\<lambda>s6.
          bind_res (get_proc p s6) (\<lambda>py. wakeup (ChUid (pr_uid py)) s6)))))))
        else rcu_read_unlock s)
       (\<lambda>s7. Ret (None, u, rcu_read_lock s7))))"

definition reparent :: "addr \<Rightarrow> 'z psys_scheme \<Rightarrow> 'z psys_scheme res" where
  "reparent p s =
     (let s0 = rcu_read_lock s in
      bind_res (from_loop (for_nodes (reparent_node p) (process_list s0) () s0)) (\<lambda>(_, _, s1).
      rcu_read_unlock s1))"

text \<open>The loop over the descriptors of the copy \<open>q\<close>.\<close>

fun close_files :: "nat \<Rightarrow> nat \<Rightarrow> addr \<Rightarrow> 'z psys_scheme \<Rightarrow> 'z psys_scheme res" where
  "close_files 0 fd q s = Ret s"
| "close_files (Suc k) fd q s =
     bind_res (get_proc q s) (\<lambda>x.
     case pr_ofile x ! fd of None \<Rightarrow> close_files k (Suc fd) q s
     | Some f \<Rightarrow>
         bind_res (in_kern_unit (fileclose f) s) (\<lambda>s1.
         bind_res (upd_proc q (\<lambda>y. y\<lparr>pr_ofile := (pr_ofile y)[fd := None]\<rparr>) s1) (close_files k (Suc fd) q)))"

definition closeFile :: "addr \<Rightarrow> 'z psys_scheme \<Rightarrow> (addr \<times> 'z psys_scheme) res" where
  "closeFile p s =
     bind_res (copy_node p id s) (\<lambda>(new, q, s1).
     bind_res (set_next new 0 s1) (\<lambda>s2.
     bind_res (close_files NOFILE 0 q s2) (\<lambda>s3.
     bind_res (list_update_rcu new p L_rcu s3) (\<lambda>(found, fr, s4).
     if found = 0 then Panic ''[LOG closeFile] proc disappeared''
     else
       bind_res (synchronize_rcu (polled s4) (cpuid s4) L_rcu s4) (\<lambda>s5.
       bind_res (free_old fr s5) (\<lambda>s6. Ret (q, s6)))))))"

definition exit :: "('z psys_scheme \<Rightarrow> 'z psys_scheme res) \<Rightarrow> int \<Rightarrow> 'z psys_scheme \<Rightarrow> 'z psys_scheme res" where
  "exit swtch status s =
     (let p = myproc s in
      if p = initproc s then Panic ''init exiting''
      else
        bind_res (closeFile p (push_off s)) (\<lambda>(q, s1).
        bind_res (pop_off (set_myproc q s1)) (\<lambda>s2.
        bind_res (in_kern_unit begin_op s2) (\<lambda>s3.
        bind_res (get_proc p s3) (\<lambda>x.
        bind_res (case pr_cwd x of None \<Rightarrow> Fault | Some ip \<Rightarrow> in_kern_unit (iput ip) s3) (\<lambda>s4.
        bind_res (in_kern_unit end_op s4) (\<lambda>s5.
        bind_res (upd_proc p (\<lambda>x. x\<lparr>pr_cwd := None\<rparr>) s5) (\<lambda>s6.
        bind_res (acquire L_wait s6) (\<lambda>s7.
        bind_res (reparent p s7) (\<lambda>s8.
        bind_res (get_proc (myproc s8) s8) (\<lambda>y.
        bind_res (wakeup (ChUid (pr_p_uid y)) s8) (\<lambda>s9.
        let p = myproc s9 in
        bind_res (copy_node p (\<lambda>x. x\<lparr>pr_xstate := status, pr_state := ZOMBIE\<rparr>) s9) (\<lambda>(new, q, s10).
        bind_res (list_update_rcu new p L_rcu s10) (\<lambda>(found, fr, s11).
        if found = 0 then Panic ''[LOG reparent] proc disappeared''
        else
          bind_res (synchronize_rcu (polled (set_myproc q s11)) (cpuid (set_myproc q s11)) L_rcu (set_myproc q s11)) (\<lambda>s12.
          bind_res (free_old fr s12) (\<lambda>s13.
          bind_res (release L_wait s13) (\<lambda>s14.
          bind_res (sched swtch s14) (\<lambda>_. Panic ''zombie exit''))))))))))))))))))"

definition wait_node :: "addr \<Rightarrow> u64 \<Rightarrow> addr \<Rightarrow> bool \<Rightarrow> 'z psys_scheme \<Rightarrow> (int option \<times> bool \<times> 'z psys_scheme) res" where
  "wait_node p addr a havekids s =
     bind_res (proc_of a s) (\<lambda>(c, x).
     bind_res (get_proc p s) (\<lambda>px.
     if pr_p_uid x \<noteq> pr_uid px then Ret (None, havekids, s)
     else if pr_state x \<noteq> ZOMBIE then Ret (None, True, s)
     else
       bind_res (if addr \<noteq> 0 then in_kern (copyout (pr_pagetable px) addr (le_bytes 4 (of_int (pr_xstate x) :: u32))) s
                 else Ret (0, s)) (\<lambda>(r, s1).
       if r < 0 then bind_res (release L_wait s1) (\<lambda>_. Panic ''Wait failed!'')
       else
         bind_res (list_del_rcu a L_rcu s1) (\<lambda>s2.
         bind_res (synchronize_rcu (polled s2) (cpuid s2) L_rcu s2) (\<lambda>s3.
         bind_res (proc_of a s3) (\<lambda>(c', _).
         bind_res (freeproc c' True s3) (\<lambda>s4.
         bind_res (knfree_node a s4) (\<lambda>s5.
         bind_res (release L_wait s5) (\<lambda>s6. Ret (Some (pr_pid x), True, s6))))))))))"

partial_function (option) wait_loop ::
    "('z psys_scheme \<Rightarrow> 'z psys_scheme res) \<Rightarrow> addr \<Rightarrow> u64 \<Rightarrow> 'z psys_scheme \<Rightarrow> (int \<times> 'z psys_scheme) res option" where
  "wait_loop swtch p addr s =
     cont_loop (from_loop (for_nodes (wait_node p addr) (process_list s) False s)) (\<lambda>(r, havekids, s1).
     case r of Some pid \<Rightarrow> Some (Ret (pid, s1))
     | None \<Rightarrow>
         cont_loop (get_proc p s1) (\<lambda>px.
         if \<not> havekids \<or> pr_killed px then Some (bind_res (release L_wait s1) (\<lambda>s2. Ret (-1, s2)))
         else cont_loop (sleep swtch (ChUid (pr_uid px)) L_wait s1) (wait_loop swtch p addr)))"

definition wait :: "('z psys_scheme \<Rightarrow> 'z psys_scheme res) \<Rightarrow> u64 \<Rightarrow> 'z psys_scheme \<Rightarrow> (int \<times> 'z psys_scheme) res" where
  "wait swtch addr s =
     bind_res (acquire L_wait s) (\<lambda>s1. from_loop (wait_loop swtch (myproc s) addr s1))"

section \<open>The scheduler\<close>

text \<open>
  One iteration of the inner loop and one round of the outer loop; \<open>scheduled\<close> is the local
  variable of the code, set for the rest of the round once a process has run. The result
  \<open>Some ()\<close> is the \<open>break\<close>.
\<close>

definition run_process :: "('z psys_scheme \<Rightarrow> 'z psys_scheme res) \<Rightarrow> addr \<Rightarrow> addr option \<Rightarrow> 'z psys_scheme \<Rightarrow> 'z psys_scheme res" where
  "run_process swtch q fr s =
     bind_res (swtch (set_myproc q s)) (\<lambda>s1.
     bind_res (synchronize_rcu (polled s1) (cpuid s1) L_rcu s1) (\<lambda>s2.
     bind_res (free_old fr s2) (\<lambda>s3. Ret (set_myproc 0 s3))))"

definition scheduler_node :: "('z psys_scheme \<Rightarrow> 'z psys_scheme res) \<Rightarrow> addr \<Rightarrow> bool \<Rightarrow> 'z psys_scheme \<Rightarrow>
    (unit option \<times> bool \<times> 'z psys_scheme) res" where
  "scheduler_node swtch a scheduled s =
     (if cpuid s \<noteq> 0 then Ret (None, scheduled, s)
      else
        bind_res (proc_of a s) (\<lambda>(p, x).
        if pr_state x = RUNNABLE \<and> pr_pid x = 1 then
          bind_res (rcu_read_unlock (set_idle False s)) (\<lambda>s1.
          bind_res (copy_node p (\<lambda>y. y\<lparr>pr_state := RUNNING\<rparr>) s1) (\<lambda>(new, q, s2).
          bind_res (list_update_rcu new p L_rcu s2) (\<lambda>(found, fr, s3).
          if found = 0 then Panic (''[LOG SCHEDULER] list_update_rcu failed '' @ [CHR 0x0A])
          else bind_res (run_process swtch q fr s3) (\<lambda>s4. Ret (Some (), True, rcu_read_lock s4)))))
        else
          bind_res
            (if pr_state x = RUNNABLE then
               bind_res (copy_node p id (set_idle False s)) (\<lambda>(new, q, s1).
               bind_res (rcu_read_unlock s1) (\<lambda>s2.
               bind_res (upd_proc q (\<lambda>y. y\<lparr>pr_state := RUNNING\<rparr>) s2) (\<lambda>s3.
               bind_res (list_update_rcu new p L_rcu s3) (\<lambda>(_, fr, s4).
               bind_res (run_process swtch q fr s4) (\<lambda>s5. Ret (True, s5))))))
             else Ret (scheduled, s))
            (\<lambda>(scheduled, s6).
          bind_res (if \<not> scheduled then rcu_read_unlock s6 else Ret s6) (\<lambda>s7.
          Ret (None, scheduled, rcu_read_lock s7)))))"

text \<open>What every round starts with: the CPU is marked idle, then it enters a read-side section.\<close>

definition scheduler_enter :: "'z mach_scheme \<Rightarrow> 'z mach_scheme" where
  "scheduler_enter s = rcu_read_lock (intr_on (set_idle True s))"

definition scheduler_round :: "('z psys_scheme \<Rightarrow> 'z psys_scheme res) \<Rightarrow> 'z psys_scheme \<Rightarrow> 'z psys_scheme res" where
  "scheduler_round swtch s =
     (let s0 = scheduler_enter s in
      bind_res (from_loop (for_nodes (scheduler_node swtch) (process_list s0) False s0)) (\<lambda>(_, _, s1).
      rcu_read_unlock s1))"

end
