(* ===== verification/Proc_Facts.thy ===== *)
theory Proc_Facts
  imports Proc
begin

unbundle bit_operations_syntax

text \<open>
  What the process operations do to the process list. The update that \<open>growproc\<close>, \<open>sleep\<close>,
  \<open>wakeup\<close>, \<open>closeFile\<close> and the others share replaces the version of a process by a changed
  copy, waits for the grace period and clears the old one (\<open>copied_update\<close>). From it follow the use of
  cleared or freed objects in \<open>exit\<close> and \<open>wakeup\<close>. \<open>kill\<close> copies through an uninitialised pointer,
  \<open>allocproc\<close> keeps a kernel stack when it fails, and the scheduler reads the list while marked idle.
\<close>

section \<open>Fields\<close>

lemma psys_upd_mycpu [simp]:
  "kern (upd_mycpu f s) = kern s" "bitmap (upd_mycpu f s) = bitmap s" "unique_id (upd_mycpu f s) = unique_id s"
  "nextpid (upd_mycpu f s) = nextpid s" "initproc (upd_mycpu f s) = initproc s" "brk (upd_mycpu f s) = brk s"
  "raw_node (upd_mycpu f s) = raw_node s" "raw_proc (upd_mycpu f s) = raw_proc s" "polled (upd_mycpu f s) = polled s"
  by (simp_all add: upd_mycpu_def)

lemma psys_intr [simp]:
  "kern (intr_on s) = kern s" "bitmap (intr_on s) = bitmap s" "unique_id (intr_on s) = unique_id s"
  "nextpid (intr_on s) = nextpid s" "initproc (intr_on s) = initproc s" "brk (intr_on s) = brk s"
  "raw_node (intr_on s) = raw_node s" "raw_proc (intr_on s) = raw_proc s" "polled (intr_on s) = polled s"
  "kern (intr_off s) = kern s" "bitmap (intr_off s) = bitmap s" "unique_id (intr_off s) = unique_id s"
  "nextpid (intr_off s) = nextpid s" "initproc (intr_off s) = initproc s" "brk (intr_off s) = brk s"
  "raw_node (intr_off s) = raw_node s" "raw_proc (intr_off s) = raw_proc s" "polled (intr_off s) = polled s"
  by (simp_all add: intr_on_def intr_off_def)

lemma psys_push_off [simp]:
  "kern (push_off s) = kern s" "bitmap (push_off s) = bitmap s" "unique_id (push_off s) = unique_id s"
  "nextpid (push_off s) = nextpid s" "initproc (push_off s) = initproc s" "brk (push_off s) = brk s"
  "raw_node (push_off s) = raw_node s" "raw_proc (push_off s) = raw_proc s" "polled (push_off s) = polled s" "myproc (push_off s) = myproc s"
  by (simp_all add: push_off_def Let_def myproc_def)

lemma psys_wr [simp]:
  "kern (wr h p s) = kern s" "bitmap (wr h p s) = bitmap s" "unique_id (wr h p s) = unique_id s"
  "nextpid (wr h p s) = nextpid s" "initproc (wr h p s) = initproc s" "brk (wr h p s) = brk s"
  "raw_node (wr h p s) = raw_node s" "raw_proc (wr h p s) = raw_proc s" "polled (wr h p s) = polled s" "myproc (wr h p s) = myproc s"
  by (simp_all add: wr_def myproc_def mycpu_def cpuid_def)

lemma psys_lock_cycle [simp]:
  "kern (lock_cycle l s) = kern s" "bitmap (lock_cycle l s) = bitmap s" "unique_id (lock_cycle l s) = unique_id s"
  "nextpid (lock_cycle l s) = nextpid s" "initproc (lock_cycle l s) = initproc s" "brk (lock_cycle l s) = brk s"
  "raw_node (lock_cycle l s) = raw_node s" "raw_proc (lock_cycle l s) = raw_proc s" "polled (lock_cycle l s) = polled s"
  by (simp_all add: lock_cycle_def after_pair_def set_idle_def)

lemma myproc_lock_cycle [simp]: "myproc (lock_cycle l s) = myproc s"
  by (simp add: lock_cycle_def after_pair_def set_idle_def myproc_def mycpu_def cpuid_def upd_mycpu_def)

lemma lock_cycle_cpus [simp]: "k \<noteq> hart s \<Longrightarrow> cpus (lock_cycle l s) k = cpus s k"
  by (simp add: lock_cycle_def after_pair_def set_idle_def mycpu_def cpuid_def upd_mycpu_def)

section \<open>The process list\<close>

text \<open>
  The list has the nodes \<open>xs\<close>, each with a process, with distinct process ids; addresses from
  \<open>brk\<close> on are unused. In \<open>psys_wf\<close>, moreover, the writers' lock is free.
\<close>

definition psys_list :: "'z psys_scheme \<Rightarrow> addr list \<Rightarrow> bool" where
  "psys_list s xs \<longleftrightarrow> rcu_list s xs \<and> None \<notin> set (map (pid_at s) xs) \<and>
     distinct (map (pid_at s) xs) \<and> 0 < brk s \<and> (\<forall>a \<ge> brk s. nodes s a = None \<and> procs s a = None)"

definition psys_wf :: "'z psys_scheme \<Rightarrow> addr list \<Rightarrow> bool" where
  "psys_wf s xs \<longleftrightarrow> rcu_ready L_rcu s \<and> psys_list s xs"

lemmas psys_wf_defs = psys_wf_def psys_list_def

text \<open>The grace period that the CPU's calls wait for ends.\<close>

definition grace :: "'z psys_scheme \<Rightarrow> bool" where
  "grace s \<longleftrightarrow> grace_ends (hart s) (polled s)"

lemma grace_cong: "hart t = hart s \<Longrightarrow> polled t = polled s \<Longrightarrow> grace t = grace s"
  by (simp add: grace_def)

lemma synchronize_grace:
  assumes "rcu_ready L_rcu s"
  shows "synchronize_rcu (polled s) (cpuid s) L_rcu s = (if grace s then Ret (lock_cycle L_rcu s) else NoReturn)"
  using synchronize_result [OF assms] by (simp add: grace_def cpuid_def)

lemma wf_cycle [simp]: "rcu_ready l s \<Longrightarrow> rcu_ready l (lock_cycle l s)" for s :: "'z rcu_scheme"
  using rcu_ready_cycle [of l s "nodes s"] by (auto simp: rcu_ready_def intr_wf_def intr_get_def)

text \<open>
  The update that the operations share: the list update, the grace period, the clearing of the
  old version. \<open>relisted\<close> is the list with \<open>c\<close> replaced, \<open>cleared\<close> the heap without the old version.
\<close>

definition relisted :: "addr list \<Rightarrow> addr \<Rightarrow> addr \<Rightarrow> 'z psys_scheme \<Rightarrow> 'z psys_scheme" where
  "relisted as c new s =
     wr (relink as new (upd_next (nodes s) new (next_of (nodes s) c))) (rehead as new (process_list s)) s"

definition cleared :: "addr \<Rightarrow> addr \<Rightarrow> 'z psys_scheme \<Rightarrow> 'z psys_scheme" where
  "cleared c p s = s\<lparr>nodes := (nodes s)(c := None), procs := (procs s)(p \<mapsto> zero_proc)\<rparr>"

lemma lock_cycle_wr: "lock_cycle l (wr h p s) = wr h p (lock_cycle l s)"
  by (simp add: lock_cycle_def after_pair_def set_idle_def wr_def upd_mycpu_def mycpu_def cpuid_def intr_get_def)

lemma free_old_Some:
  assumes "nodes s c = Some n" and "nd_process n = p" and "procs s p = Some x"
  shows "free_old (Some c) s = Ret (cleared c p s)"
  using assms by (simp add: free_old_def get_node_def freeproc_def get_proc_def upd_proc_def knfree_node_def cleared_def)

lemma relisted_node:
  assumes "lseg (nodes s) (process_list s) (as @ c # bs)" and "new \<noteq> c"
  shows "nodes (relisted as c new s) c = nodes s c"
  using lseg_distinct [OF assms(1)] assms(2) last_in_set [of as]
  by (auto simp: relisted_def relink_def upd_next_apply)

lemma update_and_free:
  assumes wf: "rcu_ready L_rcu s" and l: "rcu_list s (as @ c # bs)"
    and n: "nodes s c = Some n" "nd_process n = p" "procs s p = Some x" "pids_differ s as (pr_pid x)"
    and new: "new \<notin> set (as @ c # bs)" "nodes s new = Some nn"
  defines "s2 \<equiv> relisted as c new (lock_cycle L_rcu s)"
    and "s3 \<equiv> relisted as c new (lock_cycle L_rcu (lock_cycle L_rcu s))"
  shows "list_update_rcu new p L_rcu s = Ret (1, Some c, s2)"
    and "synchronize_rcu (polled s2) (cpuid s2) L_rcu s2 = (if grace s then Ret s3 else NoReturn)"
    and "free_old (Some c) s3 = Ret (cleared c p s3)"
proof -
  have ls: "lseg (nodes s) (process_list s) (as @ c # bs)" using l by (simp add: rcu_list_def)
  have "pid_at s c = Some (pr_pid x)" using n by (simp add: pid_at_def)
  then show "list_update_rcu new p L_rcu s = Ret (1, Some c, s2)"
    using list_update_result [OF _ _ ls n(3,4) _ new] wf by (simp add: rcu_ready_def relisted_def s2_def)
  have s2: "rcu_ready L_rcu s2" using wf rcu_ready_cycle by (simp add: relisted_def s2_def)
  have "lock_cycle L_rcu s2 = s3" by (simp add: relisted_def lock_cycle_wr s2_def s3_def)
  moreover have "grace s2 = grace s" by (rule grace_cong) (simp_all add: relisted_def s2_def)
  ultimately show "synchronize_rcu (polled s2) (cpuid s2) L_rcu s2 = (if grace s then Ret s3 else NoReturn)"
    using synchronize_grace [OF s2] by simp
  have "new \<noteq> c" using new by auto
  then have "nodes s3 c = Some n"
    using relisted_node [of "lock_cycle L_rcu (lock_cycle L_rcu s)" as c bs new] ls n by (simp add: s3_def)
  then show "free_old (Some c) s3 = Ret (cleared c p s3)"
    using n by (intro free_old_Some) (simp_all add: relisted_def s3_def)
qed

lemma cleared_fields [simp]:
  "procs (cleared c p s) = (procs s)(p \<mapsto> zero_proc)" "nodes (cleared c p s) = (nodes s)(c := None)"
  "process_list (cleared c p s) = process_list s" "brk (cleared c p s) = brk s" "kern (cleared c p s) = kern s"
  "myproc (cleared c p s) = myproc s" "mycpu (cleared c p s) = mycpu s" "intr_get (cleared c p s) = intr_get s"
  "hart (cleared c p s) = hart s" "locks (cleared c p s) = locks s" "cpus (cleared c p s) = cpus s"
  "sstatus (cleared c p s) = sstatus s" "initproc (cleared c p s) = initproc s" "polled (cleared c p s) = polled s"
  by (simp_all add: cleared_def myproc_def mycpu_def cpuid_def intr_get_def)

lemma relisted_fields [simp]:
  "procs (relisted as c new s) = procs s" "brk (relisted as c new s) = brk s" "kern (relisted as c new s) = kern s"
  "myproc (relisted as c new s) = myproc s" "mycpu (relisted as c new s) = mycpu s"
  "intr_get (relisted as c new s) = intr_get s" "hart (relisted as c new s) = hart s"
  "locks (relisted as c new s) = locks s" "cpus (relisted as c new s) = cpus s"
  "sstatus (relisted as c new s) = sstatus s" "initproc (relisted as c new s) = initproc s" "polled (relisted as c new s) = polled s"
  by (simp_all add: relisted_def)

section \<open>exit\<close>

lemma close_files_none:
  assumes "procs s q = Some x" and "fd + k \<le> NOFILE" and "pr_ofile x = replicate NOFILE None"
  shows "close_files k fd q s = Ret s"
  using assms(2)
proof (induction k arbitrary: fd)
  case (Suc k)
  then show ?case using assms(1,3) by (simp add: get_proc_def)
qed simp

text \<open>A process on the list, and the heap after a copy of it.\<close>

lemma psys_wfE:
  assumes "psys_wf s (as @ c # bs)"
  obtains n x where "nodes s c = Some n" "procs s (nd_process n) = Some x" "pids_differ s as (pr_pid x)"
    "nd_process n < brk s" "c < brk s"
proof -
  have un: "\<And>a. a \<ge> brk s \<Longrightarrow> nodes s a = None \<and> procs s a = None" and "pid_at s c \<noteq> None"
    using assms by (auto simp: psys_wf_defs)
  note pc = this(2)
  have pa: "pid_at s a \<noteq> None \<and> pid_at s a \<noteq> pid_at s c" if "a \<in> set as" for a
    using assms that by (force simp: psys_wf_defs image_iff)
  from pc obtain n x where n: "nodes s c = Some n" "procs s (nd_process n) = Some x" "pid_at s c = Some (pr_pid x)"
    by (auto simp: pid_at_def split: option.splits)
  have "pids_differ s as (pr_pid x)" using pa n(3) by (auto simp: pids_differ_def)
  moreover have "nd_process n < brk s" "c < brk s" using un n by (metis not_le option.distinct(1))+
  ultimately show thesis using that n by blast
qed

definition copied :: "addr \<Rightarrow> proc \<Rightarrow> 'z psys_scheme \<Rightarrow> 'z psys_scheme" where
  "copied v y s = s\<lparr>nodes := (nodes s)(brk s \<mapsto> \<lparr>nd_process = Suc (brk s), nd_next = v\<rparr>),
     procs := (procs s)(Suc (brk s) \<mapsto> y), brk := Suc (Suc (brk s))\<rparr>"

lemma copied_fields [simp]:
  "nodes (copied v y s) = (nodes s)(brk s \<mapsto> \<lparr>nd_process = Suc (brk s), nd_next = v\<rparr>)"
  "procs (copied v y s) = (procs s)(Suc (brk s) \<mapsto> y)" "process_list (copied v y s) = process_list s"
  "kern (copied v y s) = kern s" "myproc (copied v y s) = myproc s" "mycpu (copied v y s) = mycpu s"
  "intr_get (copied v y s) = intr_get s" "hart (copied v y s) = hart s" "locks (copied v y s) = locks s"
  "cpus (copied v y s) = cpus s" "sstatus (copied v y s) = sstatus s" "initproc (copied v y s) = initproc s" "polled (copied v y s) = polled s"
  by (simp_all add: copied_def myproc_def mycpu_def cpuid_def intr_get_def)

lemma node_ext [simp]: "n\<lparr>nd_process := a, nd_next := b\<rparr> = \<lparr>nd_process = a, nd_next = b\<rparr>" for n :: t_node
  by (cases n) simp

lemma node_process: "n\<lparr>nd_process := a\<rparr> = \<lparr>nd_process = a, nd_next = nd_next n\<rparr>" for n :: t_node
  by (cases n) simp

lemma brk_comm:
  "s\<lparr>brk := b, nodes := h\<rparr> = s\<lparr>nodes := h, brk := b\<rparr>" "s\<lparr>brk := b, procs := g\<rparr> = s\<lparr>procs := g, brk := b\<rparr>"
  by (rule psys.equality; simp)+

lemma copy_node_result:
  assumes "procs s p = Some x" and "p < brk s"
  shows "copy_node p f s = Ret (brk s, Suc (brk s), copied (nd_next (raw_node s)) (f x) s)"
  using assms
  by (simp add: copy_node_def knmalloc_node_def knmalloc_proc_def get_proc_def copied_def brk_comm node_process)

lemma set_next_copied: "set_next (brk s) w (copied v y s) = Ret (copied w y s)"
  by (simp add: set_next_def get_node_def copied_def)

lemma copied_wf:
  assumes wf: "psys_wf s (as @ c # bs)" and n: "nodes s c = Some n" "procs s (nd_process n) = Some x" "pids_differ s as (pr_pid x)"
  shows "rcu_ready L_rcu (copied v y s)" "rcu_list (copied v y s) (as @ c # bs)"
    "nodes (copied v y s) c = Some n" "procs (copied v y s) (nd_process n) = Some x" "pids_differ (copied v y s) as (pr_pid x)"
    "brk s \<notin> set (as @ c # bs)"
proof -
  have un: "a < brk s" if "nodes s a \<noteq> None \<or> procs s a \<noteq> None" for a
    using wf that by (meson not_le psys_wf_defs)
  have l: "lseg (nodes s) (process_list s) (as @ c # bs)" using wf by (simp add: psys_wf_defs rcu_list_def)
  show fresh: "brk s \<notin> set (as @ c # bs)" using lseg_alloc [OF l] un by blast
  show "rcu_ready L_rcu (copied v y s)"
    using wf by (simp_all add: psys_wf_def rcu_ready_def intr_wf_def)
  show "rcu_list (copied v y s) (as @ c # bs)" using l fresh by (simp add: rcu_list_def lseg_upd)
  show "nodes (copied v y s) c = Some n" using n fresh by auto
  show "procs (copied v y s) (nd_process n) = Some x" using n(2) un [of "Suc (brk s)"] by auto
  have "pid_at (copied v y s) a = pid_at s a" if "pid_at s a \<noteq> None" for a
    using that un [of a] un [of "Suc (brk s)"] by (auto simp: pid_at_def split: option.splits)
  then show "pids_differ (copied v y s) as (pr_pid x)" using n(3) by (fastforce simp: pids_differ_def)
qed

text \<open>The whole of an update by a copy.\<close>

lemma copied_update:
  fixes s :: "'z psys_scheme" and v :: addr and y :: proc
  assumes "psys_wf s (as @ c # bs)" and "nodes s c = Some n" "procs s (nd_process n) = Some x" "pids_differ s as (pr_pid x)"
  defines "s2 \<equiv> relisted as c (brk s) (lock_cycle L_rcu (copied v y s))"
    and "s3 \<equiv> relisted as c (brk s) (lock_cycle L_rcu (lock_cycle L_rcu (copied v y s)))"
  shows "list_update_rcu (brk s) (nd_process n) L_rcu (copied v y s) = Ret (1, Some c, s2)"
    and "synchronize_rcu (polled s2) (cpuid s2) L_rcu s2 = (if grace s then Ret s3 else NoReturn)"
    and "free_old (Some c) s3 = Ret (cleared c (nd_process n) s3)"
proof -
  note w = copied_wf [OF assms(1-4)]
  have new: "nodes (copied v y s) (brk s) = Some \<lparr>nd_process = Suc (brk s), nd_next = v\<rparr>" by simp
  have "grace (copied v y s) = grace s" by (rule grace_cong) simp_all
  note u = update_and_free [OF w(1,2,3) refl w(4,5,6) new, unfolded this]
  show "list_update_rcu (brk s) (nd_process n) L_rcu (copied v y s) = Ret (1, Some c, s2)"
    unfolding s2_def by (rule u(1))
  show "synchronize_rcu (polled s2) (cpuid s2) L_rcu s2 = (if grace s then Ret s3 else NoReturn)"
    unfolding s2_def s3_def by (rule u(2))
  show "free_old (Some c) s3 = Ret (cleared c (nd_process n) s3)"
    unfolding s3_def by (rule u(3))
qed

lemma closeFile_result:
  assumes wf: "psys_wf s (as @ c # bs)" and n: "nodes s c = Some n" "procs s (nd_process n) = Some x" "pids_differ s as (pr_pid x)"
    "nd_process n < brk s" and none: "pr_ofile x = replicate NOFILE None"
  shows "closeFile (nd_process n) s = (if grace s then Ret (Suc (brk s),
    cleared c (nd_process n) (relisted as c (brk s) (lock_cycle L_rcu (lock_cycle L_rcu (copied 0 x s))))) else NoReturn)"
proof -
  have "close_files NOFILE 0 (Suc (brk s)) (copied 0 x s) = Ret (copied 0 x s)"
    using none by (intro close_files_none [of _ _ x]) simp_all
  then show ?thesis
    using copied_update [OF wf n(1-3), of 0 x] copy_node_result [OF n(2,4), of id]
    by (auto simp: closeFile_def set_next_copied)
qed

lemma pop_off_psys:
  fixes s :: "'z psys_scheme"
  assumes "intr_wf s" and "0 < cpu_noff (mycpu s)"
  obtains s' where "pop_off s = Ret s'" "myproc s' = myproc s" "procs s' = procs s" "nodes s' = nodes s"
    "process_list s' = process_list s" "kern s' = kern s" "brk s' = brk s"
  using assms that by (cases "cpu_noff (mycpu s) = 1 \<and> cpu_intena (mycpu s)")
    (auto simp: pop_off_def Let_def intr_wf_def myproc_def)

lemma psys_wf_push_off: "psys_wf s xs \<Longrightarrow> psys_wf (push_off s) xs"
proof -
  assume wf: "psys_wf s xs"
  have "pid_at (push_off s) = pid_at s" by (rule pid_at_cong) simp_all
  then show ?thesis using wf by (simp add: psys_wf_defs rcu_ready_def rcu_list_def)
qed

lemma grace_push_off [simp]: "grace (push_off s) = grace s"
  by (rule grace_cong) simp_all

text \<open>
  C8. \<open>exit\<close> uses a cleared process: \<open>closeFile\<close> replaces the caller's version and clears the old
  one, and \<open>exit\<close> goes on with the old pointer, whose \<open>cwd\<close> is then null. So \<open>exit\<close>, called with the
  writers' lock free by a process that has no open files, is on the list and is not the
  first process, does not get beyond the release of the current directory, whatever its status and
  whatever runs after a switch: if the grace period does not end it waits in \<open>closeFile\<close>; if it
  does, \<open>begin_op\<close> may wait for the log, and when it returns, \<open>exit\<close> faults in \<open>iput\<close>. The zombie state
  is not reached.
\<close>

theorem exit_uses_cleared_process:
  assumes "rcu_ready L_rcu s" and "psys_list s xs" and "c \<in> set xs" and "nodes s c = Some n" and "nd_process n = myproc s"
    and "procs s (myproc s) = Some x" and "myproc s \<noteq> initproc s" and "pr_ofile x = replicate NOFILE None"
  shows "exit swtch status s =
    (if grace s then bind_res (begin_op ((kern s)\<lparr>cur := x\<rparr>)) (\<lambda>_. Fault) else NoReturn)"
proof -
  let ?s = "push_off s"
  obtain as bs where xs: "xs = as @ c # bs" using assms(3) by (auto simp: in_set_conv_decomp)
  have wf: "psys_wf ?s (as @ c # bs)" using assms(1,2) xs by (intro psys_wf_push_off) (simp add: psys_wf_def)
  then obtain m y where my: "nodes ?s c = Some m" "procs ?s (nd_process m) = Some y" "pids_differ ?s as (pr_pid y)"
    "nd_process m < brk ?s" by (rule psys_wfE)
  with assms have [simp]: "m = n" "y = x" by simp_all
  let ?s1 = "cleared c (myproc s) (relisted as c (brk s) (lock_cycle L_rcu (lock_cycle L_rcu (copied 0 x ?s))))"
  have close: "closeFile (myproc s) ?s = (if grace s then Ret (Suc (brk s), ?s1) else NoReturn)"
    using closeFile_result [OF wf my] assms(5,8) by simp
  let ?s2 = "set_myproc (Suc (brk s)) ?s1"
  have "intr_wf ?s2" "0 < cpu_noff (mycpu ?s2)"
    using wf assms(1) by (auto simp: psys_wf_def rcu_ready_def intr_wf_def intr_get_def set_myproc_def)
  then obtain s3 where s3: "pop_off ?s2 = Ret s3" "myproc s3 = myproc ?s2" "procs s3 = procs ?s2" "kern s3 = kern ?s2"
    by (rule pop_off_psys)
  have q: "myproc s < Suc (brk s)" using my assms(5) by simp
  then have h: "procs s3 (Suc (brk s)) = Some x" "procs s3 (myproc s) = Some zero_proc" "kern s3 = kern s" "myproc s3 = Suc (brk s)"
    unfolding s3 by (simp_all add: set_myproc_def myproc_def)
  show ?thesis
    using close s3(1) h q assms(7)
    by (cases "begin_op ((kern s)\<lparr>cur := x\<rparr>)")
      (simp_all add: exit_def get_proc_def zero_proc_def Let_def in_kern_unit_def in_kern_def)
qed

section \<open>Loops over the list\<close>

text \<open>A loop whose body does nothing on the first nodes reaches the next one, or the end.\<close>

lemma for_nodes_reach:
  assumes "lpath (nodes s) a as c" and "\<And>d. d \<in> set as \<Longrightarrow> body d b s = Ret (None, b, s)"
  shows "for_nodes body a b s = for_nodes body c b s"
  using assms
proof (induction as arbitrary: a)
  case (Cons d as)
  then obtain n where n: "a = d" "d \<noteq> 0" "nodes s d = Some n" "lpath (nodes s) (nd_next n) as c" by auto
  have "for_nodes body a b s = for_nodes body (nd_next n) b s"
    using n Cons.prems(2) by (subst for_nodes.simps) (simp add: get_node_def)
  also have "\<dots> = for_nodes body c b s" using n(4) Cons.prems(2) by (intro Cons.IH) auto
  finally show ?case .
qed simp

lemma for_nodes_skip:
  assumes "lseg (nodes s) a xs" and "\<And>d. d \<in> set xs \<Longrightarrow> body d b s = Ret (None, b, s)"
  shows "for_nodes body a b s = Some (Ret (None, b, s))"
proof -
  have "for_nodes body a b s = for_nodes body 0 b s"
    using assms by (intro for_nodes_reach) (simp_all add: lseg_def)
  then show ?thesis by (simp add: for_nodes.simps)
qed

text \<open>Leaving a read-side section and entering it again.\<close>

lemma or_and_not: "x AND m = 0 \<Longrightarrow> (x OR m) AND NOT m = x" for x m :: u64
proof -
  assume "x AND m = 0"
  moreover have "(x OR m) AND NOT m = x AND NOT m" by (rule bit_word_eqI) (auto simp: bit_simps)
  ultimately show ?thesis by (simp add: and_not_idem)
qed

lemma intr_off_on: "\<not> intr_get s \<Longrightarrow> intr_off (intr_on s) = s"
  by (simp add: intr_get_def intr_off_def intr_on_def or_and_not)

lemma upd_mycpu_intr_off: "intr_off (upd_mycpu f s) = upd_mycpu f (intr_off s)"
  by (simp add: upd_mycpu_def intr_off_def mycpu_def cpuid_def)

lemma push_after_pop:
  assumes "intr_wf s" and "0 < cpu_noff (mycpu s)"
  obtains t where "pop_off s = Ret t" "push_off t = s"
proof -
  have off: "\<not> intr_get s" using assms by (simp add: intr_wf_def)
  let ?t = "upd_mycpu (\<lambda>c. c\<lparr>cpu_noff := cpu_noff c - 1\<rparr>) s"
  let ?u = "if cpu_noff (mycpu s) = 1 \<and> cpu_intena (mycpu s) then intr_on ?t else ?t"
  have "pop_off s = Ret ?u" using assms off by (simp add: pop_off_def Let_def)
  moreover have "push_off ?u = s"
    using off by (auto simp: push_off_def Let_def upd_mycpu_intr_off intr_off_on intr_off_idem comp_def intro!: upd_mycpu_id)
  ultimately show thesis by (rule that)
qed

section \<open>wakeup\<close>

lemma pop_off_copied: "pop_off (copied v y s) = bind_res (pop_off s) (\<lambda>t. Ret (copied v y t))"
  by (simp add: pop_off_def Let_def copied_def upd_mycpu_def intr_on_def intr_get_def mycpu_def cpuid_def)

lemma upd_copied: "upd_proc (Suc (brk s)) f (copied v y s) = Ret (copied v (f y) s)"
  by (simp add: upd_proc_def get_proc_def copied_def)

lemma psys_wf_after_pair: "psys_wf s xs \<Longrightarrow> psys_wf (after_pair s) xs"
proof -
  assume wf: "psys_wf s xs"
  have "pid_at (after_pair s) = pid_at s" by (rule pid_at_cong) (simp_all add: after_pair_def)
  then show ?thesis
    using wf by (auto simp: psys_wf_defs rcu_ready_def rcu_list_def intr_wf_def after_pair_def)
qed

lemma after_pair_psys:
  "brk (after_pair s) = brk s" "nodes (after_pair s) = nodes s" "procs (after_pair s) = procs s" "grace (after_pair s) = grace s"
  by (simp_all add: after_pair_def grace_def)

lemma proc_of_listed:
  assumes "psys_wf s xs" and "a \<in> set xs"
  obtains p x where "proc_of a s = Ret (p, x)" "pid_at s a = Some (pr_pid x)"
proof -
  have "None \<noteq> pid_at s a" using assms by (auto simp: psys_wf_defs image_iff)
  then show thesis using that by (auto simp: pid_at_def proc_of_def get_node_def get_proc_def split: option.splits)
qed

lemma proc_of_push_off [simp]: "proc_of a (push_off s) = proc_of a s"
  by (simp add: proc_of_def get_node_def get_proc_def)

lemma wakeup_node_skip:
  assumes wf: "intr_wf s" "0 < cpu_noff (mycpu s)" and x: "proc_of d s = Ret (p, x)"
    and "\<not> (p \<noteq> myproc s \<and> pr_state x = SLEEPING \<and> pr_chan x = chan)"
  shows "wakeup_node chan d () s = Ret (None, (), s)"
proof -
  obtain t where "pop_off s = Ret t" "push_off t = s" by (rule push_after_pop [OF wf])
  then show ?thesis using x assms(4) by (auto simp: wakeup_node_def rcu_read_unlock_def rcu_read_lock_def)
qed

lemma wakeup_node_frees:
  assumes wf: "psys_wf s (as @ c # bs)" and n: "nodes s c = Some n" "procs s (nd_process n) = Some x"
    and x: "pr_state x = SLEEPING" "pr_chan x = chan" "nd_process n \<noteq> myproc s"
  shows "if grace s then \<exists>t. wakeup_node chan c () (push_off s) = Ret (None, (), t) \<and> nodes t c = None
    else wakeup_node chan c () (push_off s) = NoReturn"
proof -
  let ?t = "after_pair s"
  have wt: "psys_wf ?t (as @ c # bs)" using wf by (rule psys_wf_after_pair)
  note fields = after_pair_psys [of s]
  obtain m z where mz: "nodes ?t c = Some m" "procs ?t (nd_process m) = Some z" "pids_differ ?t as (pr_pid z)"
    "nd_process m < brk ?t" by (rule psys_wfE [OF wt])
  with n fields have [simp]: "m = n" "z = x" by simp_all
  let ?v = "nd_next (raw_node s)" and ?y = "x\<lparr>pr_state := RUNNABLE\<rparr>"
  have copy: "copy_node (nd_process n) id (push_off s) = Ret (brk s, Suc (brk s), copied ?v x (push_off s))"
    using copy_node_result [of "push_off s" "nd_process n" x id] n mz fields by simp
  have unlock: "rcu_read_unlock (copied ?v x (push_off s)) = Ret (copied ?v x ?t)"
    using wf by (simp add: rcu_read_unlock_def pop_off_copied pop_push_off psys_wf_def rcu_ready_def)
  have upd: "upd_proc (Suc (brk s)) (\<lambda>y. y\<lparr>pr_state := RUNNABLE\<rparr>) (copied ?v x ?t) = Ret (copied ?v ?y ?t)"
    using upd_copied [of ?t] fields by simp
  show ?thesis
    using copied_update [OF wt mz(1-3), of ?v ?y] copy unlock upd n x fields
    by (auto simp: wakeup_node_def proc_of_def get_node_def get_proc_def rcu_read_lock_def)
qed

text \<open>The first node of which \<open>P\<close> holds.\<close>

lemma first_such:
  assumes "c \<in> set xs" and "P c"
  obtains as d bs where "xs = as @ d # bs" "P d" "\<forall>a \<in> set as. \<not> P a"
  using split_list_first_prop [of xs P] assms that by blast

definition sleeps_on :: "'z psys_scheme \<Rightarrow> chan \<Rightarrow> addr \<Rightarrow> bool" where
  "sleeps_on s chan a \<longleftrightarrow> (case proc_of a s of Ret (p, x) \<Rightarrow>
     p \<noteq> myproc s \<and> pr_state x = SLEEPING \<and> pr_chan x = chan | _ \<Rightarrow> False)"

text \<open>
  C9. \<open>wakeup\<close> reads a freed node: when a process sleeps on the channel, the loop replaces its
  version, waits for the grace period, frees its node, and then takes the next pointer from the
  freed node. So \<open>wakeup(&ticks)\<close>, called with the writers' lock free on a list whose processes have
  distinct ids and of which one, other than the caller, sleeps on the clock ticks, never
  returns: it ends in the use of freed memory, or waits forever if the grace period does not end.
\<close>

theorem wakeup_uses_freed_node:
  assumes "rcu_ready L_rcu s" and "psys_list s xs" and "c \<in> set xs" and "sleeps_on s ChTicks c"
  shows "wakeup ChTicks s = (if grace s then Fault else NoReturn)"
proof -
  let ?s = "push_off s"
  obtain as d bs where xs: "xs = as @ d # bs" and d: "sleeps_on s ChTicks d" and as: "\<forall>a \<in> set as. \<not> sleeps_on s ChTicks a"
    by (rule first_such [of c xs "sleeps_on s ChTicks", OF assms(3,4)])
  have wfs: "psys_wf s (as @ d # bs)" using assms(1,2) xs by (simp add: psys_wf_def)
  then have wf: "psys_wf ?s (as @ d # bs)" by (rule psys_wf_push_off)
  have l: "lseg (nodes ?s) (process_list ?s) (as @ d # bs)" using wf by (simp add: psys_wf_defs rcu_list_def)
  have lock: "for_nodes (wakeup_lock ChTicks) (process_list ?s) () ?s = Some (Ret (None, (), ?s))"
    by (rule for_nodes_skip [OF l]) (simp add: wakeup_lock_def)
  have i: "intr_wf ?s" "0 < cpu_noff (mycpu ?s)"
    using wf assms(1) by (auto simp: psys_wf_def rcu_ready_def intr_wf_def)
  have skip: "wakeup_node ChTicks a () ?s = Ret (None, (), ?s)" if "a \<in> set as" for a
  proof -
    have "a \<in> set (as @ d # bs)" using that by simp
    from proc_of_listed [OF wf this] obtain p x where x: "proc_of a ?s = Ret (p, x)" by blast
    then show ?thesis using as that by (intro wakeup_node_skip [OF i x]) (auto simp: sleeps_on_def)
  qed
  have c: "lpath (nodes ?s) (process_list ?s) as d" "d \<noteq> 0" using l by (auto simp: lseg_append)
  obtain n x where n: "nodes s d = Some n" "procs s (nd_process n) = Some x" "pr_state x = SLEEPING" "pr_chan x = ChTicks"
    "nd_process n \<noteq> myproc s"
    using d by (auto simp: sleeps_on_def proc_of_def get_node_def get_proc_def split: option.splits)
  have "for_nodes (wakeup_node ChTicks) d () ?s = Some (if grace s then Fault else NoReturn)"
    using wakeup_node_frees [OF wfs n] c(2) by (subst for_nodes.simps) (auto simp: get_node_def split: if_splits)
  moreover have "for_nodes (wakeup_node ChTicks) (process_list ?s) () ?s = for_nodes (wakeup_node ChTicks) d () ?s"
    using c(1) by (rule for_nodes_reach) (rule skip)
  ultimately show ?thesis using lock
    by (simp add: wakeup_def Let_def rcu_read_lock_def from_loop_def)
qed

section \<open>kill\<close>

lemma kill_node_skip:
  assumes wf: "intr_wf s" "0 < cpu_noff (mycpu s)" and x: "proc_of d s = Ret (p, x)" "pr_pid x \<noteq> pid"
  shows "kill_node pid d () s = Ret (None, (), s)"
proof -
  obtain t where "pop_off s = Ret t" "push_off t = s" by (rule push_after_pop [OF wf])
  then show ?thesis using x by (auto simp: kill_node_def rcu_read_unlock_def rcu_read_lock_def)
qed

text \<open>The heap after \<open>kill\<close>'s copy: a raw node, and the copy in the object \<open>r\<close> that it points to.\<close>

definition miscopied :: "proc \<Rightarrow> 'z psys_scheme \<Rightarrow> 'z psys_scheme" where
  "miscopied y s = s\<lparr>nodes := (nodes s)(brk s \<mapsto> raw_node s), procs := (procs s)(nd_process (raw_node s) \<mapsto> y),
     brk := Suc (brk s)\<rparr>"

lemma miscopied_fields [simp]:
  "nodes (miscopied y s) = (nodes s)(brk s \<mapsto> raw_node s)" "procs (miscopied y s) = (procs s)(nd_process (raw_node s) \<mapsto> y)"
  "process_list (miscopied y s) = process_list s" "hart (miscopied y s) = hart s" "polled (miscopied y s) = polled s"
  "locks (miscopied y s) = locks s" "mycpu (miscopied y s) = mycpu s" "intr_get (miscopied y s) = intr_get s"
  by (simp_all add: miscopied_def mycpu_def cpuid_def intr_get_def)

lemma pop_off_miscopied: "pop_off (miscopied y s) = bind_res (pop_off s) (\<lambda>t. Ret (miscopied y t))"
  by (simp add: pop_off_def Let_def miscopied_def upd_mycpu_def intr_on_def intr_get_def mycpu_def cpuid_def)

lemma upd_miscopied: "upd_proc (nd_process (raw_node s)) f (miscopied y s) = Ret (miscopied (f y) s)"
  by (simp add: upd_proc_def get_proc_def miscopied_def)

text \<open>\<open>p\<close> is the object of no process on the list.\<close>

definition unlisted :: "'z rcu_scheme \<Rightarrow> addr list \<Rightarrow> addr \<Rightarrow> bool" where
  "unlisted s xs p \<longleftrightarrow> (\<forall>a \<in> set xs. map_option nd_process (nodes s a) \<noteq> Some p)"

lemma miscopied_wf:
  assumes wf: "psys_wf s (as @ c # bs)" and n: "nodes s c = Some n" "procs s (nd_process n) = Some x" "pids_differ s as (pr_pid x)"
    and r: "unlisted s (as @ c # bs) (nd_process (raw_node s))"
  shows "rcu_ready L_rcu (miscopied y s)" "rcu_list (miscopied y s) (as @ c # bs)"
    "nodes (miscopied y s) c = Some n" "procs (miscopied y s) (nd_process n) = Some x" "pids_differ (miscopied y s) as (pr_pid x)"
    "brk s \<notin> set (as @ c # bs)"
proof -
  have l: "lseg (nodes s) (process_list s) (as @ c # bs)" using wf by (simp add: psys_wf_defs rcu_list_def)
  show fresh: "brk s \<notin> set (as @ c # bs)"
    using lseg_alloc [OF l, of "brk s"] wf by (auto simp: psys_wf_defs)
  show "rcu_ready L_rcu (miscopied y s)" using wf by (simp add: psys_wf_def rcu_ready_def intr_wf_def)
  show "rcu_list (miscopied y s) (as @ c # bs)" using l fresh by (simp add: rcu_list_def lseg_upd)
  show "nodes (miscopied y s) c = Some n" using n fresh by auto
  show "procs (miscopied y s) (nd_process n) = Some x" using n r by (auto simp: unlisted_def)
  have "pid_at (miscopied y s) a = pid_at s a" if "a \<in> set as" for a
    using that r fresh by (auto simp: pid_at_def unlisted_def split: option.splits)
  then show "pids_differ (miscopied y s) as (pr_pid x)" using n(3) by (auto simp: pids_differ_def)
qed

lemma update_and_free_list:
  assumes l: "rcu_list s (as @ c # bs)" and new: "new \<notin> set (as @ c # bs)" "nodes s new = Some nn" "new \<noteq> 0"
  shows "rcu_list (cleared c p (relisted as c new s)) (as @ new # bs)"
proof -
  have ls: "lseg (nodes s) (process_list s) (as @ c # bs)" using l by (simp add: rcu_list_def)
  have "rcu_list (relisted as c new s) (as @ new # bs)"
    using readers_see_replaced [OF ls new(1,3,2), of s] by (simp add: readers_see_def relisted_def)
  moreover have "c \<notin> set (as @ new # bs)" using lseg_distinct [OF ls] new by auto
  ultimately show ?thesis by (simp add: rcu_list_def lseg_upd relisted_def)
qed

definition killed_copy :: "proc \<Rightarrow> proc" where
  "killed_copy x = x\<lparr>pr_killed := True, pr_state := if pr_state x = SLEEPING then RUNNABLE else pr_state x\<rparr>"

lemma kill_node_found:
  assumes wf: "psys_wf s (as @ c # bs)" and c: "pid_at s c = Some pid" and r: "unlisted s (as @ c # bs) (nd_process (raw_node s))"
    and n: "nodes s c = Some n" "procs s (nd_process n) = Some x"
  shows "if procs s (nd_process (raw_node s)) = None then kill_node pid c () (push_off s) = Fault
    else if grace s then returns (kill_node pid c () (push_off s)) (\<lambda>(b, _, t). b = Some () \<and>
      rcu_list t (as @ brk s # bs) \<and> procs t (nd_process (raw_node s)) = Some (killed_copy x))
    else kill_node pid c () (push_off s) = NoReturn"
proof (cases "procs s (nd_process (raw_node s))")
  case None
  then show ?thesis
    using n c by (simp add: kill_node_def proc_of_def get_node_def get_proc_def knmalloc_node_def upd_proc_def pid_at_def)
next
  case (Some z)
  let ?t = "after_pair s" and ?r = "nd_process (raw_node s)"
  let ?y = "killed_copy x"
  let ?s3 = "relisted as c (brk ?t) (lock_cycle L_rcu (lock_cycle L_rcu (miscopied ?y ?t)))"
  have wt: "psys_wf ?t (as @ c # bs)" using wf by (rule psys_wf_after_pair)
  have f: "raw_node ?t = raw_node s" "brk ?t = brk s" by (simp_all add: after_pair_def)
  have pid: "pr_pid x = pid" using c n by (simp add: pid_at_def)
  have rt: "unlisted ?t (as @ c # bs) (nd_process (raw_node ?t))" using r f by (simp add: unlisted_def after_pair_psys)
  have nt: "nodes ?t c = Some n" "procs ?t (nd_process n) = Some x" using n by (simp_all add: after_pair_psys)
  have d: "pids_differ ?t as (pr_pid x)" using psys_wfE [OF wt] nt by (metis option.inject)
  note w = miscopied_wf [OF wt nt d rt]
  have new: "nodes (miscopied ?y ?t) (brk ?t) = Some (raw_node ?t)" by simp
  note u = update_and_free [of "miscopied ?y ?t", OF w(1-3) refl w(4-6) new]
  have g: "grace (miscopied ?y ?t) = grace s" by (simp add: grace_def after_pair_def)
  have alloc: "upd_proc ?r (\<lambda>_. x) (snd (knmalloc_node (push_off s))) = Ret (miscopied x (push_off s))"
    using Some by (simp add: knmalloc_node_def upd_proc_def get_proc_def miscopied_def brk_comm)
  have unlock: "rcu_read_unlock (miscopied x (push_off s)) = Ret (miscopied x ?t)"
    using wf by (simp add: rcu_read_unlock_def pop_off_miscopied pop_push_off psys_wf_def rcu_ready_def)
  have upd: "upd_proc ?r (\<lambda>y. y\<lparr>pr_killed := True, pr_state := if pr_state y = SLEEPING then RUNNABLE else pr_state y\<rparr>)
      (miscopied x ?t) = Ret (miscopied ?y ?t)"
    using upd_miscopied [of ?t] f by (simp add: killed_copy_def)
  have run: "kill_node pid c () (push_off s) =
      bind_res (if grace s then Ret ?s3 else NoReturn) (\<lambda>s6. bind_res (free_old (Some c) s6) (\<lambda>s7. Ret (Some (), (), s7)))"
    using alloc unlock upd n pid u(1,2) f g
    by (simp add: kill_node_def proc_of_def get_node_def get_proc_def knmalloc_node_def)
  have "rcu_list (cleared c (nd_process n) ?s3) (as @ brk ?t # bs)"
    using w(2,6) new wt by (intro update_and_free_list) (auto simp: rcu_list_def psys_wf_defs)
  moreover have "nd_process n \<noteq> ?r" using r n by (auto simp: unlisted_def)
  ultimately show ?thesis using run u(3) Some f by simp
qed

text \<open>
  C10. \<open>kill\<close> writes through an uninitialised pointer: it allocates a node for the new version but
  no process, and copies the victim to wherever the first word of that fresh memory points. So
  \<open>kill\<close> of a process anywhere on the list, called with the writers' lock free, faults if that word is
  not the address of a process object. If it is the address of some object that no process on
  the list uses, \<open>kill\<close> overwrites this object with the victim, marked as killed, puts it
  on the list and returns 0, or waits forever if the grace period does not end.
\<close>

theorem kill_writes_through_raw_pointer:
  assumes "rcu_ready L_rcu s" and "psys_list s (as @ c # bs)" and "nodes s c = Some n" and "procs s (nd_process n) = Some x"
    and "pr_pid x = pid" and "unlisted s (as @ c # bs) (nd_process (raw_node s))"
  shows "if procs s (nd_process (raw_node s)) = None then kill pid s = Fault
    else if grace s then returns (kill pid s) (\<lambda>(v, s'). v = 0 \<and> rcu_list s' (as @ brk s # bs) \<and>
      procs s' (nd_process (raw_node s)) = Some (killed_copy x))
    else kill pid s = NoReturn"
proof -
  let ?s = "push_off s"
  have wfs: "psys_wf s (as @ c # bs)" using assms(1,2) by (simp add: psys_wf_def)
  then have wf: "psys_wf ?s (as @ c # bs)" by (rule psys_wf_push_off)
  have i: "intr_wf ?s" "0 < cpu_noff (mycpu ?s)"
    using wf assms(1) by (auto simp: psys_wf_def rcu_ready_def intr_wf_def)
  have pid: "pid_at s c = Some pid" using assms(3-5) by (simp add: pid_at_def)
  have skip: "kill_node pid a () ?s = Ret (None, (), ?s)" if "a \<in> set as" for a
  proof -
    have "a \<in> set (as @ c # bs)" using that by simp
    from proc_of_listed [OF wfs this] obtain p y where y: "proc_of a s = Ret (p, y)" "pid_at s a = Some (pr_pid y)" by blast
    moreover have "pid_at s a \<noteq> pid_at s c" using assms(2) that by (force simp: psys_list_def image_iff)
    ultimately show ?thesis using pid by (intro kill_node_skip [OF i, of a p y]) auto
  qed
  have c: "lpath (nodes ?s) (process_list ?s) as c" "c \<noteq> 0"
    using wf by (auto simp: psys_wf_defs rcu_list_def lseg_append)
  have reach: "for_nodes (kill_node pid) (process_list ?s) () ?s = for_nodes (kill_node pid) c () ?s"
    using c(1) by (rule for_nodes_reach) (rule skip)
  show ?thesis
    using kill_node_found [OF wfs pid assms(6) assms(3,4)] c(2) reach
    by (auto simp: kill_def Let_def rcu_read_lock_def from_loop_def for_nodes.simps [of "kill_node pid" c] returns_def
        split: if_splits)
qed

section \<open>allocproc\<close>

lemma release_nextpid: "release l (s\<lparr>nextpid := v\<rparr>) = bind_res (release l s) (\<lambda>t. Ret (t\<lparr>nextpid := v\<rparr>))"
  by (simp add: release_def release_lk_def pop_off_def holding_def Let_def upd_mycpu_def intr_on_def intr_get_def
      mycpu_def cpuid_def)

lemma allocpid_result:
  "rcu_ready L_pid s \<Longrightarrow> allocpid s = Ret (nextpid s, (lock_cycle L_pid s)\<lparr>nextpid := nextpid s + 1\<rparr>)"
  by (simp add: allocpid_def rcu_ready_def acquire_lock_in release_nextpid release_lock_in_mach Let_def)
    (simp add: lock_in_def acquired_def set_idle_def)

text \<open>The first free kernel stack.\<close>

definition free_stack :: "'z psys_scheme \<Rightarrow> nat \<Rightarrow> bool" where
  "free_stack s n \<longleftrightarrow> n < NPROC \<and> length (bitmap s) = NPROC \<and> \<not> bitmap s ! n \<and> (\<forall>i < n. bitmap s ! i)"

lemma find_free_stack: "free_stack s n \<Longrightarrow> find (\<lambda>n. \<not> bitmap s ! n) [0..<NPROC] = Some n"
  by (auto simp: find_Some_iff free_stack_def intro!: exI [of _ n])

lemma myproc_upd [simp]:
  "myproc (s\<lparr>procs := g\<rparr>) = myproc s" "myproc (s\<lparr>brk := b\<rparr>) = myproc s" "myproc (s\<lparr>bitmap := m\<rparr>) = myproc s"
  "myproc (s\<lparr>nextpid := i\<rparr>) = myproc s" "myproc (s\<lparr>unique_id := i\<rparr>) = myproc s" "myproc (s\<lparr>kern := k\<rparr>) = myproc s"
  by (simp_all add: myproc_def mycpu_def cpuid_def)

lemma lock_cycle_upd:
  "lock_cycle l (s\<lparr>procs := g\<rparr>) = (lock_cycle l s)\<lparr>procs := g\<rparr>" "lock_cycle l (s\<lparr>brk := b\<rparr>) = (lock_cycle l s)\<lparr>brk := b\<rparr>"
  by (simp_all add: lock_cycle_def after_pair_def set_idle_def upd_mycpu_def mycpu_def cpuid_def intr_get_def)

lemma ready_upd:
  "rcu_ready l (s\<lparr>procs := g\<rparr>) = rcu_ready l s" "rcu_ready l (s\<lparr>brk := b\<rparr>) = rcu_ready l s"
  by (simp_all add: rcu_ready_def intr_wf_def mycpu_def cpuid_def intr_get_def)

text \<open>The kernel as the current process, if there is one, sees it.\<close>

definition seen :: "'z psys_scheme \<Rightarrow> files option" where
  "seen s = (if myproc s = 0 then Some (kern s) else
     if myproc s < brk s then map_option (\<lambda>x. (kern s)\<lparr>cur := x\<rparr>) (procs s (myproc s)) else None)"

text \<open>
  C11. A failing \<open>allocproc\<close> keeps the kernel stack: when no page is left for the trap frame it
  returns null and frees the process, but the stack it had marked stays marked, so 64 failures
  use up the stacks and the next call panics.
\<close>

theorem allocproc_failure_keeps_stack:
  assumes "rcu_ready L_pid s" and "free_stack s n" and "seen s = Some k0" and "kalloc k0 = Ret (0, k)"
  shows "returns (allocproc trampoline forkret s) (\<lambda>(p, s'). p = 0 \<and> procs s' (brk s) = None \<and>
    bitmap s' = (bitmap s)[n := True] \<and> nextpid s' = nextpid s + 1)"
  using assms find_free_stack [OF assms(2)]
  by (auto simp: allocproc_def knmalloc_proc_def allocpid_result ready_upd lock_cycle_upd upd_proc_def get_proc_def
      in_kern_def knfree_proc_def seen_def split: if_splits)

section \<open>The scheduler as a reader\<close>

lemma scheduler_enter_cpu: "cpu_idle (cpus (scheduler_enter (on_hart k m)) j) = (j = k \<or> cpu_idle (cpus m j))"
  by (auto simp: scheduler_enter_def rcu_read_lock_def on_hart_def cpuid_def)

text \<open>
  C15. Grace periods do not wait for the scheduler: a CPU that has entered the read-side section
  in which \<open>scheduler\<close> walks the list is marked idle, so when the other CPUs are idle,
  \<open>synchronize_rcu\<close> called at that moment runs to its end by its own steps alone although
  that CPU is still in the section.
\<close>

theorem synchronize_rcu_misses_scheduler:
  assumes "gp_start g" and "gp_mach g = scheduler_enter (on_hart k m)" and "0 < gp_depth g k" and "k \<noteq> gp_self g"
    and "\<forall>j < NCPU. j \<noteq> gp_self g \<and> j \<noteq> k \<longrightarrow> cpu_idle (cpus m j)"
  shows "\<exists>y. gp_run (\<lambda>_ e. e = GpSync) g (g\<lparr>gp_sync := y\<rparr>) \<and> sy_pc y = SyncDone \<and> gp_old (g\<lparr>gp_sync := y\<rparr>) k"
  using gp_sync_done [OF gp_run_none, of "\<lambda>_ e. e = GpSync" g] assms
  by (auto simp: gp_start_def scheduler_enter_cpu)

definition gp_sched_demo :: gp where
  "gp_sched_demo = gp_demo\<lparr>gp_mach := scheduler_enter (on_hart 1 boot_mach)\<rparr>"

theorem synchronize_rcu_misses_scheduler_witness:
  "\<exists>y. gp_run (\<lambda>_ e. e = GpSync) gp_sched_demo (gp_sched_demo\<lparr>gp_sync := y\<rparr>) \<and> sy_pc y = SyncDone \<and> gp_old gp_sched_demo 1"
  using synchronize_rcu_misses_scheduler [of gp_sched_demo 1 boot_mach]
  by (auto simp: gp_sched_demo_def gp_demo_def gp_start_def NCPU_def less_Suc_eq numeral_2_eq_2)

text \<open>Two processes, the second one running on hart 0; the other hart is idle and no transaction is open.\<close>

definition demo_kern :: files where
  "demo_kern =
     fs.extend (log.extend (blocks.extend (pipes.extend demo_pipes
       \<lparr>bufs = (\<lambda>_. \<lparr>b_valid = False, b_dev = 0, b_blockno = 0, b_lock = initsleeplock, b_refcnt = 0, b_prev = 0, b_next = 0, b_data = []\<rparr>),
         disk = (\<lambda>_. replicate BSIZE 0), disk_log = []\<rparr>)
       \<lparr>log_start = 2, log_size = 30, log_outstanding = 0, log_committing = False, log_dev = 1, lh_n = 0, lh_block = replicate LOGSIZE 0\<rparr>)
       \<lparr>sb = \<lparr>sb_magic = FSMAGIC, sb_size = 1000, sb_nblocks = 954, sb_ninodes = 200, sb_nlog = 30, sb_logstart = 2,
           sb_inodestart = 32, sb_bmapstart = 45\<rparr>,
         inodes = (\<lambda>_. \<lparr>i_dev = 0, i_inum = 0, i_ref = 0, i_lock = initsleeplock, i_valid = False, i_type = 0, i_major = 0,
           i_minor = 0, i_nlink = 0, i_size = 0, i_addrs = []\<rparr>)\<rparr>)
       \<lparr>ftable = (\<lambda>_. \<lparr>f_type = FD_NONE, f_ref = 0, f_readable = False, f_writable = False, f_pipe = 0, f_ip = 0, f_off = 0, f_major = 0\<rparr>)\<rparr>"

definition demo_psys :: "proc \<Rightarrow> psys" where
  "demo_psys x = \<lparr>hart = 0, sstatus = (\<lambda>_. 2), cpus = (\<lambda>k. boot_cpu\<lparr>cpu_proc := if k = 0 then 12 else 0, cpu_idle := k \<noteq> 0\<rparr>),
     locks = (\<lambda>_. initlock ''boot''),
     nodes = [1 \<mapsto> \<lparr>nd_process = 11, nd_next = 2\<rparr>, 2 \<mapsto> \<lparr>nd_process = 12, nd_next = 0\<rparr>],
     procs = [11 \<mapsto> x, 12 \<mapsto> zero_proc\<lparr>pr_pid := 2, pr_uid := 1, pr_state := RUNNING, pr_cwd := Some 0\<rparr>],
     process_list = 1, kern = demo_kern, bitmap = replicate NPROC False, unique_id = 2, nextpid = 3, initproc = 11,
     brk = 20, raw_node = \<lparr>nd_process = 0, nd_next = 0\<rparr>, raw_proc = zero_proc, polled = (\<lambda>_. all_idle)\<rparr>"

lemma demo_psys_wf:
  "rcu_ready L_rcu (demo_psys x)" "pr_pid x = 1 \<Longrightarrow> psys_list (demo_psys x) [1, 2]" "grace (demo_psys x)"
  by (simp_all add: psys_list_def demo_psys_def rcu_ready_def intr_wf_def mycpu_def cpuid_def boot_cpu_def initlock_def
      rcu_list_def pid_at_def zero_proc_def grace_def grace_ends_def all_idle_def)

lemma demo_psys_fields:
  "myproc (demo_psys x) = 12" "initproc (demo_psys x) = 11" "nodes (demo_psys x) 2 = Some \<lparr>nd_process = 12, nd_next = 0\<rparr>"
  "procs (demo_psys x) 12 = Some (zero_proc\<lparr>pr_pid := 2, pr_uid := 1, pr_state := RUNNING, pr_cwd := Some 0\<rparr>)"
  "nodes (demo_psys x) (Suc 0) = Some \<lparr>nd_process = 11, nd_next = 2\<rparr>" "procs (demo_psys x) 11 = Some x"
  "kern (demo_psys x) = demo_kern"
  by (simp_all add: demo_psys_def myproc_def mycpu_def cpuid_def)

lemma demo_begin_op: "\<exists>k. begin_op (demo_kern\<lparr>cur := x\<rparr>) = Ret k"
  by (simp add: begin_op_def lock_acquire_def lock_release_def demo_kern_def fs.defs log.defs blocks.defs pipes.defs
      demo_pipes_ok(3) param_defs)

theorem exit_uses_cleared_process_witness:
  "exit Ret 0 (demo_psys (zero_proc\<lparr>pr_pid := 1\<rparr>)) = Fault"
proof -
  let ?x = "zero_proc\<lparr>pr_pid := 2, pr_uid := 1, pr_state := RUNNING, pr_cwd := Some 0\<rparr>"
  obtain k where "begin_op (demo_kern\<lparr>cur := ?x\<rparr>) = Ret k" using demo_begin_op by blast
  then show ?thesis
    using exit_uses_cleared_process [OF demo_psys_wf(1), of "zero_proc\<lparr>pr_pid := 1\<rparr>" "[1, 2]" 2 "\<lparr>nd_process = 12, nd_next = 0\<rparr>" ?x Ret 0]
      demo_psys_wf(2) [of "zero_proc\<lparr>pr_pid := 1\<rparr>"]
    by (simp add: demo_psys_fields demo_psys_wf(3)) (simp add: zero_proc_def)
qed

theorem wakeup_uses_freed_node_witness:
  "wakeup ChTicks (demo_psys (zero_proc\<lparr>pr_pid := 1, pr_state := SLEEPING, pr_chan := ChTicks\<rparr>)) = Fault"
proof -
  let ?x = "zero_proc\<lparr>pr_pid := 1, pr_state := SLEEPING, pr_chan := ChTicks\<rparr>"
  have "sleeps_on (demo_psys ?x) ChTicks 1"
    by (simp add: sleeps_on_def proc_of_def get_node_def get_proc_def demo_psys_fields)
  with wakeup_uses_freed_node [OF demo_psys_wf(1), of ?x "[1, 2]" 1] demo_psys_wf(2) [of ?x] show ?thesis
    by (simp add: demo_psys_wf(3))
qed

theorem kill_writes_through_raw_pointer_witness:
  "kill 2 (demo_psys (zero_proc\<lparr>pr_pid := 1\<rparr>)) = Fault"
proof -
  let ?s = "demo_psys (zero_proc\<lparr>pr_pid := 1\<rparr>)"
  have "psys_list ?s ([1] @ 2 # [])" using demo_psys_wf(2) [of "zero_proc\<lparr>pr_pid := 1\<rparr>"] by simp
  moreover have "unlisted ?s ([1] @ 2 # []) (nd_process (raw_node ?s))" "procs ?s (nd_process (raw_node ?s)) = None"
    by (simp_all add: unlisted_def demo_psys_def)
  ultimately show ?thesis
    using kill_writes_through_raw_pointer [OF demo_psys_wf(1), of "zero_proc\<lparr>pr_pid := 1\<rparr>" "[1]" 2 "[]"
        "\<lparr>nd_process = 12, nd_next = 0\<rparr>" "zero_proc\<lparr>pr_pid := 2, pr_uid := 1, pr_state := RUNNING, pr_cwd := Some 0\<rparr>" 2]
    by (simp add: demo_psys_fields(3,4))
qed

lemma demo_alloc:
  "rcu_ready L_pid (demo_psys x)" "free_stack (demo_psys x) 0"
  "seen (demo_psys x) = Some (demo_kern\<lparr>cur := zero_proc\<lparr>pr_pid := 2, pr_uid := 1, pr_state := RUNNING, pr_cwd := Some 0\<rparr>\<rparr>)"
  "held demo_kern = []"
  by (simp_all add: demo_psys_def rcu_ready_def intr_wf_def mycpu_def cpuid_def boot_cpu_def initlock_def free_stack_def
      NPROC_def seen_def myproc_def demo_kern_def fs.defs log.defs blocks.defs pipes.defs demo_pipes_ok(3))

lemma demo_kern_empty: "kalloc (demo_kern\<lparr>cur := x\<rparr>) = Ret (0, demo_kern\<lparr>cur := x\<rparr>)"
  by (simp add: kalloc_def lock_acquire_def lock_release_def demo_kern_def fs.defs log.defs blocks.defs pipes.defs
      demo_pipes_def printer.defs cons.defs demo_cons_def uart.defs demo_uart_def)

theorem allocproc_failure_keeps_stack_witness:
  "returns (allocproc 0x80007000 0x80001d00 (demo_psys zero_proc)) (\<lambda>(p, s'). p = 0 \<and> bitmap s' = (replicate NPROC False)[0 := True])"
  by (rule returns_mono [OF allocproc_failure_keeps_stack [OF demo_alloc(1-3) demo_kern_empty]])
    (auto simp: demo_psys_def)

end
