(* ===== verification/Sysproc.thy ===== *)
theory Sysproc
  imports Proc
begin

text \<open>
  The system calls on processes (kernel/sysproc.c) and the clock interrupt (kernel/trap.c). The
  state adds the tick counter. Arguments are read from the trap frame of the current process.
  The loop of \<open>sys_sleep\<close> is a partial function; what happens during \<open>sleep\<close> is the argument
  \<open>swtch\<close>, as in theory Proc.
\<close>

record tsys = psys +
  ticks :: u32

definition trapinit :: "'z mach_scheme \<Rightarrow> 'z mach_scheme" where
  "trapinit s = s\<lparr>locks := (locks s)(L_ticks := initlock ''time'')\<rparr>"

definition clockintr :: "'z tsys_scheme \<Rightarrow> 'z tsys_scheme res" where
  "clockintr s =
     bind_res (acquire L_ticks s) (\<lambda>s1.
     bind_res (wakeup ChTicks (s1\<lparr>ticks := ticks s1 + 1\<rparr>)) (release L_ticks))"

text \<open>The argument registers, read in the kernel view of the current process.\<close>

definition int_arg :: "nat \<Rightarrow> 'z psys_scheme \<Rightarrow> (int \<times> 'z psys_scheme) res" where
  "int_arg n s = in_kern (\<lambda>k. bind_res (argint n k) (\<lambda>v. Ret (v, k))) s"

definition addr_arg :: "nat \<Rightarrow> 'z psys_scheme \<Rightarrow> (u64 \<times> 'z psys_scheme) res" where
  "addr_arg n s = in_kern (\<lambda>k. bind_res (argaddr n k) (\<lambda>v. Ret (v, k))) s"

definition sys_exit :: "('z psys_scheme \<Rightarrow> 'z psys_scheme res) \<Rightarrow> 'z psys_scheme \<Rightarrow> (int \<times> 'z psys_scheme) res" where
  "sys_exit swtch s = bind_res (int_arg 0 s) (\<lambda>(n, s1). bind_res (exit swtch n s1) (\<lambda>s2. Ret (0, s2)))"

definition sys_getpid :: "'z psys_scheme \<Rightarrow> (int \<times> 'z psys_scheme) res" where
  "sys_getpid s = bind_res (get_proc (myproc s) s) (\<lambda>x. Ret (pr_pid x, s))"

definition sys_fork :: "u64 \<Rightarrow> u64 \<Rightarrow> 'z psys_scheme \<Rightarrow> (int \<times> 'z psys_scheme) res" where
  "sys_fork trampoline forkret s = fork trampoline forkret s"

definition sys_wait :: "('z psys_scheme \<Rightarrow> 'z psys_scheme res) \<Rightarrow> 'z psys_scheme \<Rightarrow> (int \<times> 'z psys_scheme) res" where
  "sys_wait swtch s = bind_res (addr_arg 0 s) (\<lambda>(p, s1). wait swtch p s1)"

text \<open>The old size is kept in an \<open>int\<close>.\<close>

definition sys_sbrk :: "'z psys_scheme \<Rightarrow> (int \<times> 'z psys_scheme) res" where
  "sys_sbrk s =
     bind_res (int_arg 0 s) (\<lambda>(n, s1).
     bind_res (get_proc (myproc s1) s1) (\<lambda>x.
     let addr = sint (ucast (pr_sz x) :: u32) in
     bind_res (growproc n s1) (\<lambda>(r, s2). Ret (if r < 0 then -1 else addr, s2))))"

text \<open>The comparison \<open>ticks - ticks0 < n\<close> is one of unsigned 32-bit integers.\<close>

partial_function (option) sys_sleep_loop ::
    "('z tsys_scheme \<Rightarrow> 'z tsys_scheme res) \<Rightarrow> int \<Rightarrow> u32 \<Rightarrow> 'z tsys_scheme \<Rightarrow> (int \<times> 'z tsys_scheme) res option" where
  "sys_sleep_loop swtch n ticks0 s =
     (if ticks s - ticks0 < of_int n then
        cont_loop (get_proc (myproc s) s) (\<lambda>x.
        if pr_killed x then Some (bind_res (release L_ticks s) (\<lambda>s1. Ret (-1, s1)))
        else cont_loop (sleep swtch ChTicks L_ticks s) (sys_sleep_loop swtch n ticks0))
      else Some (bind_res (release L_ticks s) (\<lambda>s1. Ret (0, s1))))"

definition sys_sleep :: "('z tsys_scheme \<Rightarrow> 'z tsys_scheme res) \<Rightarrow> 'z tsys_scheme \<Rightarrow> (int \<times> 'z tsys_scheme) res" where
  "sys_sleep swtch s =
     bind_res (int_arg 0 s) (\<lambda>(n, s1).
     bind_res (acquire L_ticks s1) (\<lambda>s2. from_loop (sys_sleep_loop swtch n (ticks s2) s2)))"

definition sys_kill :: "'z psys_scheme \<Rightarrow> (int \<times> 'z psys_scheme) res" where
  "sys_kill s = bind_res (int_arg 0 s) (\<lambda>(pid, s1). kill pid s1)"

definition sys_uptime :: "'z tsys_scheme \<Rightarrow> (u32 \<times> 'z tsys_scheme) res" where
  "sys_uptime s =
     bind_res (acquire L_ticks s) (\<lambda>s1. bind_res (release L_ticks s1) (\<lambda>s2. Ret (ticks s1, s2)))"

end
