(* ===== verification/Kmalloc.thy ===== *)
theory Kmalloc
  imports Kalloc
begin

text \<open>
  The kernel's heap allocator (kernel/kmalloc.c, kernel/kmalloc.h), a circular free list of
  blocks with a header of 16 bytes (a pointer at offset 0, a 32-bit number of units at offset
  8), on physical memory. \<open>base\<close>, the address of the static header, is an argument; \<open>freep\<close> is
  the static pointer. The searches may not end on a damaged list and are partial functions. A
  store through the null pointer is \<open>Fault\<close>. The debugging output is left out.

  Shown here: the first block that \<open>knmalloc\<close> hands out is not in the page that \<open>kalloc\<close> gave,
  because \<open>knmorecore\<close> records 4096 units of 16 bytes for one page of 4096 bytes.
\<close>

record kheap = kmem +
  freep :: u64

definition load32 :: "u64 \<Rightarrow> pmem \<Rightarrow> u32" where
  "load32 a m = le_word (read_bytes a 4 m)"

definition store32 :: "u64 \<Rightarrow> u32 \<Rightarrow> pmem \<Rightarrow> pmem" where
  "store32 a v m = write_bytes a (le_bytes 4 v) m"

section \<open>Headers\<close>

definition hd_ptr :: "u64 \<Rightarrow> 'z kmem_scheme \<Rightarrow> u64" where
  "hd_ptr a s = load64 a (pmem s)"

definition hd_size :: "u64 \<Rightarrow> 'z kmem_scheme \<Rightarrow> u32" where
  "hd_size a s = load32 (a + 8) (pmem s)"

definition set_ptr :: "u64 \<Rightarrow> u64 \<Rightarrow> 'z kmem_scheme \<Rightarrow> 'z kmem_scheme" where
  "set_ptr a v s = s\<lparr>pmem := store64 a v (pmem s)\<rparr>"

definition set_size :: "u64 \<Rightarrow> u32 \<Rightarrow> 'z kmem_scheme \<Rightarrow> 'z kmem_scheme" where
  "set_size a v s = s\<lparr>pmem := store32 (a + 8) v (pmem s)\<rparr>"

text \<open>\<open>p + n\<close> on a pointer to headers.\<close>

definition units :: "u64 \<Rightarrow> u32 \<Rightarrow> u64" where
  "units p n = p + 16 * ucast n"

section \<open>Operations\<close>

partial_function (option) knfree_search :: "u64 \<Rightarrow> u64 \<Rightarrow> 'z kmem_scheme \<Rightarrow> u64 option" where
  "knfree_search bp p s =
     (if bp > p \<and> bp < hd_ptr p s then Some p
      else if p \<ge> hd_ptr p s \<and> (bp > p \<or> bp < hd_ptr p s) then Some p
      else knfree_search bp (hd_ptr p s) s)"

definition knfree :: "u64 \<Rightarrow> 'z kheap_scheme \<Rightarrow> 'z kheap_scheme res" where
  "knfree ap s =
     (let bp = ap - 16 in
      case knfree_search bp (freep s) s of None \<Rightarrow> NoReturn
      | Some p \<Rightarrow>
          let nx = hd_ptr p s;
              s1 = (if units bp (hd_size bp s) = nx
                    then let t = set_size bp (hd_size bp s + hd_size nx s) s in set_ptr bp (hd_ptr (hd_ptr p t) t) t
                    else set_ptr bp nx s);
              s2 = (if units p (hd_size p s1) = bp
                    then let t = set_size p (hd_size p s1 + hd_size bp s1) s1 in set_ptr p (hd_ptr bp t) t
                    else set_ptr p bp s1) in
          Ret (s2\<lparr>freep := p\<rparr>))"

definition knmorecore :: "u32 \<Rightarrow> 'z kheap_scheme \<Rightarrow> (u64 \<times> 'z kheap_scheme) res" where
  "knmorecore nu s =
     (let nu = (if nu < 4096 then 4096 else nu) in
      bind_res (kalloc s) (\<lambda>(p, s1).
      if p = -1 then Ret (0, s1)
      else if p = 0 then Fault
      else bind_res (knfree (p + 16) (set_size p nu s1)) (\<lambda>s2. Ret (freep s2, s2))))"

text \<open>One iteration: the block found, or the pointers of the next one.\<close>

definition knmalloc_step :: "u32 \<Rightarrow> u64 \<Rightarrow> u64 \<Rightarrow> 'z kheap_scheme \<Rightarrow> ((u64 + u64 \<times> u64) \<times> 'z kheap_scheme) res" where
  "knmalloc_step nunits prevp p s =
     (if hd_size p s \<ge> nunits then
        if hd_size p s = nunits then Ret (Inl (p + 16), (set_ptr prevp (hd_ptr p s) s)\<lparr>freep := prevp\<rparr>)
        else
          let s1 = set_size p (hd_size p s - nunits) s; q = units p (hd_size p s1) in
          Ret (Inl (q + 16), (set_size q nunits s1)\<lparr>freep := prevp\<rparr>)
      else
        bind_res (if p = freep s then knmorecore nunits s else Ret (p, s)) (\<lambda>(q, s1).
        if p = freep s \<and> q = 0 then Ret (Inl 0, s1) else Ret (Inr (q, hd_ptr q s1), s1)))"

partial_function (option) knmalloc_loop :: "u32 \<Rightarrow> u64 \<Rightarrow> u64 \<Rightarrow> 'z kheap_scheme \<Rightarrow> (u64 \<times> 'z kheap_scheme) res option" where
  "knmalloc_loop nunits prevp p s =
     (case knmalloc_step nunits prevp p s of
        Ret (r, s1) \<Rightarrow> (case r of Inl a \<Rightarrow> Some (Ret (a, s1)) | Inr (prevp', p') \<Rightarrow> knmalloc_loop nunits prevp' p' s1)
      | Panic m \<Rightarrow> Some (Panic m) | Block c \<Rightarrow> Some (Block c) | Fault \<Rightarrow> Some Fault | NoReturn \<Rightarrow> Some NoReturn)"

definition knmalloc :: "u64 \<Rightarrow> u32 \<Rightarrow> 'z kheap_scheme \<Rightarrow> (u64 \<times> 'z kheap_scheme) res" where
  "knmalloc base nbytes s =
     (let nunits = ucast (((ucast nbytes :: u64) + 16 - 1) div 16 + 1);
          s1 = (if freep s = 0 then set_size base 0 ((set_ptr base base s)\<lparr>freep := base\<rparr>) else s) in
      from_loop (knmalloc_loop nunits (freep s1) (hd_ptr (freep s1) s1) s1))"

section \<open>Memory facts\<close>

lemma ranges_apart:
  assumes "unat a + n \<le> unat b \<or> unat b + k \<le> unat a" and "unat a + n < 2 ^ 64" and "unat b + k < 2 ^ 64" and "i < n"
  shows "k \<le> unat (a + of_nat i - b :: u64)"
proof -
  have "unat (a + of_nat i) = unat a + i"
    using assms(2,4) by (simp add: unat_word_ariths unat_of_nat)
  then show ?thesis using assms by (auto simp: unat_sub_if' word_le_nat_alt)
qed

lemma read_write_apart:
  assumes "unat a + n \<le> unat b \<or> unat b + length bs \<le> unat a" and "unat a + n < 2 ^ 64" and "unat b + length bs < 2 ^ 64"
  shows "read_bytes a n (write_bytes b bs m) = read_bytes a n m"
  by (rule read_bytes_cong) (use ranges_apart [OF assms] in \<open>force simp: write_bytes_def not_less\<close>)

lemma load_store32_same [simp]: "load32 a (store32 a v m) = v"
  by (simp add: load32_def store32_def read_write_same le_word_bytes)

definition apart :: "u64 \<Rightarrow> nat \<Rightarrow> u64 \<Rightarrow> nat \<Rightarrow> bool" where
  "apart a n b k \<longleftrightarrow> (unat a + n \<le> unat b \<or> unat b + k \<le> unat a) \<and> unat a + n < 2 ^ 64 \<and> unat b + k < 2 ^ 64"

lemma load_store_apart:
  "apart a 8 b 8 \<Longrightarrow> load64 a (store64 b v m) = load64 a m"
  "apart a 8 b 4 \<Longrightarrow> load64 a (store32 b w m) = load64 a m"
  "apart a 4 b 8 \<Longrightarrow> load32 a (store64 b v m) = load32 a m"
  "apart a 4 b 4 \<Longrightarrow> load32 a (store32 b w m) = load32 a m"
  by (simp_all add: load64_def store64_def load32_def store32_def read_write_apart apart_def)

lemma fill_apart:
  assumes "unat a + 8 \<le> unat p" and "unat p + 4096 < 2 ^ 64"
  shows "load64 a (fill_page p c m) = load64 a m" "load32 a (fill_page p c m) = load32 a m"
proof -
  have "fill_page p c m (a + of_nat i) = m (a + of_nat i)" if "i < 8" for i
    using ranges_apart [of a 8 p 4096 i] assms that by (simp add: fill_page_def PGSIZE_def word_less_nat_alt not_less)
  then show "load64 a (fill_page p c m) = load64 a m" "load32 a (fill_page p c m) = load32 a m"
    unfolding load64_def load32_def by (auto intro!: arg_cong [where f = le_word] read_bytes_cong)
qed

section \<open>The first allocation\<close>

text \<open>A page \<open>pa\<close> is the next free one, and the static header is before it.\<close>

definition first_page :: "u64 \<Rightarrow> u64 \<Rightarrow> 'z kmem_scheme \<Rightarrow> bool" where
  "first_page base pa s \<longleftrightarrow> freelist s = pa \<and> L_kmem \<notin> set (held s) \<and> base \<noteq> 0 \<and> unat base + 16 \<le> unat pa \<and> unat pa < 2 ^ 40"

lemma first_pageD:
  assumes "first_page base pa s"
  shows "apart base 8 (pa + 8) 4" "apart base 8 pa 8" "apart (base + 8) 4 (pa + 8) 4" "apart (base + 8) 4 pa 8"
    "apart (base + 8) 4 base 8" "apart (pa + 8) 4 pa 8" "apart (pa + 8) 4 base 8" "apart base 8 (base + 8) 4"
    "unat (base + 8) = unat base + 8" "base < pa" "pa \<noteq> 0" "pa \<noteq> -1"
proof -
  have u: "unat (base + 8) = unat base + 8" "unat (pa + 8) = unat pa + 8"
    using assms by (auto simp: first_page_def unat_word_ariths)
  then show "apart base 8 (pa + 8) 4" "apart base 8 pa 8" "apart (base + 8) 4 (pa + 8) 4" "apart (base + 8) 4 pa 8"
    "apart (base + 8) 4 base 8" "apart (pa + 8) 4 pa 8" "apart (pa + 8) 4 base 8" "apart base 8 (base + 8) 4"
    "unat (base + 8) = unat base + 8" "base < pa" "pa \<noteq> 0"
    using assms by (auto simp: first_page_def apart_def word_less_nat_alt)
  show "pa \<noteq> -1" using assms by (auto simp: first_page_def unsigned_minus_1_eq_mask mask_eq_exp_minus_1)
qed

lemma kheap_comm: "s\<lparr>freep := f, pmem := m\<rparr> = s\<lparr>pmem := m, freep := f\<rparr>" "s\<lparr>freep := f, freelist := l\<rparr> = s\<lparr>freelist := l, freep := f\<rparr>"
  by (rule kheap.equality; simp)+

lemma kmem_comm: "s\<lparr>freelist := l, pmem := m\<rparr> = s\<lparr>pmem := m, freelist := l\<rparr>"
  by (rule kmem.equality) simp_all

text \<open>Memory after the allocator has set itself up and after it has put the page on its list.\<close>

definition set_up :: "u64 \<Rightarrow> pmem \<Rightarrow> pmem" where
  "set_up base m = store32 (base + 8) 0 (store64 base base m)"

definition grown :: "u64 \<Rightarrow> u64 \<Rightarrow> pmem \<Rightarrow> pmem" where
  "grown base pa m = store64 base pa (store64 pa base (store32 (pa + 8) 4096 (fill_page pa 5 (set_up base m))))"

lemma grown_loads:
  assumes "first_page base pa s"
  shows "load64 base (grown base pa m) = pa" "load32 (pa + 8) (grown base pa m) = 4096"
  using first_pageD [OF assms] by (simp_all add: grown_def load_store_apart)

lemma units_4096: "first_page base pa s \<Longrightarrow> units pa 4096 \<noteq> base"
proof
  assume f: "first_page base pa s" and "units pa 4096 = base"
  moreover have "unat (units pa 4096) = unat pa + 65536"
    using f by (simp add: units_def first_page_def unat_word_ariths)
  ultimately show False by (auto simp: first_page_def)
qed

lemma first_knmorecore:
  assumes f: "first_page base pa s" and "nu < 4096"
  shows "\<exists>l. knmorecore nu (s\<lparr>pmem := set_up base m, freep := base\<rparr>) =
    Ret (base, s\<lparr>pmem := grown base pa m, freelist := l, freep := base\<rparr>)"
proof -
  note d = first_pageD [OF f]
  have f1: "freelist s = pa" "L_kmem \<notin> set (held s)" "unat base + 16 \<le> unat pa" "unat pa < 2 ^ 40"
    using f by (simp_all add: first_page_def)
  let ?l = "load64 pa (set_up base m)"
  have k: "kalloc (s\<lparr>pmem := set_up base m, freep := base\<rparr>) =
      Ret (pa, s\<lparr>pmem := fill_page pa 5 (set_up base m), freelist := ?l, freep := base\<rparr>)"
    using f1 d by (simp add: kalloc_def lock_acquire_def lock_release_def kheap_comm kmem_comm)
  let ?m = "store32 (pa + 8) 4096 (fill_page pa 5 (set_up base m))"
  let ?t = "s\<lparr>pmem := ?m, freelist := ?l, freep := base\<rparr>"
  have b: "load64 base ?m = base" "load32 (base + 8) (store64 pa base ?m) = 0"
    using d f1 by (simp_all add: load_store_apart fill_apart set_up_def)
  then have "knfree_search pa base ?t = Some base"
    using d by (subst knfree_search.simps) (simp add: hd_ptr_def)
  then have "knfree (pa + 16) ?t = Ret (s\<lparr>pmem := grown base pa m, freelist := ?l, freep := base\<rparr>)"
    using b d units_4096 [OF f]
    by (simp add: knfree_def Let_def hd_ptr_def hd_size_def set_ptr_def kheap_comm kmem_comm grown_def) (simp add: units_def)
  then show ?thesis
    using k d assms(2) by (intro exI [of _ ?l]) (simp add: knmorecore_def Let_def set_size_def kheap_comm kmem_comm)
qed

text \<open>
  C12. The kernel's allocator hands out memory it does not own: the first call of \<open>knmalloc\<close>, for
  at most 61440 bytes, gets one page from \<open>kalloc\<close> and returns an address behind the end of that
  page, near the end of the 65536 bytes it believes to have.
\<close>

theorem knmalloc_outside_page:
  assumes "kmem_inv s (pa # ps)" and "freep s = 0" and "base \<noteq> 0" and "unat base + 16 \<le> unat (kend s)" and "nbytes \<le> 61440"
  shows "returns (knmalloc base nbytes s) (\<lambda>(a, s'). unat pa + 4096 \<le> unat a \<and>
    unat a = unat pa + 65536 - 16 * ((unat nbytes + 15) div 16))"
proof -
  have f: "first_page base pa s"
    using assms by (auto simp: first_page_def kmem_inv_def kmem_page_def word_less_nat_alt word_le_nat_alt PHYSTOP_def KERNBASE_def)
  define nu :: u32 where "nu = ucast (((ucast nbytes :: u64) + 16 - 1) div 16 + 1)"
  have nb: "unat nbytes \<le> 61440" using assms(5) by (simp add: word_le_nat_alt)
  have nu: "unat nu = (unat nbytes + 15) div 16 + 1"
    using nb by (simp add: nu_def unat_word_ariths unsigned_ucast_eq take_bit_nat_eq_self unat_div)
  then have lim: "nu < 4096" "nu \<noteq> 0" "\<not> 4096 \<le> nu" "0 < nu"
    using nb by (auto simp: word_less_nat_alt word_le_nat_alt unat_eq_0 [symmetric])
  let ?m = "pmem s"
  let ?s1 = "s\<lparr>pmem := set_up base ?m, freep := base\<rparr>"
  obtain l where more: "knmorecore nu ?s1 = Ret (base, s\<lparr>pmem := grown base pa ?m, freelist := l, freep := base\<rparr>)"
    using first_knmorecore [OF f lim(1)] by blast
  let ?s2 = "s\<lparr>pmem := grown base pa ?m, freelist := l, freep := base\<rparr>"
  have b1: "hd_ptr base ?s1 = base" "hd_size base ?s1 = 0"
    using first_pageD [OF f] by (simp_all add: hd_ptr_def hd_size_def set_up_def load_store_apart)
  have step1: "knmalloc_step nu base base ?s1 = Ret (Inr (base, pa), ?s2)"
    using b1 lim more assms(3) grown_loads [OF f] by (simp add: knmalloc_step_def hd_ptr_def not_le)
  have b2: "hd_size pa ?s2 = 4096" using grown_loads [OF f] by (simp add: hd_size_def)
  let ?s3 = "set_size pa (4096 - nu) ?s2"
  have "hd_size pa ?s3 = 4096 - nu" by (simp add: set_size_def hd_size_def)
  moreover have "nu \<le> 4096" "4096 \<noteq> nu" using lim by auto
  ultimately have step2: "knmalloc_step nu base pa ?s2 =
      Ret (Inl (units pa (4096 - nu) + 16), (set_size (units pa (4096 - nu)) nu ?s3)\<lparr>freep := base\<rparr>)"
    unfolding knmalloc_step_def b2 Let_def by simp
  then have "knmalloc base nbytes s =
      Ret (units pa (4096 - nu) + 16, (set_size (units pa (4096 - nu)) nu ?s3)\<lparr>freep := base\<rparr>)"
    using assms(2) b1 step1 unfolding knmalloc_def nu_def [symmetric]
    by (simp add: Let_def set_size_def set_ptr_def kheap_comm set_up_def knmalloc_loop.simps from_loop_def)
  moreover have "unat (units pa (4096 - nu) + 16) = unat pa + 65536 - 16 * ((unat nbytes + 15) div 16)"
  proof -
    have "unat (4096 - nu) = 4096 - unat nu" using lim by (simp add: unat_sub word_le_nat_alt word_less_nat_alt)
    moreover define q where "q = (unat nbytes + 15) div 16"
    ultimately have u: "unat (4096 - nu) = 4095 - q" using nu by simp
    have q: "q \<le> 3840" using nb by (simp add: q_def)
    have pa: "unat pa < 2 ^ 40" using f by (simp add: first_page_def)
    have "unat (units pa (4096 - nu)) = unat pa + 16 * (4095 - q)"
      using u q pa by (simp add: units_def unat_word_ariths unsigned_ucast_eq take_bit_nat_eq_self)
    then have "unat (units pa (4096 - nu) + 16) = unat pa + 16 * (4095 - q) + 16"
      using q pa by (simp add: unat_word_ariths)
    then show ?thesis using q unfolding q_def [symmetric] by simp
  qed
  moreover have "(unat nbytes + 15) div 16 \<le> 3840" using nb by simp
  then have "unat pa + 4096 \<le> unat pa + 65536 - 16 * ((unat nbytes + 15) div 16)" by linarith
  ultimately show ?thesis by simp
qed

theorem knmalloc_outside_page_witness:
  "returns (knmalloc 0x80021000 16 (kmem.extend demo_kmem \<lparr>freep = 0\<rparr>)) (\<lambda>(a, s'). unat demo_page1 + 4096 \<le> unat a)"
proof -
  have "kmem_inv (kmem.extend demo_kmem \<lparr>freep = 0\<rparr>) [demo_page1, demo_page2]"
    using demo_kmem_inv by (simp add: kmem_inv_def kmem_page_def kmem.defs)
  from knmalloc_outside_page [OF this, of "0x80021000" 16] show ?thesis
    by (auto simp: kmem.defs demo_kmem_def elim!: returns_mono)
qed

end
