(* ===== verification/Virtio.thy ===== *)
theory Virtio
  imports Bio
begin

unbundle bit_operations_syntax

text \<open>
  The disk driver (kernel/virtio_disk.c, kernel/virtio.h): the rings it shares with the device,
  the allocation of descriptors, the request and the interrupt handler.

  The device is not modelled: what its registers hold is the argument \<open>reg\<close>, every register
  write is logged in \<open>v_writes\<close>, and the used ring \<open>v_used\<close>, \<open>v_used_ring\<close> and the status bytes are
  state that only the device changes. A DMA address is the object it points to. A request that
  has to wait is a resumable call: for descriptors (\<open>RwAlloc\<close>) or for the interrupt handler
  to clear \<open>b->disk\<close> (\<open>RwWait\<close>).

  Shown here: three descriptors are taken or none, freeing a chain ends and gives back exactly
  the descriptors of the request.
\<close>

definition NUM :: nat where "NUM = 8"

definition VRING_DESC_F_NEXT :: u16 where "VRING_DESC_F_NEXT = 1"
definition VRING_DESC_F_WRITE :: u16 where "VRING_DESC_F_WRITE = 2"
definition VIRTIO_BLK_T_IN :: u32 where "VIRTIO_BLK_T_IN = 0"
definition VIRTIO_BLK_T_OUT :: u32 where "VIRTIO_BLK_T_OUT = 1"

datatype dma = DmaNull | DmaOps nat | DmaData nat | DmaStatus nat

record virtq_desc =
  vd_addr :: dma
  vd_len :: u32
  vd_flags :: u16
  vd_next :: u16

record virtio_blk_req =
  vr_type :: u32
  vr_reserved :: u32
  vr_sector :: u64

record vdisk = kctx +
  v_desc :: "nat \<Rightarrow> virtq_desc"
  v_avail_ring :: "nat \<Rightarrow> u16"
  v_avail_idx :: u16
  v_used :: u16
  v_used_ring :: "nat \<Rightarrow> u32"
  v_free :: "nat \<Rightarrow> bool"
  v_used_idx :: u16
  v_info_b :: "nat \<Rightarrow> nat option"
  v_info_status :: "nat \<Rightarrow> byte"
  v_ops :: "nat \<Rightarrow> virtio_blk_req"
  b_disk :: "nat \<Rightarrow> bool"
  v_writes :: "(nat \<times> u32) list"

definition zero_desc :: virtq_desc where
  "zero_desc = \<lparr>vd_addr = DmaNull, vd_len = 0, vd_flags = 0, vd_next = 0\<rparr>"

definition write_reg :: "nat \<Rightarrow> u32 \<Rightarrow> 'z vdisk_scheme \<Rightarrow> 'z vdisk_scheme" where
  "write_reg r v s = s\<lparr>v_writes := v_writes s @ [(r, v)]\<rparr>"

section \<open>Initialisation\<close>

definition features_mask :: u64 where
  "features_mask = push_bit 5 1 OR push_bit 7 1 OR push_bit 11 1 OR push_bit 12 1 OR push_bit 27 1 OR push_bit 29 1 OR push_bit 28 1"

text \<open>\<open>pages\<close> is the address of the two pages the rings are in.\<close>

definition virtio_disk_init :: "(nat \<Rightarrow> u32) \<Rightarrow> u64 \<Rightarrow> 'z vdisk_scheme \<Rightarrow> 'z vdisk_scheme res" where
  "virtio_disk_init reg pages s =
     (if reg 0x000 \<noteq> 0x74726976 \<or> reg 0x004 \<noteq> 1 \<or> reg 0x008 \<noteq> 2 \<or> reg 0x00c \<noteq> 0x554d4551
      then Panic ''could not find virtio disk''
      else
        let s1 = write_reg 0x070 3 (write_reg 0x070 1 s);
            s2 = write_reg 0x020 (ucast ((ucast (reg 0x010) :: u64) AND NOT features_mask)) s1;
            s3 = write_reg 0x070 15 (write_reg 0x070 11 s2);
            s4 = write_reg 0x030 0 (write_reg 0x028 (ucast PGSIZE) s3) in
        if reg 0x034 = 0 then Panic ''virtio disk has no queue 0''
        else if reg 0x034 < of_nat NUM then Panic ''virtio disk max queue too short''
        else
          let s5 = write_reg 0x038 (of_nat NUM) s4;
              s6 = s5\<lparr>v_desc := \<lambda>_. zero_desc, v_avail_ring := \<lambda>_. 0, v_avail_idx := 0, v_used := 0, v_used_ring := \<lambda>_. 0\<rparr> in
          Ret ((write_reg 0x040 (ucast (drop_bit PGSHIFT pages)) s6)\<lparr>v_free := \<lambda>_. True\<rparr>))"

section \<open>Descriptors\<close>

definition alloc_desc :: "'z vdisk_scheme \<Rightarrow> nat option \<times> 'z vdisk_scheme" where
  "alloc_desc s =
     (case find (v_free s) [0..<NUM] of None \<Rightarrow> (None, s)
      | Some i \<Rightarrow> (Some i, s\<lparr>v_free := (v_free s)(i := False)\<rparr>))"

definition free_desc :: "nat \<Rightarrow> 'z vdisk_scheme \<Rightarrow> 'z vdisk_scheme res" where
  "free_desc i s =
     (if i \<ge> NUM then Panic ''free_desc 1''
      else if v_free s i then Panic ''free_desc 2''
      else Ret (wakeup_ev ChVdiskFree (s\<lparr>v_desc := (v_desc s)(i := zero_desc), v_free := (v_free s)(i := True)\<rparr>)))"

definition used_descs :: "'z vdisk_scheme \<Rightarrow> nat set" where
  "used_descs s = {i. i < NUM \<and> \<not> v_free s i}"

lemma used_descs_finite [simp]: "finite (used_descs s)"
  by (simp add: used_descs_def)

lemma free_desc_used:
  "free_desc i s = Ret s' \<Longrightarrow> i \<in> used_descs s \<and> used_descs s' = used_descs s - {i}"
  by (auto simp: free_desc_def used_descs_def wakeup_ev_def split: if_splits)

lemma free_desc_card:
  assumes "free_desc i s = Ret s'" shows "card (used_descs s') < card (used_descs s)"
proof -
  have "used_descs s' \<subset> used_descs s" using free_desc_used [OF assms] by blast
  then show ?thesis by (rule psubset_card_mono [OF used_descs_finite])
qed

text \<open>
  \<open>free_chain\<close> reads the descriptor before \<open>free_desc\<close> checks the index. For an index of 8 or more
  the C code reads past the table, into the same two pages or behind them; \<open>v_desc\<close> has some value there
  too, which is not used, since \<open>free_desc\<close> panics.
\<close>

function free_chain :: "nat \<Rightarrow> 'z vdisk_scheme \<Rightarrow> 'z vdisk_scheme res" where
  "free_chain i s =
     (let flag = vd_flags (v_desc s i); nxt = unat (vd_next (v_desc s i)) in
      case free_desc i s of
        Ret s1 \<Rightarrow> if flag AND VRING_DESC_F_NEXT \<noteq> 0 then free_chain nxt s1 else Ret s1
      | Panic m \<Rightarrow> Panic m | Block c \<Rightarrow> Block c | Fault \<Rightarrow> Fault | NoReturn \<Rightarrow> NoReturn)"
  by pat_completeness auto

termination
  by (relation "measure (\<lambda>(i, s). card (used_descs s))") (simp_all only: wf_measure in_measure prod.case free_desc_card)

declare free_chain.simps [simp del]

text \<open>The three descriptors; what was taken is given back when one is missing.\<close>

definition alloc3_desc :: "'z vdisk_scheme \<Rightarrow> ((nat \<times> nat \<times> nat) option \<times> 'z vdisk_scheme) res" where
  "alloc3_desc s =
     (case alloc_desc s of (None, s1) \<Rightarrow> Ret (None, s1)
      | (Some a, s1) \<Rightarrow> (case alloc_desc s1 of (None, s2) \<Rightarrow> bind_res (free_desc a s2) (\<lambda>s3. Ret (None, s3))
        | (Some b, s2) \<Rightarrow> (case alloc_desc s2 of
            (None, s3) \<Rightarrow> bind_res (free_desc a s3) (\<lambda>s4. bind_res (free_desc b s4) (\<lambda>s5. Ret (None, s5)))
          | (Some c, s3) \<Rightarrow> Ret (Some (a, b, c), s3))))"

section \<open>Requests\<close>

datatype rw_cont = RwAlloc | RwWait nat

text \<open>Lines 226--269: the request and its descriptors, and the notification of the device.\<close>

definition rw_format :: "nat \<Rightarrow> u32 \<Rightarrow> bool \<Rightarrow> nat \<times> nat \<times> nat \<Rightarrow> 'z vdisk_scheme \<Rightarrow> 'z vdisk_scheme" where
  "rw_format b blockno wr idx s =
     (case idx of (i0, i1, i2) \<Rightarrow>
      let sector = ucast (blockno * of_nat (BSIZE div 512)) :: u64;
          s1 = s\<lparr>v_desc := (v_desc s)
                   (i0 := \<lparr>vd_addr = DmaOps i0, vd_len = 16, vd_flags = VRING_DESC_F_NEXT, vd_next = of_nat i1\<rparr>,
                    i1 := \<lparr>vd_addr = DmaData b, vd_len = of_nat BSIZE,
                           vd_flags = (if wr then 0 else VRING_DESC_F_WRITE) OR VRING_DESC_F_NEXT, vd_next = of_nat i2\<rparr>,
                    i2 := \<lparr>vd_addr = DmaStatus i0, vd_len = 1, vd_flags = VRING_DESC_F_WRITE, vd_next = 0\<rparr>),
                 v_info_b := (v_info_b s)(i0 := Some b), v_info_status := (v_info_status s)(i0 := 0xff),
                 v_ops := (v_ops s)(i0 := \<lparr>vr_type = if wr then VIRTIO_BLK_T_OUT else VIRTIO_BLK_T_IN, vr_reserved = 0, vr_sector = sector\<rparr>),
                 b_disk := (b_disk s)(b := True)\<rparr>;
          s2 = s1\<lparr>v_avail_ring := (v_avail_ring s1)(unat (v_avail_idx s1) mod NUM := of_nat i0), v_avail_idx := v_avail_idx s1 + 1\<rparr> in
      write_reg 0x050 0 s2)"

text \<open>
  From the loop that waits for the handler on: \<open>sleep\<close> gives the lock back, so the resumed call
  takes it again.
\<close>

definition rw_finish :: "nat \<Rightarrow> nat \<Rightarrow> 'z vdisk_scheme \<Rightarrow> ((unit, rw_cont) call \<times> 'z vdisk_scheme) res" where
  "rw_finish b i0 s =
     (if b_disk s b then bind_res (lock_release L_vdisk s) (\<lambda>s1. Ret (Asleep (ChBuf b) (RwWait i0), s1))
      else
        bind_res (free_chain i0 (s\<lparr>v_info_b := (v_info_b s)(i0 := None)\<rparr>)) (\<lambda>s1.
        bind_res (lock_release L_vdisk s1) (\<lambda>s2. Ret (Done (), s2))))"

definition virtio_disk_rw_from :: "rw_cont \<Rightarrow> nat \<Rightarrow> u32 \<Rightarrow> bool \<Rightarrow> 'z vdisk_scheme \<Rightarrow> ((unit, rw_cont) call \<times> 'z vdisk_scheme) res" where
  "virtio_disk_rw_from k b blockno wr s =
     bind_res (lock_acquire L_vdisk s) (\<lambda>s1.
     case k of RwWait i0 \<Rightarrow> rw_finish b i0 s1
     | RwAlloc \<Rightarrow>
         bind_res (alloc3_desc s1) (\<lambda>(idx, s2).
         case idx of
           None \<Rightarrow> bind_res (lock_release L_vdisk s2) (\<lambda>s3. Ret (Asleep ChVdiskFree RwAlloc, s3))
         | Some i \<Rightarrow> rw_finish b (fst i) (rw_format b blockno wr i s2)))"

definition virtio_disk_rw :: "nat \<Rightarrow> u32 \<Rightarrow> bool \<Rightarrow> 'z vdisk_scheme \<Rightarrow> ((unit, rw_cont) call \<times> 'z vdisk_scheme) res" where
  "virtio_disk_rw = virtio_disk_rw_from RwAlloc"

section \<open>The interrupt\<close>

text \<open>
  The loop over the used ring while the device adds no entry: it ends when the 16-bit counters
  meet, so the fuel is their distance. A completion out of range or of a descriptor that has no buffer is \<open>Fault\<close>.
\<close>

fun intr_loop :: "nat \<Rightarrow> 'z vdisk_scheme \<Rightarrow> 'z vdisk_scheme res" where
  "intr_loop 0 s = Ret s"
| "intr_loop (Suc k) s =
     (let id = unat (v_used_ring s (unat (v_used_idx s) mod NUM)) in
      if id \<ge> NUM then Fault
      else if v_info_status s id \<noteq> 0 then Panic ''virtio_disk_intr status''
      else case v_info_b s id of None \<Rightarrow> Fault
        | Some b \<Rightarrow> intr_loop k (wakeup_ev (ChBuf b) (s\<lparr>v_used_idx := v_used_idx s + 1, b_disk := (b_disk s)(b := False)\<rparr>)))"

definition virtio_disk_intr :: "(nat \<Rightarrow> u32) \<Rightarrow> 'z vdisk_scheme \<Rightarrow> 'z vdisk_scheme res" where
  "virtio_disk_intr reg s =
     bind_res (lock_acquire L_vdisk s) (\<lambda>s1.
     bind_res (intr_loop (unat (v_used s1 - v_used_idx s1)) (write_reg 0x064 (reg 0x060 AND 3) s1)) (lock_release L_vdisk))"

section \<open>Properties of the descriptors\<close>

lemma free_desc_cases:
  obtains (ok) s' where "free_desc i s = Ret s'" | (range) "free_desc i s = Panic ''free_desc 1''"
    | (free) "free_desc i s = Panic ''free_desc 2''"
  by (cases "i \<ge> NUM"; cases "v_free s i") (simp_all add: free_desc_def)

text \<open>
  C24. Freeing a chain ends, whatever the next pointers in the descriptors say, also on a cyclic
  or out-of-range chain: it returns with fewer descriptors in use, or panics on the first
  descriptor that does not exist or is free already.
\<close>

theorem free_chain_ends:
  "(\<exists>s'. free_chain i s = Ret s' \<and> used_descs s' \<subset> used_descs s) \<or>
   free_chain i s = Panic ''free_desc 1'' \<or> free_chain i s = Panic ''free_desc 2''"
proof (induction i s rule: free_chain.induct)
  case (1 i s)
  show ?case
  proof (cases rule: free_desc_cases [of i s])
    case (ok s1)
    have sub: "used_descs s1 \<subset> used_descs s" using free_desc_used [OF ok] by blast
    show ?thesis
    proof (cases "vd_flags (v_desc s i) AND VRING_DESC_F_NEXT \<noteq> 0")
      case True
      then have "free_chain i s = free_chain (unat (vd_next (v_desc s i))) s1"
        using ok by (simp add: free_chain.simps [of i s] Let_def)
      then show ?thesis using "1.IH" [OF refl refl ok True] sub by auto
    next
      case False
      then show ?thesis using ok sub by (simp add: free_chain.simps [of i s] Let_def)
    qed
  qed (simp_all add: free_chain.simps [of i s] Let_def)
qed

lemma alloc_desc_Some:
  assumes "alloc_desc s = (Some i, s')"
  shows "i < NUM \<and> v_free s i \<and> s' = s\<lparr>v_free := (v_free s)(i := False)\<rparr>"
proof -
  from assms have "find (v_free s) [0..<NUM] = Some i" "s' = s\<lparr>v_free := (v_free s)(i := False)\<rparr>"
    by (auto simp: alloc_desc_def split: option.splits)
  then show ?thesis by (auto simp: find_Some_iff)
qed

lemma alloc_desc_None:
  assumes "alloc_desc s = (None, s')" shows "s' = s \<and> (\<forall>i < NUM. \<not> v_free s i)"
  using assms by (auto simp: alloc_desc_def find_None_iff split: option.splits)

definition free_descs :: "'z vdisk_scheme \<Rightarrow> nat set" where
  "free_descs s = {i. i < NUM \<and> v_free s i}"

text \<open>
  C22. \<open>alloc3_desc\<close> takes three descriptors or none: with three or more free it returns three
  distinct ones that were free and marks exactly them; with fewer it fails and every descriptor
  is as free as before.
\<close>

theorem alloc3_desc_all_or_none:
  "returns (alloc3_desc s) (\<lambda>(idx, s').
     case idx of Some (a, b, c) \<Rightarrow> distinct [a, b, c] \<and> {a, b, c} \<subseteq> free_descs s \<and>
         v_free s' = (v_free s)(a := False, b := False, c := False)
     | None \<Rightarrow> card (free_descs s) < 3 \<and> v_free s' = v_free s)"
proof -
  have sub: "card (free_descs s) < 3" if "free_descs s \<subseteq> {a, b}" for a b
    using card_mono [OF _ that] card_insert_le_m1 [of 2 "{b}" a] by (simp add: le_less_trans)
  obtain x s1 where 1: "alloc_desc s = (x, s1)" by fastforce
  show ?thesis
  proof (cases x)
    case None
    with 1 alloc_desc_None [of s s1] have "free_descs s = {}" by (auto simp: free_descs_def)
    then show ?thesis using None 1 alloc_desc_None [of s s1] by (auto simp: alloc3_desc_def)
  next
    case (Some a)
    note a = alloc_desc_Some [OF 1 [unfolded Some]]
    obtain y s2 where 2: "alloc_desc s1 = (y, s2)" by fastforce
    show ?thesis
    proof (cases y)
      case None
      with 2 a alloc_desc_None [of s1 s2] have "free_descs s \<subseteq> {a, a}" by (auto simp: free_descs_def split: if_splits)
      then have "card (free_descs s) < 3" by (rule sub)
      then show ?thesis using None 1 2 Some a alloc_desc_None [of s1 s2]
        by (auto simp: alloc3_desc_def free_desc_def wakeup_ev_def fun_eq_iff)
    next
      case y: (Some b)
      note b = alloc_desc_Some [OF 2 [unfolded y]]
      obtain z s3 where 3: "alloc_desc s2 = (z, s3)" by fastforce
      show ?thesis
      proof (cases z)
        case None
        with 3 a b alloc_desc_None [of s2 s3] have "free_descs s \<subseteq> {a, b}" by (auto simp: free_descs_def split: if_splits)
        then have "card (free_descs s) < 3" by (rule sub)
        then show ?thesis using None 1 2 3 Some y a b alloc_desc_None [of s2 s3]
          by (auto simp: alloc3_desc_def free_desc_def wakeup_ev_def fun_eq_iff)
      next
        case z: (Some c)
        then show ?thesis using alloc_desc_Some [OF 3 [unfolded z]] 1 2 3 Some y a b
          by (auto simp: alloc3_desc_def free_descs_def split: if_splits)
      qed
    qed
  qed
qed

lemma unat_small: "i < NUM \<Longrightarrow> unat (of_nat i :: u16) = i"
  by (simp add: NUM_def unat_of_nat)

text \<open>
  C23. A disk request gives back its descriptors: after the request has been laid out on three
  descriptors in use, freeing its chain frees exactly these three, from its first descriptor
  along the next pointers of the request.
\<close>

theorem rw_chain_freed:
  assumes "distinct [a, b, c]" and "{a, b, c} \<subseteq> used_descs s"
  shows "returns (free_chain a (rw_format buf blockno wr (a, b, c) s)) (\<lambda>s'.
    v_free s' = (v_free s)(a := True, b := True, c := True) \<and> v_desc s' a = zero_desc \<and> v_desc s' b = zero_desc \<and>
    v_desc s' c = zero_desc)"
proof -
  have [simp]: "((if wr then 0 else 2) OR (1 :: u16)) AND 1 \<noteq> 0" by simp
  have u: "a < NUM" "b < NUM" "c < NUM" "\<not> v_free s a" "\<not> v_free s b" "\<not> v_free s c"
    using assms by (auto simp: used_descs_def)
  show ?thesis
    using assms(1) u
    by (simp add: free_chain.simps rw_format_def write_reg_def free_desc_def wakeup_ev_def Let_def unat_small
        VRING_DESC_F_NEXT_def VRING_DESC_F_WRITE_def)
qed

definition demo_vdisk :: vdisk where
  "demo_vdisk = \<lparr>held = [], wakes = [], cur = zero_proc, v_desc = (\<lambda>_. zero_desc), v_avail_ring = (\<lambda>_. 0), v_avail_idx = 0xffff,
     v_used = 0, v_used_ring = (\<lambda>_. 0), v_free = (\<lambda>i. i > 2), v_used_idx = 0, v_info_b = (\<lambda>_. None), v_info_status = (\<lambda>_. 0),
     v_ops = (\<lambda>_. \<lparr>vr_type = 0, vr_reserved = 0, vr_sector = 0\<rparr>), b_disk = (\<lambda>_. False), v_writes = []\<rparr>"

theorem rw_chain_freed_witness:
  "returns (free_chain 0 (rw_format 7 33 True (0, 2, 1) demo_vdisk)) (\<lambda>s'. v_free s' = (\<lambda>_. True))"
proof (rule returns_mono [OF rw_chain_freed])
  show "distinct [0, 2, 1 :: nat]" "{0, 2, 1} \<subseteq> used_descs demo_vdisk"
    by (simp_all add: used_descs_def demo_vdisk_def NUM_def)
qed (auto simp: demo_vdisk_def fun_eq_iff)

end
