(* ===== verification/Spec2Isabelle.thy ===== *)
theory Spec2Isabelle
  imports Grace User_Text Exec Log_Crash Proc_Facts Sysproc Kmalloc Virtio
begin

text \<open>
  Verification of xv6-riscv-rcu: the xv6 kernel for RISC-V with the process table replaced by an
  RCU-protected list of processes.

  \<^bold>\<open>Conventions.\<close> A C function is a HOL function of the same name from its arguments and a
  state record to a result: \<open>Ret\<close> a value, \<open>Panic\<close> a message, \<open>Fault\<close> (the use of memory that is
  not allocated), \<open>Block\<close> (it would wait on this channel or lock, from this state), \<open>NoReturn\<close> (a
  loop that does not end). Calls that sleep and go on later are values \<open>Asleep\<close> with what is
  needed to resume them (theory Kctx). Machine integers are words where they can wrap. Loops are
  structural recursion, \<open>function\<close> with a termination proof, \<open>partial_function (option)\<close>, or
  carry a number of iterations computed from the arguments.

  \<^bold>\<open>State.\<close> There are two views. The detailed one has the harts, their interrupt state and the
  fields of every lock: \<open>mach\<close> (Spinlock) extended by \<open>rcu\<close> (List_Proc), the process list. The
  other is one chain of records, each extending the last, for the code that runs in one process
  with locks as a set of held ones: \<open>kctx\<close>, \<open>kmem\<close>, \<open>uart\<close>, \<open>cons\<close>, \<open>printer\<close>, \<open>pipes\<close>, \<open>blocks\<close>,
  \<open>log\<close>, \<open>fs\<close>, \<open>files\<close>. Theory Kctx relates their lock operations, and \<open>psys\<close> of theory Proc joins them.

  \<^bold>\<open>Foundations.\<close>
  \<^item> Prelude: results, their laws, and types. Machine: constants of param.h, riscv.h, memlayout.h
    and the structures of proc.h and spinlock.h.
  \<^item> Spinlock (spinlock.c): \<open>acquire\<close> split where other CPUs can run; mutual exclusion over all
    interleavings, and interrupt nesting.
  \<^item> List_Proc (list_proc.c): the list operations are insert, replace and remove, and a reader on a
    node of the old list keeps a complete view; for the update also between any two of its stores.
    Grace: when \<open>synchronize_rcu\<close> returns, for CPUs that may be any at each of its iterations; it
    waits for an earlier reader that does not spin for a lock, mark itself idle or switch context in
    its read-side section. \<open>acquire\<close> and \<open>scheduler\<close> break this, and are shown not to be waited for.

  \<^bold>\<open>Memory.\<close>
  \<^item> Pmem, Kalloc (kalloc.c): byte memory and the page free list threaded through it.
  \<^item> Kmalloc (kmalloc.c): the heap allocator; its first block is outside the page it owns.
  \<^item> Vm (vm.c) and Page_Table: three-level page tables in memory; \<open>mappages\<close> refines the update of
    an address map. Usermem: copies between the kernel and user space.
  \<^item> Kstring (string.c, ulib.c): string routines on byte memory.

  \<^bold>\<open>Devices.\<close>
  \<^item> Ring: the circular buffer with wrapping counters that Uart (uart.c), Console (console.c)
    and Pipe (pipe.c) interpret. Printf (kernel/printf.c, user/printf.c): formatted output.
  \<^item> Virtio (virtio_disk.c): descriptors, requests and the interrupt handler of the disk driver.

  \<^bold>\<open>File system.\<close>
  \<^item> Sleeplock (sleeplock.c), Bio (bio.c) and Cache: the buffer cache returns the current contents
    of a block and recycles the least recently used buffer.
  \<^item> Log (log.c) and Log_Crash: a crash at any disk write of \<open>commit\<close>, followed by recovery, leaves
    all of a transaction or nothing of it.
  \<^item> Fs and Fs_Content (fs.c): blocks, inodes, file contents, directories, paths. Block_Codec: the
    layout of an inode in a block.
  \<^item> File (file.c), Syscall_Args (syscall.c), Sysfile (sysfile.c), Exec (exec.c).

  \<^bold>\<open>Processes.\<close>
  \<^item> Proc (proc.c): creation, exit, wait, sleep, wakeup, kill, yield and one round of the
    scheduler. Proc_Facts: the shared update of a process version; the kernel stack a failing
    \<open>allocproc\<close> keeps; the uses of cleared, freed or uninitialised objects in \<open>exit\<close>, \<open>wakeup\<close> and
    \<open>kill\<close>; the scheduler as a reader that grace periods miss.
  \<^item> Sysproc (sysproc.c, clockintr of trap.c): the system calls on processes.

  \<^bold>\<open>User programs.\<close> User_Text: grep, cat, wc and echo, over a record of the system calls they use.

  \<^bold>\<open>Bounds.\<close> Page loops run once per page of the range. The loop over the used ring of the disk
  runs as often as the two 16-bit counters are apart. \<open>free_chain\<close> ends because each iteration
  frees a descriptor. Loops that wait for another CPU, a device or a sleeping process, and
  traversals of lists that may be damaged, are partial functions.

  \<^bold>\<open>Arguments.\<close> What is not in the repository or is assembly is an argument: device registers, the
  addresses of linker symbols, \<open>swtch\<close>, which stands for all that runs until a process is
  scheduled again, and what \<open>synchronize_rcu\<close> finds of the other CPUs at its iterations. Theory Proc takes heap objects from an allocator of fresh objects instead of
  Kmalloc, whose blocks overlap memory they do not own: with it no statement on processes would
  hold beyond the first allocation. Using a freed node is \<open>Fault\<close> there.

  \<^bold>\<open>Not modelled.\<close>
  \<^item> usertrap, usertrapret, kerneltrap, devintr, forkret and plic.c, which move control and status
    registers and continue in assembly; entry.S, start.c, main.c, swtch.S, trampoline.S.
  \<^item> The dispatch in syscall.c: it stores the result through a process pointer read before the
    call, and the order in which C evaluates the two sides is not fixed.
  \<^item> Debugging output: print_proc, print_list, procdump, and the \<open>printf\<close> calls in proc.c.
  \<^item> ramdisk.c and slab.c, which are not built; the shell, the small programs and the tests in
    user/, among them umalloc.c.
  \<^item> Memory ordering weaker than sequential consistency.
\<close>

end
